(* ===== verification/Prelude.thy ===== *)
theory Prelude
  imports Main "HOL-Library.Word"
begin

text \<open>
  Shared vocabulary of the development: the machine integer types of the Rust code, the outcome
  of an operation that may panic or run into undefined behaviour, the byte order of the host, the
  conversion between integers and byte arrays, and the list lemmas the component theories share.
  Rust's \<open>usize\<close> values that count the elements of slices are \<open>nat\<close>: a slice never has more than
  \<open>isize::MAX\<close> bytes, so sums of two lengths do not wrap. Arithmetic on counts that the caller
  chooses freely goes through \<open>usize_add\<close> and \<open>usize_mul\<close>, and a counter that can wrap
  (\<open>RingBuffer::p\<close>) is a 64-bit word.
\<close>

unbundle bit_operations_syntax

type_synonym u8 = "8 word"
type_synonym u16 = "16 word"
type_synonym u32 = "32 word"
type_synonym u64 = "64 word"
type_synonym u128 = "128 word"
type_synonym i64 = "64 word"

text \<open>Facts that components collect for their proofs.\<close>

named_theorems byte_simps \<open>conversions between words and byte lists\<close>
named_theorems outcome_simps \<open>rewrite rules for outcomes\<close>
named_theorems region_simps \<open>reads and writes of byte regions\<close>

section \<open>Outcomes\<close>

text \<open>
  A call returns, panics (an assertion, an out of range index, an explicit \<open>panic!\<close>), or is
  undefined behaviour: an \<open>unsafe\<close> block read a slot that holds no value, or wrote outside its
  allocation. The last one is a value of its own, so that memory safety is a theorem.
\<close>

datatype 'a outcome = Returns 'a | Panics | Undefined

primrec obind :: "'a outcome \<Rightarrow> ('a \<Rightarrow> 'b outcome) \<Rightarrow> 'b outcome" where
  "obind (Returns x) f = f x"
| "obind Panics f = Panics"
| "obind Undefined f = Undefined"

declare obind.simps [outcome_simps]

lemma obind_Returns_iff [outcome_simps]:
  "obind m f = Returns y \<longleftrightarrow> (\<exists>x. m = Returns x \<and> f x = Returns y)"
  by (cases m) auto

lemma obind_assoc: "obind (obind m f) g = obind m (\<lambda>x. obind (f x) g)"
  by (cases m) auto

definition assert_that :: "bool \<Rightarrow> unit outcome" where
  "assert_that b = (if b then Returns () else Panics)"

lemma assert_that_simps [simp]:
  "assert_that True = Returns ()" "assert_that False = Panics"
  by (simp_all add: assert_that_def)

text \<open>
  The operators \<open>+\<close> and \<open>*\<close> on \<open>usize\<close> (64 bits): an overflow panics in a build with overflow
  checks, such as a debug build, and wraps around in a release build.
\<close>

definition usize_add :: "bool \<Rightarrow> nat \<Rightarrow> nat \<Rightarrow> nat outcome" where
  "usize_add debug a b =
     (if a + b < 2 ^ 64 then Returns (a + b) else if debug then Panics else Returns ((a + b) mod 2 ^ 64))"

definition usize_mul :: "bool \<Rightarrow> nat \<Rightarrow> nat \<Rightarrow> nat outcome" where
  "usize_mul debug a b =
     (if a * b < 2 ^ 64 then Returns (a * b) else if debug then Panics else Returns ((a * b) mod 2 ^ 64))"

text \<open>Indexing with a bounds check: \<open>xs[i]\<close> and \<open>xs[i] = v\<close>.\<close>

definition index :: "'a list \<Rightarrow> nat \<Rightarrow> 'a outcome" where
  "index xs i = (if i < length xs then Returns (xs ! i) else Panics)"

definition index_set :: "'a list \<Rightarrow> nat \<Rightarrow> 'a \<Rightarrow> 'a list outcome" where
  "index_set xs i v = (if i < length xs then Returns (xs[i := v]) else Panics)"

lemma index_in [simp]: "i < length xs \<Longrightarrow> index xs i = Returns (xs ! i)"
  and index_out [simp]: "length xs \<le> i \<Longrightarrow> index xs i = Panics"
  by (simp_all add: index_def)

lemma index_set_in [simp]: "i < length xs \<Longrightarrow> index_set xs i v = Returns (xs[i := v])"
  and index_set_out [simp]: "length xs \<le> i \<Longrightarrow> index_set xs i v = Panics"
  by (simp_all add: index_set_def)

section \<open>Comparison\<close>

text \<open>\<open>std::cmp::Ordering\<close>, \<open>Ord::cmp\<close> of the primitive types, and the lexicographic comparison of
  slices and iterators.\<close>

datatype ordering = Less | Equal | Greater

definition prim_cmp :: "'a::linorder \<Rightarrow> 'a \<Rightarrow> ordering" where
  "prim_cmp x y = (if x < y then Less else if x = y then Equal else Greater)"

fun iter_cmp :: "'a::linorder list \<Rightarrow> 'a list \<Rightarrow> ordering" where
  "iter_cmp [] [] = Equal"
| "iter_cmp [] (y # ys) = Less"
| "iter_cmp (x # xs) [] = Greater"
| "iter_cmp (x # xs) (y # ys) = (case prim_cmp x y of Equal \<Rightarrow> iter_cmp xs ys | o' \<Rightarrow> o')"

primrec reverse_ordering :: "ordering \<Rightarrow> ordering" where
  "reverse_ordering Less = Greater"
| "reverse_ordering Equal = Equal"
| "reverse_ordering Greater = Less"

lemma prim_cmp_simps [simp]:
  "prim_cmp x y = Less \<longleftrightarrow> x < y" "prim_cmp x y = Equal \<longleftrightarrow> x = y" "prim_cmp x y = Greater \<longleftrightarrow> y < x"
  "prim_cmp x x = Equal"
  by (auto simp: prim_cmp_def)

lemma reverse_prim_cmp: "reverse_ordering (prim_cmp x y) = prim_cmp y x"
  by (auto simp: prim_cmp_def)

lemma reverse_iter_cmp: "reverse_ordering (iter_cmp xs ys) = iter_cmp ys xs"
  by (induction xs ys rule: iter_cmp.induct) (auto simp: prim_cmp_def)

lemma iter_cmp_Equal [simp]: "iter_cmp xs ys = Equal \<longleftrightarrow> xs = ys"
  by (induction xs ys rule: iter_cmp.induct) (auto split: ordering.splits)

lemma iter_cmp_Less_trans: "iter_cmp xs ys = Less \<Longrightarrow> iter_cmp ys zs = Less \<Longrightarrow> iter_cmp xs zs = Less"
proof (induction xs ys arbitrary: zs rule: iter_cmp.induct)
  case (2 y ys)
  then show ?case by (cases zs) auto
next
  case (4 x xs y ys)
  then show ?case by (cases zs) (auto simp: prim_cmp_def split: if_splits)
qed auto

section \<open>Integers as byte arrays\<close>

text \<open>The byte order of the host: the code reads integers of C structs in native order.\<close>

datatype endian = LE | BE

fun le_bytes :: "nat \<Rightarrow> nat \<Rightarrow> u8 list" where
  "le_bytes 0 k = []"
| "le_bytes (Suc n) k = of_nat k # le_bytes n (k div 256)"

fun nat_of_le :: "u8 list \<Rightarrow> nat" where
  "nat_of_le [] = 0"
| "nat_of_le (b # bs) = unat b + 256 * nat_of_le bs"

text \<open>\<open>to_ne_bytes\<close>, \<open>from_ne_bytes\<close>, \<open>from_be_bytes\<close>, \<open>to_be\<close> and \<open>from_be\<close> of
  the unsigned types, for a type of \<open>n\<close> bytes.\<close>

definition ne_bytes :: "endian \<Rightarrow> nat \<Rightarrow> nat \<Rightarrow> u8 list" where
  "ne_bytes e n k = (case e of LE \<Rightarrow> le_bytes n k | BE \<Rightarrow> rev (le_bytes n k))"

definition of_ne_bytes :: "endian \<Rightarrow> u8 list \<Rightarrow> nat" where
  "of_ne_bytes e bs = (case e of LE \<Rightarrow> nat_of_le bs | BE \<Rightarrow> nat_of_le (rev bs))"

definition be_bytes :: "nat \<Rightarrow> nat \<Rightarrow> u8 list" where
  "be_bytes n k = rev (le_bytes n k)"

definition nat_of_be :: "u8 list \<Rightarrow> nat" where
  "nat_of_be bs = nat_of_le (rev bs)"

definition swap_be :: "endian \<Rightarrow> nat \<Rightarrow> nat \<Rightarrow> nat" where
  "swap_be e n k = of_ne_bytes e (be_bytes n k)"

lemma length_le_bytes [simp]: "length (le_bytes n k) = n"
  by (induction n arbitrary: k) auto

lemma length_ne_bytes [simp]: "length (ne_bytes e n k) = n"
  by (cases e) (simp_all add: ne_bytes_def)

lemma length_be_bytes [simp]: "length (be_bytes n k) = n"
  by (simp add: be_bytes_def)

lemma unat_u8 [simp]: "unat (b :: u8) < 256"
  using unsigned_less [where ?'a = nat, of b] by simp

lemma nat_of_le_bound: "nat_of_le bs < 256 ^ length bs"
proof (induction bs)
  case (Cons b bs)
  have b: "unat b < 256" by simp
  from Cons have "Suc (nat_of_le bs) \<le> 256 ^ length bs" by simp
  then have "256 * Suc (nat_of_le bs) \<le> 256 * 256 ^ length bs" by (rule mult_le_mono2)
  moreover from b have "unat b + 256 * nat_of_le bs < 256 * Suc (nat_of_le bs)"
    by (simp only: mult_Suc_right add_less_cancel_right)
  ultimately have "unat b + 256 * nat_of_le bs < 256 * 256 ^ length bs"
    by (rule less_le_trans [rotated])
  then show ?case by simp
qed simp

lemma nat_of_le_le_bytes [byte_simps]: "nat_of_le (le_bytes n k) = k mod 256 ^ n"
proof (induction n arbitrary: k)
  case (Suc n)
  have "unat (of_nat k :: u8) = k mod 256" by (simp add: unat_of_nat)
  with Suc show ?case by (simp add: mod_mult2_eq)
qed simp

lemma le_bytes_nat_of_le [byte_simps]: "length bs = n \<Longrightarrow> le_bytes n (nat_of_le bs) = bs"
proof (induction bs arbitrary: n)
  case (Cons b bs)
  have b: "unat b < 256" by simp
  then have "(unat b + 256 * nat_of_le bs) div 256 = nat_of_le bs" by simp
  moreover have "(of_nat (unat b + 256 * nat_of_le bs) :: u8) = b"
  proof -
    have "(256 :: u8) = 0" by simp
    then show ?thesis by (simp only: of_nat_add of_nat_mult of_nat_numeral) simp
  qed
  ultimately show ?case using Cons by (cases n) simp_all
qed simp

lemma nat_of_le_inj: "length xs = length ys \<Longrightarrow> nat_of_le xs = nat_of_le ys \<longleftrightarrow> xs = ys"
  by (metis le_bytes_nat_of_le)

lemma of_ne_bytes_bound: "of_ne_bytes e bs < 256 ^ length bs"
  using nat_of_le_bound [of bs] nat_of_le_bound [of "rev bs"]
  by (cases e) (simp_all add: of_ne_bytes_def)

lemma nat_of_be_bound: "nat_of_be bs < 256 ^ length bs"
  using nat_of_le_bound [of "rev bs"] by (simp add: nat_of_be_def)

lemma of_ne_bytes_ne_bytes [byte_simps]: "of_ne_bytes e (ne_bytes e n k) = k mod 256 ^ n"
  by (cases e) (simp_all add: of_ne_bytes_def ne_bytes_def byte_simps)

lemma ne_bytes_of_ne_bytes [byte_simps]: "length bs = n \<Longrightarrow> ne_bytes e n (of_ne_bytes e bs) = bs"
  by (cases e) (simp_all add: of_ne_bytes_def ne_bytes_def byte_simps)

lemma nat_of_be_be_bytes [byte_simps]: "nat_of_be (be_bytes n k) = k mod 256 ^ n"
  by (simp add: nat_of_be_def be_bytes_def byte_simps)

lemma be_bytes_nat_of_be [byte_simps]: "length bs = n \<Longrightarrow> be_bytes n (nat_of_be bs) = bs"
  by (simp add: nat_of_be_def be_bytes_def byte_simps)

text \<open>Storing a port converted by \<open>to_be\<close> lays its bytes out in network order on any host.\<close>

lemma ne_bytes_swap_be [byte_simps]: "ne_bytes e n (swap_be e n k) = be_bytes n k"
  by (simp add: swap_be_def byte_simps)

lemma swap_be_of_ne_bytes [byte_simps]:
  "length bs = n \<Longrightarrow> swap_be e n (of_ne_bytes e bs) = nat_of_be bs"
proof (cases e)
  case LE
  assume "length bs = n"
  then show ?thesis
    by (simp add: LE swap_be_def of_ne_bytes_def be_bytes_def nat_of_be_def byte_simps)
next
  case BE
  assume "length bs = n"
  then show ?thesis
    by (simp add: BE swap_be_def of_ne_bytes_def be_bytes_def nat_of_be_def byte_simps)
qed

lemma swap_be_bound: "swap_be e n k < 256 ^ n"
  using of_ne_bytes_bound [of e "be_bytes n k"] by (simp add: swap_be_def)

lemma swap_be_swap_be [byte_simps]: "swap_be e n (swap_be e n k) = k mod 256 ^ n"
  using swap_be_of_ne_bytes [of "be_bytes n k" n e] by (simp add: swap_be_def byte_simps)

lemma radix_eq_iff:
  assumes "i < M" and "j < M"
  shows "n * M + i = m * M + j \<longleftrightarrow> n = m \<and> i = (j :: nat)"
proof
  assume eq: "n * M + i = m * M + j"
  have "(n * M + i) div M = n" "(m * M + j) div M = m" using assms by simp_all
  with eq have "n = m" by simp
  with eq show "n = m \<and> i = j" by simp
qed simp

text \<open>Numbers of the same width compare as their bytes in network order.\<close>

lemma nat_of_be_Cons [byte_simps]: "nat_of_be (b # bs) = unat b * 256 ^ length bs + nat_of_be bs"
proof -
  have "nat_of_le (xs @ [b]) = nat_of_le xs + 256 ^ length xs * unat b" for xs
    by (induction xs) (simp_all add: algebra_simps)
  then show ?thesis by (simp add: nat_of_be_def)
qed

lemma nat_of_be_Nil [simp]: "nat_of_be [] = 0"
  by (simp add: nat_of_be_def)

lemma nat_of_be_less_Cons:
  assumes "length xs = length ys" and "x < y"
  shows "nat_of_be (x # xs) < nat_of_be (y # ys)"
proof -
  have "Suc (unat x) \<le> unat y" using assms(2) by (simp add: word_less_nat_alt)
  then have "Suc (unat x) * 256 ^ length ys \<le> unat y * 256 ^ length ys" by (rule mult_le_mono1)
  then show ?thesis
    using nat_of_be_bound [of xs] unfolding nat_of_be_Cons mult_Suc assms(1) by linarith
qed

lemma iter_cmp_nat_of_be:
  "length xs = length ys \<Longrightarrow> iter_cmp xs ys = prim_cmp (nat_of_be xs) (nat_of_be ys)"
proof (induction xs ys rule: iter_cmp.induct)
  case (4 x xs y ys)
  then have len: "length xs = length ys" by simp
  consider "x < y" | "x = y" | "y < x" by fastforce
  then show ?case
  proof cases
    case 1
    then show ?thesis using nat_of_be_less_Cons [OF len 1] by (simp add: prim_cmp_def)
  next
    case 2
    then show ?thesis using 4 len by (simp add: prim_cmp_def nat_of_be_Cons)
  next
    case 3
    then show ?thesis using nat_of_be_less_Cons [OF len [symmetric] 3] by (auto simp: prim_cmp_def)
  qed
qed simp_all

section \<open>Regions of a byte array\<close>

definition get_region :: "nat \<Rightarrow> nat \<Rightarrow> 'a list \<Rightarrow> 'a list" where
  "get_region off n xs = take n (drop off xs)"

definition put_region :: "nat \<Rightarrow> 'a list \<Rightarrow> 'a list \<Rightarrow> 'a list" where
  "put_region off ys xs = take off xs @ ys @ drop (off + length ys) xs"

lemma length_get_region [simp]:
  "off + n \<le> length xs \<Longrightarrow> length (get_region off n xs) = n"
  by (simp add: get_region_def)

lemma length_put_region [simp]:
  "off + length ys \<le> length xs \<Longrightarrow> length (put_region off ys xs) = length xs"
  by (simp add: put_region_def)

lemma get_put_region [region_simps]:
  assumes "off + length ys \<le> length xs" and "n = length ys"
  shows "get_region off n (put_region off ys xs) = ys"
  using assms by (simp add: get_region_def put_region_def min_def)

lemma get_put_region_before [region_simps]:
  assumes "off + length ys \<le> length xs" and "k + n \<le> off"
  shows "get_region k n (put_region off ys xs) = get_region k n xs"
proof -
  from assms have eq: "drop k (put_region off ys xs)
      = take (off - k) (drop k xs) @ ys @ drop (off + length ys) xs"
    by (simp add: put_region_def drop_take)
  from assms have len: "length (take (off - k) (drop k xs)) = off - k" and n: "n \<le> off - k"
    by simp_all
  from n show ?thesis
    unfolding get_region_def eq take_append len by simp
qed

lemma get_put_region_after [region_simps]:
  assumes "off + length ys \<le> length xs" and "off + length ys \<le> k"
  shows "get_region k n (put_region off ys xs) = get_region k n xs"
  using assms by (simp add: get_region_def put_region_def min_def)

lemma get_region_replicate [region_simps]:
  "off + n \<le> m \<Longrightarrow> get_region off n (replicate m x) = replicate n x"
  by (simp add: get_region_def)

lemma put_region_take_drop:
  "off \<le> length xs \<Longrightarrow> put_region off [] xs = xs"
  by (simp add: put_region_def)

end
