(* ===== verification/Codec.thy ===== *)
theory Codec
  imports Prelude
begin

text \<open>
  The contract that the escaping and encoding modules (\<open>hex.rs\<close>, \<open>str.rs\<close>) share: an
  encoder that maps every element to a code word on its own and a decoder that consumes a whole
  input. The laws say what the decoder does on one code word followed by anything; the round trip,
  its incremental form, injectivity and unique decodability follow once for all of them.
\<close>

locale prefix_codec =
  fixes enc :: "'a \<Rightarrow> 'b list"
    and dec :: "'b list \<Rightarrow> 'a list"
  assumes dec_Nil: "dec [] = []"
    and dec_enc: "dec (enc x @ ys) = x # dec ys"
begin

lemma decode_append: "dec (concat (map enc xs) @ ys) = xs @ dec ys"
  by (induction xs) (simp_all add: dec_enc)

lemma roundtrip: "dec (concat (map enc xs)) = xs"
  using decode_append [of xs "[]"] by (simp add: dec_Nil)

lemma encode_inj: "concat (map enc xs) = concat (map enc ys) \<longleftrightarrow> xs = ys"
  by (metis roundtrip)

lemma enc_nonempty: "enc x \<noteq> []"
  using dec_enc [of x "[]"] by (auto simp: dec_Nil)

lemma prefix_free:
  assumes "enc x @ r = enc y @ r'"
  shows "x = y \<and> r = r'"
proof -
  have "x # dec r = y # dec r'" using assms by (metis dec_enc)
  then have "x = y" by simp
  with assms show ?thesis by simp
qed

lemma encode_prefix_mono:
  "concat (map enc xs) @ r = concat (map enc ys) \<Longrightarrow> dec r = drop (length xs) ys"
  by (metis append_eq_conv_conj decode_append roundtrip)

end

text \<open>A codec whose code words all have the same length, such as two hex digits per byte.\<close>

locale fixed_width_codec = prefix_codec enc dec
  for enc :: "'a \<Rightarrow> 'b list" and dec :: "'b list \<Rightarrow> 'a list" +
  fixes width :: nat
  assumes width: "length (enc x) = width"
begin

lemma width_pos: "0 < width"
  using width enc_nonempty by fastforce

lemma length_encode: "length (concat (map enc xs)) = width * length xs"
  by (induction xs) (simp_all add: width)

lemma take_encode: "take (width * n) (concat (map enc xs)) = concat (map enc (take n xs))"
proof (induction xs arbitrary: n)
  case (Cons x xs)
  then show ?case by (cases n) (simp_all add: width)
qed simp

end

end
