(* ===== verification/Hex.thy ===== *)
theory Hex
  imports Codec
begin

text \<open>
  The hexadecimal module, \<open>src/hex.rs\<close>. A Rust \<open>String\<close> is its list of UTF-8 bytes: every
  character these functions push is ASCII, so it is one byte.
\<close>

section \<open>Definitions\<close>

definition HEX_CHARS :: "u8 list" where
  "HEX_CHARS = [48, 49, 50, 51, 52, 53, 54, 55, 56, 57, 97, 98, 99, 100, 101, 102]"

text \<open>\<open>hex::to_string\<close>: the loop over the bytes, two pushes each.\<close>

definition hex_byte :: "u8 \<Rightarrow> u8 list" where
  "hex_byte c = (let x = unat c in [HEX_CHARS ! drop_bit 4 x, HEX_CHARS ! (x AND 15)])"

fun hex_to_string :: "u8 list \<Rightarrow> u8 list" where
  "hex_to_string [] = []"
| "hex_to_string (c # cs) = hex_byte c @ hex_to_string cs"

text \<open>
  The digit test that \<open>from_string\<close>, \<open>from_string_u64\<close> and \<open>str::unescape\<close> write out: the
  value of a hex digit in either case, and no value for any other byte.
\<close>

definition hex_digit :: "u8 \<Rightarrow> u8 option" where
  "hex_digit c =
     (if 48 \<le> c \<and> c \<le> 57 then Some (c - 48)
      else if 65 \<le> c \<and> c \<le> 70 then Some (c - 55)
      else if 97 \<le> c \<and> c \<le> 102 then Some (c - 87)
      else None)"

text \<open>The loop of \<open>hex::from_string\<close>, with its variables \<open>byte\<close> and \<open>have_8\<close>.\<close>

fun from_string_loop :: "u8 list \<Rightarrow> u8 \<Rightarrow> bool \<Rightarrow> u8 list \<Rightarrow> u8 list" where
  "from_string_loop [] byte have_8 b = b"
| "from_string_loop (c # cs) byte have_8 b =
     (case hex_digit c of
        Some d \<Rightarrow>
          (let byte' = push_bit 4 byte OR d
           in from_string_loop cs byte' (\<not> have_8) (if have_8 then b @ [byte'] else b))
      | None \<Rightarrow> from_string_loop cs byte have_8 b)"

definition hex_from_string :: "u8 list \<Rightarrow> u8 list" where
  "hex_from_string s = from_string_loop s 0 False []"

text \<open>The loop \<open>for _ in 0..16\<close> of \<open>to_string_u64\<close> and of \<open>to_vec_u64\<close>: the top
  four bits of \<open>i\<close>, then \<open>i\<close> shifted left by four.\<close>

fun u64_hex_loop :: "nat \<Rightarrow> u64 \<Rightarrow> bool \<Rightarrow> u8 list \<Rightarrow> u8 list" where
  "u64_hex_loop 0 i skip s = s"
| "u64_hex_loop (Suc n) i skip s =
     (let ii = drop_bit 60 i;
          s' = (if ii \<noteq> 0 \<or> s \<noteq> [] \<or> \<not> skip then s @ [HEX_CHARS ! unat ii] else s)
      in u64_hex_loop n (push_bit 4 i) skip s')"

definition hex_to_string_u64 :: "u64 \<Rightarrow> bool \<Rightarrow> u8 list" where
  "hex_to_string_u64 i skip_leading_zeroes = u64_hex_loop 16 i skip_leading_zeroes []"

definition hex_to_vec_u64 :: "u64 \<Rightarrow> bool \<Rightarrow> u8 list" where
  "hex_to_vec_u64 i skip_leading_zeroes = u64_hex_loop 16 i skip_leading_zeroes []"

fun from_string_u64_loop :: "u8 list \<Rightarrow> u64 \<Rightarrow> u8 \<Rightarrow> bool \<Rightarrow> u64" where
  "from_string_u64_loop [] n byte have_8 = n"
| "from_string_u64_loop (c # cs) n byte have_8 =
     (case hex_digit c of
        Some d \<Rightarrow>
          (let byte' = push_bit 4 byte OR d
           in from_string_u64_loop cs (if have_8 then push_bit 8 n OR ucast byte' else n)
                byte' (\<not> have_8))
      | None \<Rightarrow> from_string_u64_loop cs n byte have_8)"

definition hex_from_string_u64 :: "u8 list \<Rightarrow> u64" where
  "hex_from_string_u64 s = from_string_u64_loop s 0 0 False"

text \<open>\<open>to_hex_bytes\<close> writes into a slice of the caller; an index past its end panics.\<close>

fun to_hex_bytes_loop :: "u8 list \<Rightarrow> u8 list \<Rightarrow> nat \<Rightarrow> (u8 list \<times> nat) outcome" where
  "to_hex_bytes_loop [] dest j = Returns (dest, j)"
| "to_hex_bytes_loop (c # cs) dest j =
     (let x = unat c in
      obind (index_set dest j (HEX_CHARS ! drop_bit 4 x)) (\<lambda>dest1.
      obind (index_set dest1 (j + 1) (HEX_CHARS ! (x AND 15))) (\<lambda>dest2.
      to_hex_bytes_loop cs dest2 (j + 2))))"

definition to_hex_bytes :: "u8 list \<Rightarrow> u8 list \<Rightarrow> (u8 list \<times> nat) outcome" where
  "to_hex_bytes b dest = to_hex_bytes_loop b dest 0"

section \<open>Digits\<close>

lemma length_HEX_CHARS [simp]: "length HEX_CHARS = 16"
  by (simp add: HEX_CHARS_def)

lemma all_less_16: "(\<forall>n<16. P n) \<longleftrightarrow> list_all P [0..<16::nat]"
  by (auto simp: list_all_iff)

lemma hex_digit_HEX_CHARS [simp]:
  assumes "n < 16"
  shows "hex_digit (HEX_CHARS ! n) = Some (of_nat n)"
proof -
  have "\<forall>n<16. hex_digit (HEX_CHARS ! n) = Some (of_nat n)"
    unfolding all_less_16 by (simp add: HEX_CHARS_def hex_digit_def upt_rec)
  with assms show ?thesis by blast
qed

lemma nibble_hi_lo_bounds [simp]:
  "drop_bit 4 (unat (c :: u8)) < 16" "unat (c :: u8) AND 15 < 16"
proof -
  have "unat c div 16 < 16" using unat_u8 [of c] by (simp add: less_mult_imp_div_less)
  then show "drop_bit 4 (unat c) < 16" by (simp add: drop_bit_eq_div)
  have "unat c AND 15 = take_bit 4 (unat c)"
    by (simp add: take_bit_eq_mask mask_eq_exp_minus_1)
  then show "unat c AND 15 < 16" by (simp add: take_bit_eq_mod)
qed

lemma nibbles_join:
  "push_bit 4 (push_bit 4 x OR of_nat (drop_bit 4 (unat c))) OR of_nat (unat c AND 15) = (c :: u8)"
proof (rule bit_word_eqI)
  fix n assume n: "n < LENGTH(8)"
  have m: "(15 :: nat) = mask 4" by (simp add: mask_eq_exp_minus_1)
  show "bit (push_bit 4 (push_bit 4 x OR of_nat (drop_bit 4 (unat c)))
      OR of_nat (unat c AND 15)) n = bit c n"
    using n unfolding m by (auto simp: bit_simps)
qed

section \<open>Byte strings\<close>

lemma from_string_loop_acc:
  "from_string_loop s byte h b = b @ from_string_loop s byte h []"
proof (induction s arbitrary: byte h b)
  case (Cons c cs)
  show ?case
  proof (cases "hex_digit c")
    case None
    then show ?thesis using Cons [of byte h b] by simp
  next
    case (Some d)
    let ?byte = "push_bit 4 byte OR d"
    show ?thesis
      using Some Cons [of ?byte "\<not> h" "b @ [?byte]"] Cons [of ?byte "\<not> h" "[?byte]"]
        Cons [of ?byte "\<not> h" b]
      by (cases h) (simp_all add: Let_def)
  qed
qed simp

text \<open>What the loop computes: pair the digits up, whatever other bytes stand between them.\<close>

fun pair_nibbles :: "u8 list \<Rightarrow> u8 list" where
  "pair_nibbles (h # l # ds) = (push_bit 4 h OR l) # pair_nibbles ds"
| "pair_nibbles ds = []"

definition hex_digits :: "u8 list \<Rightarrow> u8 list" where
  "hex_digits s = List.map_filter hex_digit s"

lemma hex_digits_simps [simp]:
  "hex_digits [] = []"
  "hex_digits (c # cs) = (case hex_digit c of None \<Rightarrow> hex_digits cs | Some d \<Rightarrow> d # hex_digits cs)"
  by (simp_all add: hex_digits_def List.map_filter_simps split: option.split)

lemma shift_out: "push_bit 4 (push_bit 4 byte OR h) OR l = (push_bit 4 h OR l :: u8)"
  by (rule bit_word_eqI) (auto simp: bit_simps)

lemma from_string_loop_spec:
  "from_string_loop s byte False [] = pair_nibbles (hex_digits s)"
  "from_string_loop s (push_bit 4 byte OR h) True [] = pair_nibbles (h # hex_digits s)"
proof (induction s arbitrary: byte h)
  case (Cons c cs)
  {
    case 1
    show ?case
      by (cases "hex_digit c") (simp_all add: Cons Let_def)
  next
    case 2
    show ?case
    proof (cases "hex_digit c")
      case None
      then show ?thesis by (simp add: Cons)
    next
      case (Some d)
      then show ?thesis
        using from_string_loop_acc [of cs "push_bit 4 h OR d" False "[push_bit 4 h OR d]"]
        by (simp add: Cons Let_def shift_out)
    qed
  }
qed simp_all

lemma hex_from_string_digits: "hex_from_string s = pair_nibbles (hex_digits s)"
  by (simp add: hex_from_string_def from_string_loop_spec)

lemma hex_from_string_byte:
  "hex_from_string (hex_byte c @ s) = c # hex_from_string s"
  using nibbles_join [of 0 c] by (simp add: hex_from_string_digits hex_byte_def Let_def)

interpretation hex: fixed_width_codec hex_byte hex_from_string 2
proof unfold_locales
  show "hex_from_string [] = []" by (simp add: hex_from_string_def)
  show "hex_from_string (hex_byte c @ s) = c # hex_from_string s" for c s
    by (rule hex_from_string_byte)
  show "length (hex_byte c) = 2" for c
    by (simp add: hex_byte_def Let_def)
qed

lemma hex_to_string_concat: "hex_to_string b = concat (map hex_byte b)"
  by (induction b) simp_all

lemma length_hex_to_string [simp]: "length (hex_to_string b) = 2 * length b"
  by (simp add: hex_to_string_concat hex.length_encode)

text \<open>Round trip of \<open>to_string\<close> and \<open>from_string\<close>.\<close>

theorem hex_string_roundtrip:
  "hex_from_string (hex_to_string b) = b \<and> length (hex_to_string b) = 2 * length b"
  by (simp add: hex_to_string_concat hex.roundtrip hex.length_encode [symmetric])

text \<open>
  \<open>from_string\<close> ignores every byte that is not a hex digit, accepts both cases, and drops a
  last unpaired digit.
\<close>

theorem hex_from_string_spec:
  "hex_from_string s = pair_nibbles (hex_digits s)
   \<and> length (hex_from_string s) = length (filter (\<lambda>c. hex_digit c \<noteq> None) s) div 2"
proof -
  have "length (pair_nibbles ds) = length ds div 2" for ds
    by (induction ds rule: pair_nibbles.induct) simp_all
  moreover have "length (hex_digits s) = length (filter (\<lambda>c. hex_digit c \<noteq> None) s)"
    by (induction s) (auto split: option.split)
  ultimately show ?thesis by (simp add: hex_from_string_digits)
qed

section \<open>Unsigned 64-bit values\<close>

text \<open>The digits the loop pushes: the nibbles of \<open>i\<close> from the top, \<open>n\<close> of them.\<close>

definition nibble :: "u64 \<Rightarrow> nat \<Rightarrow> nat" where
  "nibble i k = unat i div 16 ^ k mod 16"

lemma unat_top_nibble:
  assumes "n < 16"
  shows "unat (drop_bit 60 (push_bit (4 * (15 - n)) i) :: u64) = nibble i n"
proof -
  have e: "drop_bit 60 (push_bit (4 * (15 - n)) i) = (drop_bit (4 * n) i AND mask 4 :: u64)"
  proof (rule bit_word_eqI)
    fix k assume "k < LENGTH(64)"
    have "60 + k - 4 * (15 - n) = 4 * n + k" "4 * (15 - n) \<le> 60 + k"
      using assms by arith+
    then show "bit (drop_bit 60 (push_bit (4 * (15 - n)) i)) k = bit (drop_bit (4 * n) i AND mask 4) k"
      using assms by (auto simp: bit_simps)
  qed
  have "unat (take_bit 4 (drop_bit (4 * n) i)) = take_bit 4 (drop_bit (4 * n) (unat i))"
  proof -
    have "take_bit 64 (unat i) = unat i"
      using unsigned_less [where ?'a = nat, of i] by (simp add: take_bit_nat_eq_self_iff)
    then show ?thesis by (simp add: unsigned_take_bit_eq unsigned_drop_bit_eq)
  qed
  then show ?thesis
    by (simp add: e nibble_def flip: take_bit_eq_mask) (simp add: take_bit_eq_mod drop_bit_eq_div power_mult)
qed

lemma u64_hex_loop_digits:
  assumes "n \<le> 16" and "s \<noteq> [] \<or> \<not> skip"
  shows "u64_hex_loop n (push_bit (4 * (16 - n)) i) skip s
    = s @ map (\<lambda>k. HEX_CHARS ! nibble i k) (rev [0..<n])"
  using assms
proof (induction n arbitrary: s)
  case (Suc n)
  have sh: "push_bit 4 (push_bit (4 * (16 - Suc n)) i) = push_bit (4 * (16 - n)) i"
  proof -
    have "4 + 4 * (16 - Suc n) = 4 * (16 - n)" using Suc.prems(1) by arith
    then show ?thesis by (simp only: push_bit_push_bit)
  qed
  have top: "unat (drop_bit 60 (push_bit (4 * (16 - Suc n)) i)) = nibble i n"
    using unat_top_nibble [of n i] Suc.prems(1) by simp
  show ?case
    using Suc.IH [of "s @ [HEX_CHARS ! nibble i n]"] Suc.prems
    by (auto simp only: u64_hex_loop.simps Let_def sh top) simp_all
qed simp

lemma nibble_less [simp]: "nibble i k < 16"
  by (simp add: nibble_def)

lemma to_string_u64_full:
  "hex_to_string_u64 i False = map (\<lambda>k. HEX_CHARS ! nibble i k) (rev [0..<16])"
  using u64_hex_loop_digits [of 16 "[]" False i]
  by (simp only: hex_to_string_u64_def) simp

text \<open>With \<open>skip_leading_zeroes\<close> the same digits are produced without the leading zeroes.\<close>

lemma HEX_CHARS_zero_iff: "n < 16 \<Longrightarrow> HEX_CHARS ! n = 48 \<longleftrightarrow> n = 0"
proof -
  have "\<forall>n<16. HEX_CHARS ! n = 48 \<longleftrightarrow> n = 0"
    unfolding all_less_16 by (simp add: HEX_CHARS_def upt_rec)
  then show "n < 16 \<Longrightarrow> HEX_CHARS ! n = 48 \<longleftrightarrow> n = 0" by blast
qed

lemma top_nibble_less: "unat (drop_bit 60 (i :: u64)) < 16"
  using unat_top_nibble [of 15 i] by simp

lemma u64_hex_loop_acc:
  "s \<noteq> [] \<or> \<not> skip \<Longrightarrow> u64_hex_loop n i skip s = s @ u64_hex_loop n i False []"
proof (induction n arbitrary: i s skip)
  case (Suc n)
  let ?d = "HEX_CHARS ! unat (drop_bit 60 i)"
  show ?case
    using Suc.IH [of "s @ [?d]" skip "push_bit 4 i"] Suc.IH [of "[?d]" False "push_bit 4 i"] Suc.prems
    by (simp add: Let_def)
qed simp

lemma u64_hex_loop_skip:
  "u64_hex_loop n i True [] = dropWhile (\<lambda>c. c = 48) (u64_hex_loop n i False [])"
proof (induction n arbitrary: i)
  case (Suc n)
  let ?ii = "drop_bit 60 i"
  have z: "HEX_CHARS ! unat ?ii = 48 \<longleftrightarrow> ?ii = 0"
    using HEX_CHARS_zero_iff [OF top_nibble_less [of i]] by (simp add: unat_eq_zero)
  show ?case
    using Suc [of "push_bit 4 i"] z
      u64_hex_loop_acc [of "[HEX_CHARS ! unat ?ii]" True n "push_bit 4 i"]
      u64_hex_loop_acc [of "[HEX_CHARS ! unat ?ii]" False n "push_bit 4 i"]
    by (simp add: Let_def)
qed simp

lemma to_string_u64_skip:
  "hex_to_string_u64 i True = dropWhile (\<lambda>c. c = 48) (hex_to_string_u64 i False)"
  by (simp add: hex_to_string_u64_def u64_hex_loop_skip)

lemma to_vec_u64_eq: "hex_to_vec_u64 = hex_to_string_u64"
  by (intro ext) (simp add: hex_to_vec_u64_def hex_to_string_u64_def)

text \<open>The number a list of digit values stands for.\<close>

fun digits_value :: "u8 list \<Rightarrow> nat" where
  "digits_value [] = 0"
| "digits_value (d # ds) = unat d * 16 ^ length ds + digits_value ds"

lemma unat_pair:
  assumes "unat h < 16" and "unat l < 16"
  shows "unat (push_bit 4 h OR l :: u8) = 16 * unat h + unat l"
proof -
  have l: "l = take_bit 4 l"
  proof -
    have "unat (take_bit 4 l) = unat l" using assms by (simp add: unsigned_take_bit_eq take_bit_nat_eq_self_iff)
    then show ?thesis by (metis word_unat_eq_iff)
  qed
  have "push_bit 4 h OR l = push_bit 4 h + l"
    by (subst l, subst (2) l, rule disjunctive_add [symmetric]) (auto simp: bit_simps)
  also have "\<dots> = of_nat (16 * unat h + unat l)"
    by (simp add: push_bit_eq_mult mult.commute)
  finally show ?thesis
    using assms by (simp only: unat_of_nat) simp
qed

lemma nat_of_be_pair_nibbles:
  assumes "\<forall>d \<in> set ds. unat d < 16"
  shows "nat_of_be (pair_nibbles ds)
    = (if even (length ds) then digits_value ds else digits_value ds div 16)"
  using assms
proof (induction ds rule: pair_nibbles.induct)
  case (1 h l ds)
  have len: "length (pair_nibbles ds) = length ds div 2"
    by (induction ds rule: pair_nibbles.induct) simp_all
  have hl: "unat (push_bit 4 h OR l) = 16 * unat h + unat l"
    using 1 by (intro unat_pair) simp_all
  show ?case
  proof (cases "even (length ds)")
    case True
    then obtain k where k: "length ds = 2 * k" by (auto elim: evenE)
    have "(16 :: nat) ^ (2 * k) = 256 ^ k" by (simp add: power_mult)
    with True 1 k show ?thesis
      by (simp add: nat_of_be_Cons len hl algebra_simps)
  next
    case False
    then obtain k where k: "length ds = 2 * k + 1" by (auto elim: oddE)
    have p: "(16 :: nat) ^ (k * 2) = 256 ^ k"
    proof -
      have "(16 :: nat) ^ (k * 2) = (16 ^ 2) ^ k" by (metis mult.commute power_mult)
      then show ?thesis by simp
    qed
    have "unat h * 16 ^ Suc (length ds) + (unat l * 16 ^ length ds + digits_value ds)
       = digits_value ds + 16 * ((16 * unat h + unat l) * 256 ^ k)"
      by (simp add: k p algebra_simps)
    then have "(unat h * 16 ^ Suc (length ds) + (unat l * 16 ^ length ds + digits_value ds)) div 16
       = (16 * unat h + unat l) * 256 ^ k + digits_value ds div 16"
      by (simp only: div_mult_self2)
    with False 1 k show ?thesis
      by (simp add: nat_of_be_Cons len hl)
  qed
qed (simp_all add: nat_of_be_def)

text \<open>
  \<open>from_string_u64\<close> reads the same bytes as \<open>from_string\<close> and takes them as a big-endian
  number, keeping the last eight.
\<close>

lemma push_byte: "push_bit 8 n OR ucast (b :: u8) = (n * 256 + of_nat (unat b) :: u64)"
proof -
  have "push_bit 8 n OR ucast b = push_bit 8 n + (ucast b :: u64)"
    by (rule disjunctive_add [symmetric]) (auto simp: bit_simps dest: bit_imp_le_length)
  then show ?thesis by (simp add: push_bit_eq_mult)
qed

lemma from_string_u64_loop_spec:
  "from_string_u64_loop s n byte False
     = of_nat (unat n * 256 ^ length (pair_nibbles (hex_digits s)) + nat_of_be (pair_nibbles (hex_digits s)))"
  "from_string_u64_loop s n (push_bit 4 byte OR h) True
     = of_nat (unat n * 256 ^ length (pair_nibbles (h # hex_digits s)) + nat_of_be (pair_nibbles (h # hex_digits s)))"
proof (induction s arbitrary: n byte h)
  case Nil
  { case 1 show ?case by (simp add: nat_of_be_def) }
  { case 2 show ?case by (simp add: nat_of_be_def) }
next
  case (Cons c cs)
  {
    case 1
    show ?case
    proof (cases "hex_digit c")
      case None
      then show ?thesis by (simp only: from_string_u64_loop.simps hex_digits_simps option.case Cons(1))
    next
      case (Some d)
      then show ?thesis
        by (simp only: from_string_u64_loop.simps hex_digits_simps option.case Let_def if_False
            not_False_eq_True Cons(2))
    qed
  next
    case 2
    show ?case
    proof (cases "hex_digit c")
      case None
      then show ?thesis by (simp only: from_string_u64_loop.simps hex_digits_simps option.case Cons(2))
    next
      case (Some d)
      then show ?thesis
        by (simp add: Cons(1) Let_def shift_out push_byte nat_of_be_Cons algebra_simps)
    qed
  }
qed

lemma hex_from_string_u64_bytes:
  "hex_from_string_u64 s = of_nat (nat_of_be (hex_from_string s))"
  by (simp add: hex_from_string_u64_def from_string_u64_loop_spec hex_from_string_digits)

text \<open>The value of the digits of \<open>i\<close>, with or without the leading zeroes.\<close>

lemma hex_digits_HEX_CHARS:
  "\<forall>n \<in> set ns. n < 16 \<Longrightarrow> hex_digits (map (\<lambda>n. HEX_CHARS ! n) ns) = map of_nat ns"
  by (induction ns) simp_all

lemma hex_digits_nibbles:
  "hex_digits (map (\<lambda>k. HEX_CHARS ! nibble i k) ks) = map (\<lambda>k. of_nat (nibble i k)) ks"
  by (induction ks) simp_all

lemma digits_value_nibbles:
  "digits_value (map (\<lambda>k. of_nat (nibble i k)) (rev [0..<n])) = unat i mod 16 ^ n"
proof (induction n)
  case (Suc n)
  have "nibble i n < 256" using nibble_less [of i n] by (rule less_trans) simp
  then have "unat (of_nat (nibble i n) :: u8) = nibble i n" by (simp add: unat_of_nat)
  then have "digits_value (map (\<lambda>k. of_nat (nibble i k)) (rev [0..<Suc n]))
    = nibble i n * 16 ^ n + unat i mod 16 ^ n"
    using Suc by simp
  also have "\<dots> = unat i mod (16 ^ n * 16)"
    by (simp add: nibble_def mod_mult2_eq)
  finally show ?case by (simp add: mult.commute)
qed simp

lemma digits_value_dropWhile_zero: "digits_value (dropWhile (\<lambda>d. d = 0) ds) = digits_value ds"
  by (induction ds) simp_all

lemma of_nat_u8_zero_iff: "n < 16 \<Longrightarrow> (of_nat n :: u8) = 0 \<longleftrightarrow> n = 0"
proof -
  assume "n < 16"
  then have "unat (of_nat n :: u8) = n" by (simp add: unat_of_nat)
  then show ?thesis by (simp flip: unat_eq_zero)
qed

lemma hex_digits_dropWhile:
  "\<forall>n \<in> set ns. n < 16 \<Longrightarrow>
   hex_digits (dropWhile (\<lambda>c. c = 48) (map (\<lambda>n. HEX_CHARS ! n) ns))
     = dropWhile (\<lambda>d. d = 0) (map of_nat ns)"
  by (induction ns) (simp_all add: HEX_CHARS_zero_iff of_nat_u8_zero_iff hex_digits_HEX_CHARS)

lemma length_dropWhile_digits:
  "\<forall>n \<in> set ns. n < 16 \<Longrightarrow>
   length (dropWhile (\<lambda>c. c = 48) (map (\<lambda>n. HEX_CHARS ! n) ns))
     = length (dropWhile (\<lambda>d. d = 0) (map of_nat ns :: u8 list))"
  by (induction ns) (simp_all add: HEX_CHARS_zero_iff of_nat_u8_zero_iff)

lemma to_string_u64_digits:
  "digits_value (hex_digits (hex_to_string_u64 i skip)) = unat i
   \<and> length (hex_digits (hex_to_string_u64 i skip)) = length (hex_to_string_u64 i skip)
   \<and> (\<forall>d \<in> set (hex_digits (hex_to_string_u64 i skip)). unat d < 16)"
proof -
  let ?ns = "map (nibble i) (rev [0..<16])"
  have full: "hex_to_string_u64 i False = map (\<lambda>n. HEX_CHARS ! n) ?ns"
    by (simp only: to_string_u64_full map_map comp_def)
  have ns: "\<forall>n \<in> set ?ns. n < 16" by auto
  have val: "digits_value (map of_nat ?ns) = unat i"
    using digits_value_nibbles [of i 16] unsigned_less [where ?'a = nat, of i]
    by (simp only: map_map comp_def) simp
  have small: "unat (of_nat n :: u8) < 16" if "n < 16" for n
    using that by (simp add: unat_of_nat)
  show ?thesis
  proof (cases skip)
    case True
    then show ?thesis
      using val small ns
      by (auto simp only: to_string_u64_skip full hex_digits_dropWhile [OF ns]
          length_dropWhile_digits [OF ns] digits_value_dropWhile_zero
          dest!: set_dropWhileD) auto
  next
    case False
    then show ?thesis
      using val small ns by (simp only: full hex_digits_HEX_CHARS [OF ns]) auto
  qed
qed

text \<open>
  C38: The round trip of \<open>to_string_u64\<close> and \<open>from_string_u64\<close>: exact when the string has an even
  number of digits, as it has without \<open>skip_leading_zeroes\<close>; with an odd number of digits the
  reader, which consumes digits in pairs, loses the last digit.
\<close>

theorem hex_u64_roundtrip:
  "hex_from_string_u64 (hex_to_string_u64 i skip)
   = (if even (length (hex_to_string_u64 i skip)) then i else drop_bit 4 i)"
proof -
  let ?s = "hex_to_string_u64 i skip"
  have "nat_of_be (pair_nibbles (hex_digits ?s))
    = (if even (length ?s) then unat i else unat i div 16)"
    using to_string_u64_digits [of i skip] nat_of_be_pair_nibbles [of "hex_digits ?s"] by simp
  moreover have "of_nat (unat i div 16) = drop_bit 4 i"
  proof -
    have "unat (drop_bit 4 i) = unat i div 16" by (simp add: drop_bit_eq_div unat_div_distrib)
    then show ?thesis by (metis of_nat_unat ucast_id)
  qed
  ultimately show ?thesis
    by (simp add: hex_from_string_u64_bytes hex_from_string_digits)
qed

text \<open>\<open>skip_leading_zeroes\<close> makes \<open>0x400\<close> print as \<open>400\<close>, which reads back as \<open>0x40\<close>.\<close>

lemma hex_u64_odd_digits_lost:
  "hex_to_string_u64 0x400 True = [52, 48, 48]
   \<and> hex_from_string_u64 (hex_to_string_u64 0x400 True) = 0x40"
  by code_simp

section \<open>Writing into a slice\<close>

lemma put_pair:
  "Suc j < length dest \<Longrightarrow> dest[j := x, Suc j := y] = take j dest @ [x, y] @ drop (j + 2) dest"
proof -
  assume j: "Suc j < length dest"
  then have "dest[j := x] = take j dest @ x # drop (Suc j) dest"
    by (simp add: upd_conv_take_nth_drop)
  moreover have "drop (Suc j) dest = dest ! Suc j # drop (Suc (Suc j)) dest"
    using j by (simp add: Cons_nth_drop_Suc)
  ultimately show ?thesis using j by (simp add: list_update_append)
qed

lemma to_hex_bytes_loop_spec:
  "j \<le> length dest \<Longrightarrow> to_hex_bytes_loop cs dest j
     = (if j + 2 * length cs \<le> length dest
        then Returns (put_region j (hex_to_string cs) dest, j + 2 * length cs) else Panics)"
proof (induction cs arbitrary: dest j)
  case Nil
  then show ?case by (simp add: put_region_take_drop)
next
  case (Cons c cs)
  consider (none) "j = length dest" | (one) "Suc j = length dest" | (two) "Suc j < length dest"
    using Cons.prems by linarith
  then show ?case
  proof cases
    case two
    let ?d = "take j dest @ hex_byte c @ drop (j + 2) dest"
    have "to_hex_bytes_loop (c # cs) dest j = to_hex_bytes_loop cs ?d (j + 2)"
      using two put_pair [OF two] by (simp add: Let_def hex_byte_def)
    moreover have "length ?d = length dest" using two by (simp add: hex_byte_def Let_def)
    moreover have "put_region (j + 2) (hex_to_string cs) ?d = put_region j (hex_to_string (c # cs)) dest"
      using two by (simp add: put_region_def hex_byte_def Let_def ac_simps)
    ultimately show ?thesis using Cons.IH [of "j + 2" ?d] two by simp
  qed (simp_all add: Let_def)
qed

text \<open>
  \<open>to_hex_bytes\<close> fills the front of the destination with what \<open>to_string\<close> returns, keeps the
  rest, returns the number of digits, and panics exactly when the destination is too short.
\<close>

theorem to_hex_bytes_spec:
  "to_hex_bytes b dest
   = (if 2 * length b \<le> length dest
      then Returns (hex_to_string b @ drop (2 * length b) dest, 2 * length b) else Panics)"
  using to_hex_bytes_loop_spec [of 0 dest b]
  by (simp add: to_hex_bytes_def put_region_def)

end
