(* ===== verification/Escape.thy ===== *)
theory Escape
  imports Hex
begin

text \<open>The string escaping module, \<open>src/str.rs\<close>; strings are lists of UTF-8 bytes.\<close>

section \<open>Definitions\<close>

text \<open>One turn of the loop of \<open>escape\<close>. Pushing a byte below 128 as a \<open>char\<close> adds that byte.\<close>

definition escape_byte :: "u8 \<Rightarrow> u8 list" where
  "escape_byte b =
     (if 43 \<le> b \<and> b \<le> 126 \<and> b \<noteq> 92 \<and> b \<noteq> 96 then [b]
      else [92, HEX_CHARS ! unat (drop_bit 4 b AND 15), HEX_CHARS ! unat (b AND 15)])"

fun str_escape :: "u8 list \<Rightarrow> u8 list" where
  "str_escape [] = []"
| "str_escape (b # bs) = escape_byte b @ str_escape bs"

text \<open>The inner loop \<open>for c in [s[1], s[2]]\<close>: a byte that is not a hex digit leaves \<open>cc\<close>
  as it is.\<close>

definition unescape_digit :: "u8 \<Rightarrow> u8 \<Rightarrow> u8" where
  "unescape_digit cc c = (case hex_digit c of Some d \<Rightarrow> push_bit 4 cc OR d | None \<Rightarrow> cc)"

fun str_unescape :: "u8 list \<Rightarrow> u8 list" where
  "str_unescape [] = []"
| "str_unescape (c # s) =
     (if c = 92
      then (case s of
              s1 # s2 # s3 \<Rightarrow> unescape_digit (unescape_digit 0 s1) s2 # str_unescape s3
            | _ \<Rightarrow> [])
      else c # str_unescape s)"

section \<open>Properties\<close>

lemma nibble_words:
  "unat (drop_bit 4 b AND 15) < 16" "unat (b AND 15) < 16" for b :: u8
proof -
  have "(15 :: u8) = mask 4" by (simp add: mask_eq_exp_minus_1)
  then have "x AND 15 = take_bit 4 x" for x :: u8 by (simp add: take_bit_eq_mask)
  moreover have "unat (take_bit 4 x) < 16" for x :: u8
  proof -
    have "unat (take_bit 4 x) = take_bit 4 (unat x)" by (simp add: unsigned_take_bit_eq)
    then show ?thesis using take_bit_nat_less_exp [of 4 "unat x"] by simp
  qed
  ultimately show "unat (drop_bit 4 b AND 15) < 16" "unat (b AND 15) < 16" by simp_all
qed

lemma nibble_words_join: "push_bit 4 (drop_bit 4 b AND 15) OR (b AND 15) = (b :: u8)"
proof -
  have m: "(15 :: u8) = mask 4" by (simp add: mask_eq_exp_minus_1)
  show ?thesis unfolding m by (rule bit_word_eqI) (auto simp: bit_simps)
qed

lemma str_unescape_escape_byte: "str_unescape (escape_byte b @ s) = b # str_unescape s"
  using nibble_words [of b] nibble_words_join [of b]
  by (simp add: escape_byte_def unescape_digit_def)

interpretation esc: prefix_codec escape_byte str_unescape
  by unfold_locales (simp_all add: str_unescape_escape_byte)

lemma str_escape_concat: "str_escape b = concat (map escape_byte b)"
  by (induction b) simp_all

text \<open>C39: Every byte string survives \<open>escape\<close> and \<open>unescape\<close>, whatever text follows the escaped part.\<close>

theorem escape_roundtrip: "str_unescape (str_escape b @ s) = b @ str_unescape s"
  by (simp add: str_escape_concat esc.decode_append)

theorem escape_injective: "str_escape a = str_escape b \<longleftrightarrow> a = b"
  by (simp add: str_escape_concat esc.encode_inj)

text \<open>Bytes that are safe on a terminal.\<close>

lemma HEX_CHARS_ranges: "n < 16 \<Longrightarrow> 48 \<le> HEX_CHARS ! n \<and> HEX_CHARS ! n \<le> 102 \<and> HEX_CHARS ! n \<noteq> 92 \<and> HEX_CHARS ! n \<noteq> 96"
proof -
  have "\<forall>n<16. 48 \<le> HEX_CHARS ! n \<and> HEX_CHARS ! n \<le> 102 \<and> HEX_CHARS ! n \<noteq> 92 \<and> HEX_CHARS ! n \<noteq> 96"
    unfolding all_less_16 by (simp add: HEX_CHARS_def upt_rec)
  then show "n < 16 \<Longrightarrow> 48 \<le> HEX_CHARS ! n \<and> HEX_CHARS ! n \<le> 102 \<and> HEX_CHARS ! n \<noteq> 92 \<and> HEX_CHARS ! n \<noteq> 96"
    by blast
qed

definition terminal_safe :: "u8 \<Rightarrow> bool" where
  "terminal_safe c \<longleftrightarrow> 43 \<le> c \<and> c \<le> 126 \<and> c \<noteq> 96"

lemma escape_byte_safe: "list_all terminal_safe (escape_byte b)"
proof -
  have "terminal_safe (HEX_CHARS ! n)" if "n < 16" for n
    using HEX_CHARS_ranges [OF that] order_trans [of 43 48 "HEX_CHARS ! n"]
      order_trans [of "HEX_CHARS ! n" 102 126]
    by (simp add: terminal_safe_def)
  then show ?thesis
    using nibble_words [of b] by (simp add: escape_byte_def) (simp add: terminal_safe_def)
qed

text \<open>The output holds printable ASCII only: no control byte, space, quote, back quote or byte above
  126, and it is at most three times as long.\<close>

theorem escape_output_safe:
  "list_all terminal_safe (str_escape b)
   \<and> length b \<le> length (str_escape b) \<and> length (str_escape b) \<le> 3 * length b"
proof (induction b)
  case (Cons b bs)
  then show ?case
    using escape_byte_safe [of b] by (auto simp: escape_byte_def)
qed simp

text \<open>On text without a backslash \<open>unescape\<close> is the identity.\<close>

lemma unescape_plain: "92 \<notin> set s \<Longrightarrow> str_unescape s = s"
  by (induction s) auto

end
