(* ===== verification/Stream.thy ===== *)
theory Stream
  imports Prelude
begin

text \<open>
  The byte stream interfaces the code is generic over, \<open>std::io::Write\<close> and \<open>std::io::Read\<close>,
  and the helpers of \<open>src/io.rs\<close>. A client of a writer is a function of the writer's
  \<open>write_all\<close>; a client of a reader is a function of its \<open>read_exact\<close>. The locales state what
  the clients rely on, and their lemmas are proved once for every writer and reader; the
  components that implement \<open>Write\<close> (\<open>ArrayVec\<close>, \<open>Buf\<close>, and \<open>Vec<u8>\<close> here) interpret them.
\<close>

section \<open>Definitions\<close>

text \<open>The kinds of \<open>std::io::Error\<close> that arise, with the messages the code gives them.\<close>

datatype io_error =
    UnexpectedEof
  | WriteZero
  | OutOfMemory string
  | OtherError string

type_synonym 'w write_fn = "'w \<Rightarrow> u8 list \<Rightarrow> ((io_error + nat) \<times> 'w) outcome"
type_synonym 'w write_result = "((io_error + unit) \<times> 'w) outcome"
type_synonym 'w write_all_fn = "'w \<Rightarrow> u8 list \<Rightarrow> 'w write_result"
type_synonym 'r read_exact_fn = "'r \<Rightarrow> nat \<Rightarrow> (io_error + u8 list) \<times> 'r"

text \<open>
  The provided method \<open>Write::write_all\<close> of the standard library: write until nothing is left;
  a write of zero bytes is an error. (No writer of this crate reports \<open>Interrupted\<close>, the one
  error the method retries.)
\<close>

function write_all_of :: "'w write_fn \<Rightarrow> 'w write_all_fn" where
  "write_all_of wr w bs =
     (if bs = [] then Returns (Inr (), w)
      else obind (wr w bs) (\<lambda>(r, w').
             case r of
               Inl e \<Rightarrow> Returns (Inl e, w')
             | Inr n \<Rightarrow>
                 if n = 0 then Returns (Inl WriteZero, w') else write_all_of wr w' (drop n bs)))"
  by pat_completeness auto
termination
  by (relation "measure (\<lambda>(wr, w, bs). length bs)") auto

declare write_all_of.simps [simp del]

text \<open>\<open>io::write_all_multi\<close>: the slices in order, stopping at the first error (the \<open>?\<close> operator,
  which \<open>and_then\<close> models).\<close>

definition and_then :: "'w write_result \<Rightarrow> ('w \<Rightarrow> 'w write_result) \<Rightarrow> 'w write_result" where
  "and_then m k =
     obind m (\<lambda>(r, w). case r of Inl e \<Rightarrow> Returns (Inl e, w) | Inr _ \<Rightarrow> k w)"

fun write_all_multi :: "'w write_all_fn \<Rightarrow> 'w \<Rightarrow> u8 list list \<Rightarrow> 'w write_result" where
  "write_all_multi wa w [] = Returns (Inr (), w)"
| "write_all_multi wa w (ss # s) = and_then (wa w ss) (\<lambda>w'. write_all_multi wa w' s)"

text \<open>\<open>Vec<u8>\<close> as a writer appends and never fails.\<close>

definition vec_write_all :: "u8 list write_all_fn" where
  "vec_write_all v bs = Returns (Inr (), v @ bs)"

text \<open>\<open>&[u8]\<close> as a reader takes bytes off its front; short of bytes it fails and is left empty.\<close>

definition slice_read_exact :: "u8 list read_exact_fn" where
  "slice_read_exact r n =
     (if n \<le> length r then (Inr (take n r), drop n r) else (Inl UnexpectedEof, []))"

text \<open>\<open>io::read_limit\<close> on a file with the given contents whose size was \<open>len\<close> bytes when its
  metadata was read: \<open>min\<close> of that and the limit, then \<open>read_exact\<close> from the start.\<close>

definition DEFAULT_FILE_IO_READ_LIMIT :: nat where
  "DEFAULT_FILE_IO_READ_LIMIT = 262144"

definition read_limit :: "u8 list \<Rightarrow> nat \<Rightarrow> nat \<Rightarrow> io_error + u8 list" where
  "read_limit contents len limit = fst (slice_read_exact contents (min len limit))"

section \<open>Writers\<close>

lemma and_then_simps [simp]:
  "and_then (Returns (Inl e, w)) k = Returns (Inl e, w)"
  "and_then (Returns (Inr u, w)) k = k w"
  "and_then Panics k = Panics" "and_then Undefined k = Undefined"
  by (simp_all add: and_then_def)

lemma and_then_assoc: "and_then (and_then m f) g = and_then m (\<lambda>w. and_then (f w) g)"
  by (cases m) (auto simp: and_then_def split: sum.split)

lemma and_then_multi:
  "and_then (write_all_multi wa w cs) (\<lambda>w'. write_all_multi wa w' ds) = write_all_multi wa w (cs @ ds)"
  by (induction cs arbitrary: w) (simp_all add: and_then_assoc)

text \<open>
  \<open>written w\<close> is what the writer holds, \<open>fits w n\<close> whether it accepts \<open>n\<close> more bytes.
  A write that fits appends; one that does not fit fails and may have stored a prefix of its input.
\<close>

locale writer =
  fixes wa :: "'w write_all_fn"
    and ok :: "'w \<Rightarrow> bool"
    and written :: "'w \<Rightarrow> u8 list"
    and fits :: "'w \<Rightarrow> nat \<Rightarrow> bool"
  assumes wa_fits: "ok w \<Longrightarrow> fits w (length bs) \<Longrightarrow>
      \<exists>w'. wa w bs = Returns (Inr (), w') \<and> ok w' \<and> written w' = written w @ bs
        \<and> (\<forall>n. fits w' n \<longleftrightarrow> fits w (length bs + n))"
    and wa_short: "ok w \<Longrightarrow> \<not> fits w (length bs) \<Longrightarrow>
      \<exists>e w' k. wa w bs = Returns (Inl e, w') \<and> ok w' \<and> k \<le> length bs \<and> written w' = written w @ take k bs"
    and fits_zero: "ok w \<Longrightarrow> fits w 0"
    and fits_mono: "ok w \<Longrightarrow> fits w (m + n) \<Longrightarrow> fits w m"
begin

text \<open>Writing slices one by one succeeds exactly if their concatenation fits, and appends it.\<close>

lemma multi_fits:
  "ok w \<Longrightarrow> fits w (length (concat cs)) \<Longrightarrow>
   \<exists>w'. write_all_multi wa w cs = Returns (Inr (), w') \<and> ok w' \<and> written w' = written w @ concat cs
     \<and> (\<forall>n. fits w' n \<longleftrightarrow> fits w (length (concat cs) + n))"
proof (induction cs arbitrary: w)
  case (Cons c cs)
  have c: "fits w (length c)"
    using Cons.prems fits_mono [of w "length c" "length (concat cs)"] by simp
  then obtain w1 where w1: "wa w c = Returns (Inr (), w1)" "ok w1" "written w1 = written w @ c"
    "\<And>n. fits w1 n \<longleftrightarrow> fits w (length c + n)"
    using wa_fits [OF Cons.prems(1) c] by blast
  then have "fits w1 (length (concat cs))" using Cons.prems(2) by simp
  from Cons.IH [OF w1(2) this] w1 show ?case by (auto simp: add.assoc)
qed simp

lemma multi_short:
  "ok w \<Longrightarrow> \<not> fits w (length (concat cs)) \<Longrightarrow>
   \<exists>e w' k. write_all_multi wa w cs = Returns (Inl e, w') \<and> ok w' \<and> k \<le> length (concat cs)
     \<and> written w' = written w @ take k (concat cs)"
proof (induction cs arbitrary: w)
  case Nil
  then show ?case by (simp add: fits_zero)
next
  case (Cons c cs)
  show ?case
  proof (cases "fits w (length c)")
    case False
    obtain e w' k where "wa w c = Returns (Inl e, w')" "ok w'" "k \<le> length c"
      "written w' = written w @ take k c"
      using wa_short [OF Cons.prems(1) False] by blast
    then show ?thesis by (intro exI [of _ e] exI [of _ w'] exI [of _ k]) simp
  next
    case True
    obtain w1 where w1: "wa w c = Returns (Inr (), w1)" "ok w1" "written w1 = written w @ c"
      "\<And>n. fits w1 n \<longleftrightarrow> fits w (length c + n)"
      using wa_fits [OF Cons.prems(1) True] by blast
    then have "\<not> fits w1 (length (concat cs))" using Cons.prems(2) by simp
    then obtain e w' k where "write_all_multi wa w1 cs = Returns (Inl e, w')" "ok w'"
      "k \<le> length (concat cs)" "written w' = written w1 @ take k (concat cs)"
      using Cons.IH [OF w1(2)] by blast
    then show ?thesis using w1 by (intro exI [of _ e] exI [of _ w'] exI [of _ "length c + k"]) simp
  qed
qed

lemma multi_safe:
  assumes "ok w"
  shows "\<exists>r w'. write_all_multi wa w cs = Returns (r, w') \<and> ok w'
    \<and> (r = Inr () \<longleftrightarrow> fits w (length (concat cs)))"
  using multi_fits [OF assms, of cs] multi_short [OF assms, of cs]
  by (cases "fits w (length (concat cs))") auto

end

interpretation vec: writer vec_write_all "\<lambda>_. True" "\<lambda>v. v" "\<lambda>_ _. True"
  by unfold_locales (simp_all add: vec_write_all_def)

lemma vec_multi: "write_all_multi vec_write_all v cs = Returns (Inr (), v @ concat cs)"
  using vec.multi_fits [of v cs] by auto

section \<open>Readers\<close>

locale reader =
  fixes rx :: "'r read_exact_fn"
    and pending :: "'r \<Rightarrow> u8 list"
  assumes rx_enough: "n \<le> length (pending r) \<Longrightarrow>
      fst (rx r n) = Inr (take n (pending r)) \<and> pending (snd (rx r n)) = drop n (pending r)"
    and rx_short: "length (pending r) < n \<Longrightarrow> fst (rx r n) = Inl UnexpectedEof"
begin

lemma rx_cases:
  obtains (enough) r' where "n \<le> length (pending r)" "rx r n = (Inr (take n (pending r)), r')"
      "pending r' = drop n (pending r)"
  | (short) r' where "length (pending r) < n" "rx r n = (Inl UnexpectedEof, r')"
proof (cases "n \<le> length (pending r)")
  case True
  then show thesis using rx_enough [of n r] enough by (metis prod.collapse)
next
  case False
  then show thesis using rx_short [of r n] short by (metis not_le prod.collapse)
qed

end

interpretation slice: reader slice_read_exact "\<lambda>r. r"
  by unfold_locales (simp_all add: slice_read_exact_def)

text \<open>\<open>read_limit\<close> returns the first \<open>limit\<close> bytes of a file, and fails if the file lost bytes it needs after
  its size was read.\<close>

theorem read_limit_spec:
  "read_limit contents (length contents + truncated) limit
   = (if truncated = 0 \<or> limit \<le> length contents then Inr (take limit contents) else Inl UnexpectedEof)"
  by (auto simp: read_limit_def slice_read_exact_def min_def)

end
