(* ===== verification/Varint.thy ===== *)
theory Varint
  imports Stream
begin

text \<open>
  Variable length integers, \<open>src/varint.rs\<close>: seven bits per byte from the least significant
  group on, the high bit set on the last byte only.
\<close>

section \<open>Definitions\<close>

definition VARINT_MAX_SIZE_BYTES :: nat where
  "VARINT_MAX_SIZE_BYTES = 10"

text \<open>\<open>wrapping_shl\<close> on \<open>u64\<close> takes the distance modulo 64.\<close>

definition wrapping_shl_u64 :: "u64 \<Rightarrow> u32 \<Rightarrow> u64" where
  "wrapping_shl_u64 v n = push_bit (unat (n AND 63)) v"

text \<open>The loop of \<open>encode\<close> writes into the caller's slice; an index past its end panics.\<close>

function encode_loop :: "u8 list \<Rightarrow> u64 \<Rightarrow> nat \<Rightarrow> (u8 list \<times> nat) outcome" where
  "encode_loop b v i =
     (if v > 0x7f
      then obind (index_set b i (ucast v AND 0x7f)) (\<lambda>b'. encode_loop b' (drop_bit 7 v) (i + 1))
      else obind (index_set b i (ucast v OR 0x80)) (\<lambda>b'. Returns (b', i + 1)))"
  by pat_completeness auto
termination
proof (relation "measure (\<lambda>(b, v, i). unat v)")
  fix b and v :: u64 and i :: nat and b'
  assume "v > 0x7f"
  then have "127 < unat v" by (simp add: word_less_nat_alt)
  then have "unat v div 128 < unat v" by simp
  moreover have "unat (drop_bit 7 v) = unat v div 128"
    by (simp add: drop_bit_eq_div unat_div_distrib)
  ultimately show "((b', drop_bit 7 v, i + 1), (b, v, i)) \<in> measure (\<lambda>(b, v, i). unat v)"
    by simp
qed simp

declare encode_loop.simps [simp del]

text \<open>\<open>encode\<close>; \<open>debug\<close> says whether debug assertions are compiled in.\<close>

definition varint_encode :: "bool \<Rightarrow> u8 list \<Rightarrow> u64 \<Rightarrow> (u8 list \<times> nat) outcome" where
  "varint_encode debug b v =
     (if debug \<and> length b < VARINT_MAX_SIZE_BYTES then Panics else encode_loop b v 0)"

text \<open>\<open>write\<close>: encode into a buffer of ten bytes, then write the part that was filled.\<close>

definition varint_write :: "bool \<Rightarrow> 'w write_all_fn \<Rightarrow> 'w \<Rightarrow> u64 \<Rightarrow> 'w write_result" where
  "varint_write debug wa w v =
     obind (varint_encode debug (replicate VARINT_MAX_SIZE_BYTES 0) v)
       (\<lambda>(b, i). wa w (take i b))"

text \<open>The loop of \<open>decode\<close> over the bytes that are left, with its variables \<open>v\<close>, \<open>pos\<close>, \<open>i\<close>.\<close>

fun decode_loop :: "u8 list \<Rightarrow> u64 \<Rightarrow> u32 \<Rightarrow> nat \<Rightarrow> (u64 \<times> nat) option" where
  "decode_loop [] v pos i = None"
| "decode_loop (b # bs) v pos i =
     (if i < VARINT_MAX_SIZE_BYTES
      then if b \<le> 0x7f
           then decode_loop bs (v OR wrapping_shl_u64 (ucast b) pos) (pos + 7) (i + 1)
           else Some (v OR wrapping_shl_u64 (ucast (b AND 0x7f)) pos, i + 1)
      else None)"

definition varint_decode :: "u8 list \<Rightarrow> (u64 \<times> nat) option" where
  "varint_decode b = decode_loop b 0 0 0"

text \<open>
  The loop of \<open>read\<close> reads one byte at a time from any reader and has no bound on their number:
  with an endless reader it may not return, which is the value \<open>None\<close> of the model.
\<close>

partial_function (option) read_loop ::
    "'r read_exact_fn \<Rightarrow> 'r \<Rightarrow> u64 \<Rightarrow> u32 \<Rightarrow> nat \<Rightarrow> ((io_error + u64 \<times> nat) \<times> 'r) option" where
  "read_loop rx r v pos i =
     (case rx r 1 of
        (Inl e, r') \<Rightarrow> Some (Inl e, r')
      | (Inr buf, r') \<Rightarrow>
          (let b = buf ! 0 in
           if b \<le> 0x7f
           then read_loop rx r' (v OR wrapping_shl_u64 (ucast b) pos) (pos + 7) (i + 1)
           else Some (Inr (v OR wrapping_shl_u64 (ucast (b AND 0x7f)) pos, i + 1), r')))"

definition varint_read :: "'r read_exact_fn \<Rightarrow> 'r \<Rightarrow> ((io_error + u64 \<times> nat) \<times> 'r) option" where
  "varint_read rx r = read_loop rx r 0 0 0"

section \<open>The encoding\<close>

text \<open>The bytes of an encoding, written as a number in base 128.\<close>

function varint_bytes :: "nat \<Rightarrow> u8 list" where
  "varint_bytes n =
     (if 127 < n then of_nat (n mod 128) # varint_bytes (n div 128) else [of_nat (n + 128)])"
  by pat_completeness auto
termination
  by (relation "measure id") auto

declare varint_bytes.simps [simp del]

lemma varint_bytes_nonempty [simp]: "varint_bytes n \<noteq> []"
  by (subst varint_bytes.simps) simp

lemma length_varint_bytes: "n < 128 ^ k \<Longrightarrow> 0 < k \<Longrightarrow> length (varint_bytes n) \<le> k"
proof (induction n arbitrary: k rule: varint_bytes.induct)
  case (1 n)
  show ?case
  proof (cases "127 < n")
    case True
    obtain k' where k: "k = Suc k'" using "1.prems" by (cases k) auto
    with True "1.prems" have "0 < k'" by (cases k') auto
    moreover have "n div 128 < 128 ^ k'"
      using "1.prems" k by (simp add: less_mult_imp_div_less mult.commute)
    ultimately show ?thesis using "1.IH" True k by (subst varint_bytes.simps) simp
  next
    case False
    then show ?thesis using "1.prems" by (subst varint_bytes.simps) simp
  qed
qed

lemma length_varint_bytes_u64: "length (varint_bytes (unat (v :: u64))) \<le> 10"
proof (rule length_varint_bytes)
  have "unat v < 2 ^ 64" using unsigned_less [where ?'a = nat, of v] by simp
  then show "unat v < 128 ^ 10" by simp
qed simp

lemma low_group: "(ucast (v :: u64) AND 0x7f :: u8) = of_nat (unat v mod 128)"
proof -
  have m: "(0x7f :: u8) = mask 7" by (simp add: mask_eq_exp_minus_1)
  have "unat v mod 128 = take_bit 7 (unat v)" by (simp add: take_bit_eq_mod)
  then show ?thesis
    unfolding m by (intro bit_word_eqI) (auto simp: bit_simps)
qed

lemma last_group:
  assumes "\<not> 0x7f < (v :: u64)"
  shows "(ucast v OR 0x80 :: u8) = of_nat (unat v + 128)"
proof -
  have v: "unat v < 128" using assms by (simp add: word_less_nat_alt)
  have "take_bit 8 (unat v) = unat v" "take_bit 7 (unat v) = unat v"
    using v by (simp_all add: take_bit_nat_eq_self_iff)
  then have "ucast v = take_bit 7 (ucast v :: u8)"
    by (simp add: word_eq_iff_unsigned [where ?'a = nat] unsigned_take_bit_eq
        unsigned_ucast_eq)
  then have d: "\<not> bit (ucast v :: u8) 7" by (metis bit_take_bit_iff less_irrefl)
  have h: "(0x80 :: u8) = 2 ^ 7" by simp
  have "bit (0x80 :: u8) n \<longleftrightarrow> n = 7" for n
    unfolding h bit_exp_iff by auto
  then have "ucast v OR 0x80 = (ucast v + 0x80 :: u8)"
    using d by (subst disjunctive_add) auto
  also have "(ucast v :: u8) = of_nat (unat v)" by simp
  finally show ?thesis by simp
qed

lemma encode_loop_spec:
  "i \<le> length b \<Longrightarrow> encode_loop b v i
   = (if i + length (varint_bytes (unat v)) \<le> length b
      then Returns (put_region i (varint_bytes (unat v)) b, i + length (varint_bytes (unat v)))
      else Panics)"
proof (induction b v i rule: encode_loop.induct)
  case (1 b v i)
  have gt: "v > 0x7f \<longleftrightarrow> 127 < unat v" by (simp add: word_less_nat_alt)
  have un: "unat (drop_bit 7 v) = unat v div 128" by (simp add: drop_bit_eq_div unat_div_distrib)
  show ?case
  proof (cases "i < length b")
    case False
    with "1.prems" have "i = length b" by simp
    then show ?thesis by (simp add: encode_loop.simps [of b v "length b"])
  next
    case i: True
    show ?thesis
    proof (cases "v > 0x7f")
      case False
      then show ?thesis
        using i last_group [OF False] gt
        by (simp add: encode_loop.simps [of b v i] varint_bytes.simps [of "unat v"] put_region_def
            upd_conv_take_nth_drop)
    next
      case True
      let ?b = "b[i := ucast v AND 0x7f]"
      have "put_region (i + 1) bs ?b = put_region i ((ucast v AND 0x7f) # bs) b" for bs
        using i by (simp add: put_region_def upd_conv_take_nth_drop ac_simps)
      then show ?thesis
        using "1.IH" [OF True, of ?b] True i gt un
        by (simp add: encode_loop.simps [of b v i] varint_bytes.simps [of "unat v"] low_group)
    qed
  qed
qed

text \<open>
  C24: \<open>encode\<close> stores the base 128 digits of \<open>v\<close>, at most ten, and panics only if the slice cannot
  hold them (or, in a debug build, is shorter than ten bytes).
\<close>

theorem varint_encode_spec:
  "varint_encode debug b v
   = (if length b < length (varint_bytes (unat v)) \<or> debug \<and> length b < 10 then Panics
      else Returns (varint_bytes (unat v) @ drop (length (varint_bytes (unat v))) b,
                    length (varint_bytes (unat v))))
   \<and> length (varint_bytes (unat v)) \<le> 10"
  using encode_loop_spec [of 0 b v] length_varint_bytes_u64 [of v]
  by (auto simp: varint_encode_def VARINT_MAX_SIZE_BYTES_def put_region_def)

lemma varint_write_eq: "varint_write debug wa w v = wa w (varint_bytes (unat v))"
  using encode_loop_spec [of 0 "replicate 10 0" v] length_varint_bytes_u64 [of v]
  by (simp add: varint_write_def varint_encode_def VARINT_MAX_SIZE_BYTES_def put_region_def)

section \<open>Decoding\<close>

text \<open>The number that groups of seven bits stand for, the least significant group first.\<close>

fun groups_value :: "u8 list \<Rightarrow> nat" where
  "groups_value [] = 0"
| "groups_value (b # bs) = unat b mod 128 + 128 * groups_value bs"

text \<open>The number of bytes before the first one with the high bit.\<close>

definition continuation :: "u8 list \<Rightarrow> nat" where
  "continuation bs = length (takeWhile (\<lambda>b. b \<le> 0x7f) bs)"

lemma continuation_simps [simp]:
  "continuation [] = 0"
  "continuation (b # bs) = (if b \<le> 0x7f then Suc (continuation bs) else 0)"
  by (simp_all add: continuation_def)

lemma or_group:
  assumes V: "V < 128 ^ i" and i: "i < 10"
  shows "of_nat V OR wrapping_shl_u64 (ucast (b :: u8)) (of_nat (7 * i)) = of_nat (V + 128 ^ i * unat b)"
proof -
  have "i \<in> {0, 1, 2, 3, 4, 5, 6, 7, 8, 9}" using i by auto
  then have sh: "unat ((of_nat (7 * i) :: u32) AND 63) = 7 * i" by auto
  have p: "(128 :: nat) ^ i = 2 ^ (7 * i)" by (simp add: power_mult)
  have "of_nat V = (take_bit (7 * i) (of_nat V) :: u64)"
  proof -
    have "take_bit (7 * i) V = V" using V p by (simp add: take_bit_nat_eq_self_iff)
    then show ?thesis by (metis take_bit_of_nat)
  qed
  then have "of_nat V OR push_bit (7 * i) (ucast b) = (of_nat V + push_bit (7 * i) (ucast b) :: u64)"
    by (metis (no_types, lifting) bit_push_bit_iff bit_take_bit_iff disjunctive_add not_le)
  then show ?thesis
    unfolding wrapping_shl_u64_def sh by (simp add: push_bit_eq_mult p ac_simps)
qed

lemma pos_Suc: "(of_nat (7 * i) + 7 :: u32) = of_nat (7 * Suc i)"
  by simp

lemma high_byte: "(ucast ((b :: u8) AND 0x7f) :: u64) = ucast (of_nat (unat b mod 128) :: u8)"
proof -
  have "b AND 0x7f = of_nat (unat b mod 128)" for b :: u8
  proof -
    have m: "(0x7f :: u8) = mask 7" by (simp add: mask_eq_exp_minus_1)
    have "unat b mod 128 = take_bit 7 (unat b)" by (simp add: take_bit_eq_mod)
    then show ?thesis unfolding m by (intro bit_word_eqI) (auto simp: bit_simps)
  qed
  then show ?thesis by simp
qed

lemma decode_loop_spec:
  "V < 128 ^ i \<Longrightarrow> decode_loop bs (of_nat V) (of_nat (7 * i)) i
   = (if continuation bs < length bs \<and> i + continuation bs < 10
      then Some (of_nat (V + 128 ^ i * groups_value (take (Suc (continuation bs)) bs)),
                 i + Suc (continuation bs))
      else None)"
proof (induction bs arbitrary: V i)
  case (Cons b bs)
  show ?case
  proof (cases "i < 10")
    case False
    then show ?thesis by (simp add: VARINT_MAX_SIZE_BYTES_def)
  next
    case i: True
    show ?thesis
    proof (cases "b \<le> 0x7f")
      case True
      then have b: "unat b < 128" by (simp add: word_le_nat_alt)
      have "V + 128 ^ i * unat b < 128 ^ i + 128 ^ i * unat b" using Cons.prems by simp
      also have "\<dots> = 128 ^ i * Suc (unat b)" by simp
      also have "\<dots> \<le> 128 ^ i * 128" using b by (intro mult_le_mono2) simp
      finally have "V + 128 ^ i * unat b < 128 ^ Suc i" by simp
      from Cons.IH [OF this] show ?thesis
        using True i b or_group [OF Cons.prems i, of b]
        by (simp add: VARINT_MAX_SIZE_BYTES_def algebra_simps)
    next
      case False
      then have "unat (of_nat (unat b mod 128) :: u8) = unat b mod 128"
        by (simp add: unat_of_nat less_trans [of _ 128])
      then show ?thesis
        using False i or_group [OF Cons.prems i, of "of_nat (unat b mod 128)"]
        by (simp add: VARINT_MAX_SIZE_BYTES_def high_byte)
    qed
  qed
qed simp

text \<open>
  What \<open>decode\<close> accepts and returns: the first byte with its high bit set ends the number and
  must be one of the first ten; the value is that of the seven-bit groups, modulo \<open>2 ^ 64\<close>.
\<close>

theorem varint_decode_spec:
  "varint_decode b
   = (if continuation b < length b \<and> continuation b < 10
      then Some (of_nat (groups_value (take (Suc (continuation b)) b)), Suc (continuation b))
      else None)"
  using decode_loop_spec [of 0 0 b] by (simp add: varint_decode_def)

lemma varint_bytes_groups:
  "groups_value (varint_bytes n) = n \<and> continuation (varint_bytes n @ rest) + 1 = length (varint_bytes n)"
proof (induction n rule: varint_bytes.induct)
  case (1 n)
  show ?case
  proof (cases "127 < n")
    case True
    have lt: "n mod 128 < 128" by simp
    then have un: "unat (of_nat (n mod 128) :: u8) = n mod 128"
      by (simp add: unat_of_nat less_trans [of _ 128])
    then have "(of_nat (n mod 128) :: u8) \<le> 0x7f" using lt by (simp only: word_le_nat_alt) simp
    then show ?thesis using "1.IH" [OF True] True un by (simp add: varint_bytes.simps [of n])
  next
    case False
    then have un: "unat (of_nat (n + 128) :: u8) = n + 128" by (subst unat_of_nat) simp
    then have "\<not> (of_nat (n + 128) :: u8) \<le> 0x7f" by (simp only: word_le_nat_alt) simp
    then show ?thesis using False un by (simp add: varint_bytes.simps [of n])
  qed
qed

lemma varint_decode_bytes:
  "varint_decode (varint_bytes (unat v) @ rest) = Some (v, length (varint_bytes (unat v)))"
proof -
  let ?e = "varint_bytes (unat v)"
  have c: "Suc (continuation (?e @ rest)) = length ?e" "groups_value ?e = unat v"
    using varint_bytes_groups [of "unat v" rest] by simp_all
  then show ?thesis
    using length_varint_bytes_u64 [of v] by (simp add: varint_decode_def decode_loop_spec [of 0 0 "varint_bytes (unat v) @ rest", simplified])
qed

text \<open>What \<open>encode\<close> stores, followed by anything, \<open>decode\<close> reads back as the same value, and both agree
  on its length.\<close>

theorem varint_roundtrip:
  "\<exists>b n. varint_encode debug (replicate 10 0) v = Returns (b, n)
    \<and> varint_decode (take n b @ rest) = Some (v, n)"
  using encode_loop_spec [of 0 "replicate 10 0" v] length_varint_bytes_u64 [of v] varint_decode_bytes [of v rest]
  by (auto simp: varint_encode_def VARINT_MAX_SIZE_BYTES_def put_region_def)

section \<open>Reading from a stream\<close>

context reader begin

lemma read_loop_step:
  "read_loop rx r v pos i =
     (case pending r of
        [] \<Rightarrow> Some (Inl UnexpectedEof, snd (rx r 1))
      | b # _ \<Rightarrow>
          if b \<le> 0x7f
          then read_loop rx (snd (rx r 1)) (v OR wrapping_shl_u64 (ucast b) pos) (pos + 7) (i + 1)
          else Some (Inr (v OR wrapping_shl_u64 (ucast (b AND 0x7f)) pos, i + 1), snd (rx r 1)))"
proof (cases "pending r")
  case Nil
  then have "fst (rx r 1) = Inl UnexpectedEof" by (intro rx_short) simp
  then show ?thesis
    using Nil by (cases "rx r 1") (simp add: read_loop.simps [of rx r])
next
  case (Cons b bs)
  then have "fst (rx r 1) = Inr [b]" using rx_enough [of 1 r] by simp
  then show ?thesis
    using Cons by (cases "rx r 1") (simp add: read_loop.simps [of rx r])
qed

lemma pending_step: "pending r = b # bs \<Longrightarrow> pending (snd (rx r 1)) = bs"
  using rx_enough [of 1 r] by simp

text \<open>On a reader that can deliver finitely many bytes, \<open>read\<close> returns.\<close>

lemma read_loop_returns:
  "\<exists>res r'. read_loop rx r v pos i = Some (res, r')
   \<and> ((\<exists>e. res = Inl e) \<longleftrightarrow> continuation (pending r) = length (pending r))"
proof (induction "pending r" arbitrary: r v pos i)
  case Nil
  then show ?case by (simp add: read_loop_step [of r] flip: Nil)
next
  case (Cons b bs)
  have "pending (snd (rx r 1)) = bs" by (rule pending_step [OF Cons(2) [symmetric]])
  then show ?case
    using Cons(1) [of "snd (rx r 1)"] by (simp add: read_loop_step [of r] flip: Cons(2))
qed

text \<open>Where \<open>decode\<close> accepts the bytes to come, \<open>read\<close> returns the same and consumes them.\<close>

lemma read_loop_decode:
  "decode_loop (pending r) v pos i = Some (x, n) \<Longrightarrow>
   \<exists>r'. read_loop rx r v pos i = Some (Inr (x, n), r') \<and> i < n \<and> pending r' = drop (n - i) (pending r)"
proof (induction "pending r" arbitrary: r v pos i)
  case Nil
  then show ?case by (simp flip: Nil(1))
next
  case (Cons b bs)
  let ?r = "snd (rx r 1)"
  have p: "pending ?r = bs" by (rule pending_step [OF Cons(2) [symmetric]])
  show ?case
  proof (cases "b \<le> 0x7f")
    case False
    then show ?thesis
      using Cons(2,3) p by (auto simp: read_loop_step [of r] simp flip: Cons(2) split: if_splits)
  next
    case True
    have "decode_loop (pending ?r) (v OR wrapping_shl_u64 (ucast b) pos) (pos + 7) (i + 1) = Some (x, n)"
      using True Cons(3) p by (simp flip: Cons(2) split: if_splits)
    from Cons(1) [OF p [symmetric] this] obtain r' where r':
      "read_loop rx ?r (v OR wrapping_shl_u64 (ucast b) pos) (pos + 7) (i + 1) = Some (Inr (x, n), r')"
      "i + 1 < n" "pending r' = drop (n - (i + 1)) bs" using p by auto
    then have "n - i = Suc (n - (i + 1))" by simp
    then show ?thesis using True r' by (simp add: read_loop_step [of r] flip: Cons(2))
  qed
qed

lemma read_decode:
  assumes "varint_decode (pending r) = Some (x, n)"
  shows "\<exists>r'. varint_read rx r = Some (Inr (x, n), r') \<and> pending r' = drop n (pending r)"
  using read_loop_decode [of r 0 0 0 x n] assms by (auto simp: varint_decode_def varint_read_def)

end


text \<open>C23: What \<open>write\<close> appends to any stream, \<open>read\<close> takes off it again.\<close>

theorem varint_write_read:
  "varint_write debug vec_write_all out v = Returns (Inr (), out @ varint_bytes (unat v))
   \<and> varint_read slice_read_exact (varint_bytes (unat v) @ rest)
     = Some (Inr (v, length (varint_bytes (unat v))), rest)"
  using slice.read_decode [OF varint_decode_bytes, of v rest]
  by (simp add: varint_write_eq vec_write_all_def)

text \<open>
  Past ten bytes \<open>read\<close> and \<open>decode\<close> differ: \<open>decode\<close> refuses, \<open>read\<close> goes on with the
  shift distance taken modulo 64, so the eleventh group is added in at bit 6.
\<close>

lemma read_loop_slice:
  "read_loop slice_read_exact (b # bs) v pos i =
     (if b \<le> 0x7f
      then read_loop slice_read_exact bs (v OR wrapping_shl_u64 (ucast b) pos) (pos + 7) (i + 1)
      else Some (Inr (v OR wrapping_shl_u64 (ucast (b AND 0x7f)) pos, i + 1), bs))"
  using slice.read_loop_step [of "b # bs" v pos i] by (simp add: slice_read_exact_def)

lemma varint_read_overlong:
  "varint_decode [0, 0, 0, 0, 0, 0, 0, 0, 0, 0, 0x81] = None
   \<and> varint_read slice_read_exact [0, 0, 0, 0, 0, 0, 0, 0, 0, 0, 0x81] = Some (Inr (64, 11), [])"
proof
  show "varint_decode [0, 0, 0, 0, 0, 0, 0, 0, 0, 0, 0x81] = None" by code_simp
  show "varint_read slice_read_exact [0, 0, 0, 0, 0, 0, 0, 0, 0, 0, 0x81] = Some (Inr (64, 11), [])"
    by (simp add: varint_read_def read_loop_slice wrapping_shl_u64_def)
qed

end
