(* ===== verification/Slots.thy ===== *)
theory Slots
  imports Stream
begin

text \<open>
  Arrays of \<open>MaybeUninit<T>\<close>, which \<open>arrayvec.rs\<close> and \<open>ringbuffer.rs\<close> index without bounds
  checks. A slot is \<open>Some x\<close> while it holds a value and \<open>None\<close> before it is written and after its
  value has been moved out or dropped. Reading an empty slot, dropping an empty slot or touching a
  slot outside the array is undefined behaviour.

  The second half is the contract of a container that accepts elements until it is full, and the
  loop over it that the conversions, the \<open>Write\<close> implementations and the deserializer share.
\<close>

section \<open>Slot arrays\<close>

type_synonym 'a slots = "'a option list"

definition slot_read :: "'a slots \<Rightarrow> nat \<Rightarrow> 'a outcome" where
  "slot_read a i =
     (if i < length a then (case a ! i of Some x \<Rightarrow> Returns x | None \<Rightarrow> Undefined) else Undefined)"

definition slot_write :: "'a slots \<Rightarrow> nat \<Rightarrow> 'a \<Rightarrow> 'a slots outcome" where
  "slot_write a i x = (if i < length a then Returns (a[i := Some x]) else Undefined)"

text \<open>\<open>assume_init_read\<close> moves the value out, \<open>assume_init_drop\<close> destroys it: both leave the slot
  empty.\<close>

definition slot_take :: "'a slots \<Rightarrow> nat \<Rightarrow> ('a \<times> 'a slots) outcome" where
  "slot_take a i = obind (slot_read a i) (\<lambda>x. Returns (x, a[i := None]))"

text \<open>A loop \<open>for i in 0..n\<close> that drops every slot; the dropped values in order.\<close>

fun slots_drop_from :: "'a slots \<Rightarrow> nat \<Rightarrow> nat \<Rightarrow> ('a list \<times> 'a slots) outcome" where
  "slots_drop_from a i 0 = Returns ([], a)"
| "slots_drop_from a i (Suc n) =
     obind (slot_take a i) (\<lambda>(x, a').
     obind (slots_drop_from a' (Suc i) n) (\<lambda>(xs, a''). Returns (x # xs, a'')))"

definition slots_drop :: "'a slots \<Rightarrow> nat \<Rightarrow> ('a list \<times> 'a slots) outcome" where
  "slots_drop a n = slots_drop_from a 0 n"

text \<open>A slice of the first \<open>n\<close> slots as values, \<open>slice_from_raw_parts(a.as_ptr().cast(), n)\<close>.\<close>

fun slots_view :: "'a slots \<Rightarrow> nat \<Rightarrow> 'a list outcome" where
  "slots_view a 0 = Returns []"
| "slots_view [] (Suc n) = Undefined"
| "slots_view (s # a) (Suc n) =
     (case s of
        None \<Rightarrow> Undefined
      | Some x \<Rightarrow> obind (slots_view a n) (\<lambda>xs. Returns (x # xs)))"

definition filled :: "'a slots \<Rightarrow> 'a list \<Rightarrow> bool" where
  "filled a xs \<longleftrightarrow> length xs \<le> length a \<and> take (length xs) a = map Some xs"

lemma map_Some_the: "list_all (\<lambda>s. s \<noteq> None) a \<Longrightarrow> map Some (map the a) = a"
  by (induction a) auto

lemma filled_nth: "filled a xs \<Longrightarrow> i < length xs \<Longrightarrow> a ! i = Some (xs ! i)"
  unfolding filled_def by (metis length_map nth_map nth_take)

lemma filled_Nil [simp]: "filled a []"
  by (simp add: filled_def)

lemma filled_Cons: "filled a (x # xs) \<longleftrightarrow> (\<exists>a'. a = Some x # a' \<and> filled a' xs)"
  by (cases a) (auto simp: filled_def)

lemma filled_view: "filled a xs \<Longrightarrow> slots_view a (length xs) = Returns xs"
proof (induction xs arbitrary: a)
  case (Cons x xs)
  then show ?case by (auto simp: filled_Cons)
qed simp

lemma filled_read: "filled a xs \<Longrightarrow> i < length xs \<Longrightarrow> slot_read a i = Returns (xs ! i)"
  using filled_nth [of a xs i] by (auto simp: slot_read_def filled_def)

lemma filled_snoc:
  "filled a xs \<Longrightarrow> length xs < length a \<Longrightarrow> filled (a[length xs := Some x]) (xs @ [x])"
  by (simp add: filled_def take_Suc_conv_app_nth)

lemma filled_prefix: "filled a (xs @ ys) \<Longrightarrow> filled a xs"
  by (auto simp: filled_def take_add)

lemma filled_butlast_update:
  "filled a xs \<Longrightarrow> xs \<noteq> [] \<Longrightarrow> filled (a[length xs - 1 := s]) (butlast xs)"
  using filled_prefix [of a "butlast xs" "[last xs]"] by (simp add: filled_def)

lemma filled_unique: "filled a xs \<Longrightarrow> filled a ys \<Longrightarrow> length xs = length ys \<Longrightarrow> xs = ys"
  using filled_view by (metis outcome.inject)

lemma slots_drop_from_filled:
  assumes "i + length xs \<le> length a" and "take (length xs) (drop i a) = map Some xs"
  shows "slots_drop_from a i (length xs)
     = Returns (xs, take i a @ replicate (length xs) None @ drop (i + length xs) a)"
  using assms
proof (induction xs arbitrary: a i)
  case (Cons x xs)
  let ?a = "a[i := None]"
  have i: "i < length a" using Cons.prems by simp
  then have split: "drop i a = a ! i # drop (Suc i) a" by (simp add: Cons_nth_drop_Suc)
  have "a ! i = Some x" "take (length xs) (drop (Suc i) a) = map Some xs"
    using Cons.prems(2) by (simp_all add: split)
  then show ?case
    using Cons.IH [of "Suc i" ?a] Cons.prems(1) i
    by (simp add: slot_take_def slot_read_def take_Suc_conv_app_nth)
qed simp

lemma slots_drop_filled:
  "filled a xs \<Longrightarrow> slots_drop a (length xs) = Returns (xs, replicate (length xs) None @ drop (length xs) a)"
  using slots_drop_from_filled [of 0 xs a] by (simp add: filled_def slots_drop_def)

section \<open>Containers with a capacity\<close>

text \<open>The loop of the clients: push every element in order, stop at the first refusal.\<close>

fun push_all :: "('v \<Rightarrow> 'a \<Rightarrow> (('e + unit) \<times> 'v) outcome) \<Rightarrow> 'v \<Rightarrow> 'a list \<Rightarrow> (('e + unit) \<times> 'v) outcome" where
  "push_all tp v [] = Returns (Inr (), v)"
| "push_all tp v (x # xs) =
     obind (tp v x) (\<lambda>(r, v'). case r of Inl e \<Rightarrow> Returns (Inl e, v') | Inr _ \<Rightarrow> push_all tp v' xs)"

locale bounded_container =
  fixes tp :: "'v \<Rightarrow> 'a \<Rightarrow> (('e + unit) \<times> 'v) outcome"
    and inv :: "'v \<Rightarrow> bool"
    and content :: "'v \<Rightarrow> 'a list"
    and cap :: "'v \<Rightarrow> nat"
    and refusal :: "'a \<Rightarrow> 'e"
  assumes bound: "inv v \<Longrightarrow> length (content v) \<le> cap v"
    and push_room: "inv v \<Longrightarrow> length (content v) < cap v \<Longrightarrow>
      \<exists>v'. tp v x = Returns (Inr (), v') \<and> inv v' \<and> content v' = content v @ [x] \<and> cap v' = cap v"
    and push_full: "inv v \<Longrightarrow> length (content v) = cap v \<Longrightarrow> tp v x = Returns (Inl (refusal x), v)"
begin

lemma push_all_fits:
  "inv v \<Longrightarrow> length (content v) + length xs \<le> cap v \<Longrightarrow>
   \<exists>v'. push_all tp v xs = Returns (Inr (), v') \<and> inv v' \<and> content v' = content v @ xs \<and> cap v' = cap v"
proof (induction xs arbitrary: v)
  case (Cons x xs)
  then obtain v1 where v1: "tp v x = Returns (Inr (), v1)" "inv v1" "content v1 = content v @ [x]" "cap v1 = cap v"
    using push_room [of v x] by auto
  then show ?case using Cons.IH [of v1] Cons.prems by auto
qed simp

lemma push_all_full:
  "inv v \<Longrightarrow> cap v < length (content v) + length xs \<Longrightarrow>
   \<exists>v'. push_all tp v xs = Returns (Inl (refusal (xs ! (cap v - length (content v)))), v')
     \<and> inv v' \<and> content v' = content v @ take (cap v - length (content v)) xs \<and> cap v' = cap v"
proof (induction xs arbitrary: v)
  case Nil
  then show ?case using bound [of v] by simp
next
  case (Cons x xs)
  show ?case
  proof (cases "length (content v) = cap v")
    case True
    then show ?thesis using push_full [OF Cons.prems(1) True, of x] Cons.prems by simp
  next
    case False
    then have room: "length (content v) < cap v" using bound Cons.prems(1) by fastforce
    then obtain v1 where v1: "tp v x = Returns (Inr (), v1)" "inv v1"
        "content v1 = content v @ [x]" "cap v1 = cap v"
      using push_room [OF Cons.prems(1) room, of x] by auto
    have "cap v - length (content v) = Suc (cap v - Suc (length (content v)))" using room by simp
    then show ?thesis using Cons.IH [of v1] Cons.prems v1 by auto
  qed
qed

lemma push_all_safe: "inv v \<Longrightarrow> \<exists>r v'. push_all tp v xs = Returns (r, v') \<and> inv v' \<and> cap v' = cap v"
  using push_all_fits [of v xs] push_all_full [of v xs] by (metis not_le)

end

end
