(* ===== verification/ArrayVec.thy ===== *)
theory ArrayVec
  imports Slots Hex "HOL-Library.List_Lexorder" "HOL-Library.Multiset"
begin

text \<open>
  The fixed capacity vector of \<open>src/arrayvec.rs\<close>: a length and an array of slots that are
  written and read without bounds checks. The capacity \<open>C\<close> is the length of the array. A
  function returns \<open>Undefined\<close> where its unsafe code would touch an empty or missing slot; that
  no operation does so on a well-formed vector is part of every specification below.
\<close>

section \<open>State and operations\<close>

record 'a arrayvec =
  av_s :: nat
  av_a :: "'a slots"

datatype 'a out_of_capacity = OutOfCapacityError 'a

abbreviation av_C :: "'a arrayvec \<Rightarrow> nat" where
  "av_C v \<equiv> length (av_a v)"

definition av_new :: "nat \<Rightarrow> 'a arrayvec" where
  "av_new C = \<lparr>av_s = 0, av_a = replicate C None\<rparr>"

definition av_default :: "nat \<Rightarrow> 'a arrayvec" where
  "av_default C = av_new C"

definition av_push :: "'a arrayvec \<Rightarrow> 'a \<Rightarrow> 'a arrayvec outcome" where
  "av_push self v =
     (let i = av_s self in
      if i < av_C self
      then obind (slot_write (av_a self) i v) (\<lambda>a. Returns (self\<lparr>av_a := a, av_s := i + 1\<rparr>))
      else Panics)"

definition av_try_push :: "'a arrayvec \<Rightarrow> 'a \<Rightarrow> (('a out_of_capacity + unit) \<times> 'a arrayvec) outcome" where
  "av_try_push self v =
     (if av_s self < av_C self
      then let i = av_s self in
           obind (slot_write (av_a self) i v)
             (\<lambda>a. Returns (Inr (), self\<lparr>av_a := a, av_s := i + 1\<rparr>))
      else Returns (Inl (OutOfCapacityError v), self))"

text \<open>\<open>as_ref\<close>: the slice of the first \<open>s\<close> slots. \<open>as_bytes\<close> is the same view, for types that
  do not need dropping.\<close>

definition av_as_ref :: "'a arrayvec \<Rightarrow> 'a list outcome" where
  "av_as_ref self = slots_view (av_a self) (av_s self)"

definition av_as_bytes :: "bool \<Rightarrow> 'a arrayvec \<Rightarrow> 'a list outcome" where
  "av_as_bytes needs_drop self =
     obind (assert_that (\<not> needs_drop)) (\<lambda>_. slots_view (av_a self) (av_s self))"

definition av_is_empty :: "'a arrayvec \<Rightarrow> bool" where
  "av_is_empty self = (av_s self = 0)"

definition av_len :: "'a arrayvec \<Rightarrow> nat" where
  "av_len self = av_s self"

definition av_capacity :: "'a arrayvec \<Rightarrow> nat" where
  "av_capacity self = av_C self"

text \<open>\<open>C - self.s\<close> on \<open>usize\<close>: an underflow is an arithmetic overflow panic.\<close>

definition av_capacity_remaining :: "'a arrayvec \<Rightarrow> nat outcome" where
  "av_capacity_remaining self = (if av_s self \<le> av_C self then Returns (av_C self - av_s self) else Panics)"

definition av_first :: "'a arrayvec \<Rightarrow> 'a option outcome" where
  "av_first self =
     (if av_s self \<noteq> 0 then obind (slot_read (av_a self) 0) (\<lambda>x. Returns (Some x)) else Returns None)"

definition av_last :: "'a arrayvec \<Rightarrow> 'a option outcome" where
  "av_last self =
     (if av_s self \<noteq> 0 then obind (slot_read (av_a self) (av_s self - 1)) (\<lambda>x. Returns (Some x))
      else Returns None)"

definition av_pop :: "'a arrayvec \<Rightarrow> ('a option \<times> 'a arrayvec) outcome" where
  "av_pop self =
     (if av_s self > 0
      then let i = av_s self - 1 in
           obind (slot_take (av_a self) i) (\<lambda>(x, a). Returns (Some x, self\<lparr>av_s := i, av_a := a\<rparr>))
      else Returns (None, self))"

text \<open>\<open>clear\<close> and \<open>drop\<close> return the values they destroy, in order.\<close>

definition av_clear :: "bool \<Rightarrow> 'a arrayvec \<Rightarrow> ('a list \<times> 'a arrayvec) outcome" where
  "av_clear needs_drop self =
     (if needs_drop
      then obind (slots_drop (av_a self) (av_s self)) (\<lambda>(xs, a). Returns (xs, self\<lparr>av_a := a, av_s := 0\<rparr>))
      else Returns ([], self\<lparr>av_s := 0\<rparr>))"

definition av_drop :: "bool \<Rightarrow> 'a arrayvec \<Rightarrow> 'a list outcome" where
  "av_drop needs_drop self =
     (if needs_drop then obind (slots_drop (av_a self) (av_s self)) (\<lambda>(xs, _). Returns xs) else Returns [])"

text \<open>\<open>as_mut\<close>: the slice, which an operation \<open>f\<close> of the same length changes in place. \<open>sort\<close> and
  \<open>sort_unstable\<close> are such operations, and \<open>iter_mut\<close> changes every element.\<close>

definition av_as_mut :: "'a arrayvec \<Rightarrow> ('a list \<Rightarrow> 'a list) \<Rightarrow> 'a arrayvec outcome" where
  "av_as_mut self f =
     obind (slots_view (av_a self) (av_s self)) (\<lambda>xs. Returns (self\<lparr>av_a := put_region 0 (map Some (f xs)) (av_a self)\<rparr>))"

definition av_sort :: "'a::linorder arrayvec \<Rightarrow> 'a arrayvec outcome" where
  "av_sort self = av_as_mut self sort"

definition av_sort_unstable :: "'a::linorder arrayvec \<Rightarrow> 'a arrayvec outcome" where
  "av_sort_unstable self = av_as_mut self sort"

definition av_iter :: "'a arrayvec \<Rightarrow> 'a list outcome" where
  "av_iter self = av_as_ref self"

definition av_iter_mut :: "'a arrayvec \<Rightarrow> ('a \<Rightarrow> 'a) \<Rightarrow> 'a arrayvec outcome" where
  "av_iter_mut self f = av_as_mut self (map f)"

text \<open>The printed form, \<open>fmt\<close> being that of the elements, and that of the capacity error.\<close>

definition av_debug :: "('a \<Rightarrow> string) \<Rightarrow> 'a arrayvec \<Rightarrow> string outcome" where
  "av_debug fmt self = obind (av_iter self) (\<lambda>xs. Returns (''['' @ concat (map fmt xs) @ '']''))"

definition out_of_capacity_display :: "'a out_of_capacity \<Rightarrow> string" where
  "out_of_capacity_display e = ''ArrayVec out of space''"

text \<open>The loop of \<open>push_slice\<close>, \<open>for i in start..end\<close>.\<close>

fun push_slice_loop :: "'a slots \<Rightarrow> nat \<Rightarrow> 'a list \<Rightarrow> 'a slots outcome" where
  "push_slice_loop a i [] = Returns a"
| "push_slice_loop a i (x # v) = obind (slot_write a i x) (\<lambda>a'. push_slice_loop a' (i + 1) v)"

definition av_push_slice :: "'a arrayvec \<Rightarrow> 'a list \<Rightarrow> 'a arrayvec outcome" where
  "av_push_slice self v =
     (let start = av_s self; end' = av_s self + length v in
      if end' \<le> av_C self
      then obind (push_slice_loop (av_a self) start v) (\<lambda>a. Returns (self\<lparr>av_a := a, av_s := end'\<rparr>))
      else Panics)"

text \<open>\<open>clone\<close>: element by element into a fresh array; \<open>cl\<close> is the element type's \<open>clone\<close>.\<close>

fun clone_loop :: "('a \<Rightarrow> 'a) \<Rightarrow> 'a slots \<Rightarrow> 'a slots \<Rightarrow> nat \<Rightarrow> nat \<Rightarrow> 'a slots outcome" where
  "clone_loop cl a tmp i 0 = Returns tmp"
| "clone_loop cl a tmp i (Suc n) =
     (if i < length a
      then obind (slot_read a i) (\<lambda>x. obind (slot_write tmp i (cl x)) (\<lambda>tmp'. clone_loop cl a tmp' (i + 1) n))
      else Panics)"

definition av_clone :: "('a \<Rightarrow> 'a) \<Rightarrow> 'a arrayvec \<Rightarrow> 'a arrayvec outcome" where
  "av_clone cl self =
     obind (clone_loop cl (av_a self) (replicate (av_C self) None) 0 (av_s self))
       (\<lambda>a. Returns \<lparr>av_s = av_s self, av_a = a\<rparr>)"

text \<open>\<open>From<[T; S]>\<close> pushes a clone of each element, and panics when \<open>S > C\<close>.\<close>

fun push_each :: "'a arrayvec \<Rightarrow> 'a list \<Rightarrow> 'a arrayvec outcome" where
  "push_each tmp [] = Returns tmp"
| "push_each tmp (x # v) = obind (av_push tmp x) (\<lambda>tmp'. push_each tmp' v)"

definition av_from_array :: "nat \<Rightarrow> ('a \<Rightarrow> 'a) \<Rightarrow> 'a list \<Rightarrow> 'a arrayvec outcome" where
  "av_from_array C cl v = (if length v \<le> C then push_each (av_new C) (map cl v) else Panics)"

text \<open>The three \<open>TryFrom\<close>: a vector is drained, a borrowed vector or slice is cloned.\<close>

definition av_try_from_vec :: "nat \<Rightarrow> 'a list \<Rightarrow> ('a out_of_capacity + 'a arrayvec) outcome" where
  "av_try_from_vec C xs =
     obind (push_all av_try_push (av_new C) xs)
       (\<lambda>(r, tmp). Returns (case r of Inl e \<Rightarrow> Inl e | Inr _ \<Rightarrow> Inr tmp))"

definition av_try_from_vec_ref :: "nat \<Rightarrow> ('a \<Rightarrow> 'a) \<Rightarrow> 'a list \<Rightarrow> ('a out_of_capacity + 'a arrayvec) outcome" where
  "av_try_from_vec_ref C cl xs =
     obind (push_all (\<lambda>tmp x. av_try_push tmp (cl x)) (av_new C) xs)
       (\<lambda>(r, tmp). Returns (case r of Inl e \<Rightarrow> Inl e | Inr _ \<Rightarrow> Inr tmp))"

definition av_try_from_slice :: "nat \<Rightarrow> ('a \<Rightarrow> 'a) \<Rightarrow> 'a list \<Rightarrow> ('a out_of_capacity + 'a arrayvec) outcome" where
  "av_try_from_slice C cl xs =
     obind (push_all (\<lambda>tmp x. av_try_push tmp (cl x)) (av_new C) xs)
       (\<lambda>(r, tmp). Returns (case r of Inl e \<Rightarrow> Inl e | Inr _ \<Rightarrow> Inr tmp))"

text \<open>\<open>Write for ArrayVec<u8, C>\<close>: bytes are stored until one does not fit.\<close>

definition av_write :: "u8 arrayvec \<Rightarrow> u8 list \<Rightarrow> ((io_error + nat) \<times> u8 arrayvec) outcome" where
  "av_write self buf =
     obind (push_all av_try_push self buf)
       (\<lambda>(r, self'). Returns
          (case r of Inl e \<Rightarrow> Inl (OtherError ''ArrayVec out of space'') | Inr _ \<Rightarrow> Inr (length buf), self'))"

definition av_flush :: "u8 arrayvec \<Rightarrow> (io_error + unit) \<times> u8 arrayvec" where
  "av_flush self = (Inr (), self)"

definition av_to_string :: "u8 arrayvec \<Rightarrow> u8 list outcome" where
  "av_to_string self = obind (av_as_bytes False self) (\<lambda>b. Returns (hex_to_string b))"

text \<open>Equality and order compare the slices.\<close>

definition av_eq :: "'a arrayvec \<Rightarrow> 'a arrayvec \<Rightarrow> bool outcome" where
  "av_eq self other =
     obind (av_as_ref self) (\<lambda>tmp. obind (av_as_ref other) (\<lambda>o'. Returns (tmp = o')))"

definition av_cmp :: "'a::linorder arrayvec \<Rightarrow> 'a arrayvec \<Rightarrow> ordering outcome" where
  "av_cmp self other =
     obind (av_as_ref self) (\<lambda>xs. obind (av_as_ref other) (\<lambda>ys. Returns (iter_cmp xs ys)))"

text \<open>Serde: a sequence of known length; the visitor pushes what the format's \<open>next_element\<close>
  yields, each an element or an error of the format.\<close>

datatype 'e de_error = AccessError 'e | CustomError string | InvalidLength nat

definition av_serialize :: "'a arrayvec \<Rightarrow> (nat \<times> 'a list) outcome" where
  "av_serialize self = obind (av_as_ref self) (\<lambda>sl. Returns (av_len self, sl))"

fun visit_seq_loop :: "'a arrayvec \<Rightarrow> ('e + 'a) list \<Rightarrow> ('e de_error + 'a arrayvec) outcome" where
  "visit_seq_loop a [] = Returns (Inr a)"
| "visit_seq_loop a (el # seq) =
     (case el of
        Inl e \<Rightarrow> Returns (Inl (AccessError e))
      | Inr x \<Rightarrow>
          obind (av_try_push a x)
            (\<lambda>(r, a'). case r of
               Inl _ \<Rightarrow> Returns (Inl (CustomError ''capacity exceeded''))
             | Inr _ \<Rightarrow> visit_seq_loop a' seq))"

definition av_visit_seq :: "nat \<Rightarrow> ('e + 'a) list \<Rightarrow> ('e de_error + 'a arrayvec) outcome" where
  "av_visit_seq L seq = visit_seq_loop (av_new L) seq"

section \<open>Well-formed vectors\<close>

text \<open>
  \<open>av_rep nd v xs\<close>: the vector holds exactly \<open>xs\<close>. For element types that need dropping
  (\<open>nd\<close>) no other slot holds a value, so that nothing is leaked.
\<close>

definition tail_empty :: "bool \<Rightarrow> nat \<Rightarrow> 'a slots \<Rightarrow> bool" where
  "tail_empty nd n a = (\<not> nd \<or> list_all (\<lambda>s. s = None) (drop n a))"

definition av_rep :: "bool \<Rightarrow> 'a arrayvec \<Rightarrow> 'a list \<Rightarrow> bool" where
  "av_rep nd v xs \<longleftrightarrow> av_s v = length xs \<and> filled (av_a v) xs \<and> tail_empty nd (length xs) (av_a v)"

definition av_list :: "'a arrayvec \<Rightarrow> 'a list" where
  "av_list v = map the (take (av_s v) (av_a v))"

definition av_inv :: "bool \<Rightarrow> 'a arrayvec \<Rightarrow> bool" where
  "av_inv nd v \<longleftrightarrow> av_s v \<le> av_C v \<and> list_all (\<lambda>s. s \<noteq> None) (take (av_s v) (av_a v))
     \<and> tail_empty nd (av_s v) (av_a v)"

lemma av_rep_iff: "av_rep nd v xs \<longleftrightarrow> av_inv nd v \<and> av_list v = xs"
proof
  assume r: "av_rep nd v xs"
  then have "take (av_s v) (av_a v) = map Some xs" by (simp add: av_rep_def filled_def)
  then show "av_inv nd v \<and> av_list v = xs"
    using r by (simp add: av_rep_def av_inv_def av_list_def filled_def list_all_iff comp_def)
next
  assume i: "av_inv nd v \<and> av_list v = xs"
  then have "length xs = av_s v" by (auto simp: av_list_def av_inv_def)
  then show "av_rep nd v xs"
    using i map_Some_the [of "take (av_s v) (av_a v)"]
    by (auto simp: av_rep_def av_inv_def av_list_def filled_def)
qed

lemma av_rep_list: "av_inv nd v \<Longrightarrow> av_rep nd v (av_list v)"
  by (simp add: av_rep_iff)

lemma av_rep_length: "av_rep nd v xs \<Longrightarrow> length xs \<le> av_C v"
  by (simp add: av_rep_def filled_def)

lemma tail_empty_iff:
  "tail_empty nd n a \<longleftrightarrow> (nd \<longrightarrow> (\<forall>i. n \<le> i \<longrightarrow> i < length a \<longrightarrow> a ! i = None))"
proof -
  have "list_all (\<lambda>s. s = None) (drop n a) \<longleftrightarrow> (\<forall>i. n \<le> i \<longrightarrow> i < length a \<longrightarrow> a ! i = None)"
  proof
    assume l: "list_all (\<lambda>s. s = None) (drop n a)"
    show "\<forall>i. n \<le> i \<longrightarrow> i < length a \<longrightarrow> a ! i = None"
    proof (intro allI impI)
      fix i assume "n \<le> i" "i < length a"
      then have i: "drop n a ! (i - n) = a ! i" "i - n < length (drop n a)" by simp_all
      have "drop n a ! (i - n) = None" using l i(2) unfolding list_all_length by blast
      with i(1) show "a ! i = None" by simp
    qed
  qed (simp add: list_all_length)
  then show ?thesis by (simp add: tail_empty_def)
qed

lemma tail_empty_grow: "tail_empty nd n a \<Longrightarrow> tail_empty nd (Suc n) (a[n := s])"
  by (simp add: tail_empty_iff)

lemma tail_empty_shrink: "tail_empty nd (Suc n) a \<Longrightarrow> tail_empty nd n (a[n := None])"
  by (auto simp: tail_empty_iff nth_list_update)

lemma av_rep_new: "av_rep nd (av_new C) []"
  by (simp add: av_rep_def av_new_def tail_empty_def list_all_iff)

lemma av_rep_push:
  assumes r: "av_rep nd v xs" and room: "length xs < av_C v"
  shows "\<exists>v'. slot_write (av_a v) (av_s v) x = Returns (av_a v')
    \<and> v' = v\<lparr>av_a := av_a v', av_s := av_s v + 1\<rparr> \<and> av_rep nd v' (xs @ [x]) \<and> av_C v' = av_C v"
proof -
  let ?v = "v\<lparr>av_a := (av_a v)[av_s v := Some x], av_s := av_s v + 1\<rparr>"
  have s: "av_s v = length xs" and f: "filled (av_a v) xs" and t: "tail_empty nd (length xs) (av_a v)"
    using r by (simp_all add: av_rep_def)
  have "tail_empty nd (Suc (length xs)) ((av_a v)[length xs := Some x])"
    using t by (rule tail_empty_grow)
  then have "av_rep nd ?v (xs @ [x])"
    using filled_snoc [OF f room, of x] s by (simp add: av_rep_def)
  moreover have "slot_write (av_a v) (av_s v) x = Returns (av_a ?v)"
    using room s by (simp add: slot_write_def)
  ultimately show ?thesis by (intro exI [of _ ?v]) simp
qed

lemma av_push_room:
  "av_rep nd v xs \<Longrightarrow> length xs < av_C v \<Longrightarrow>
   \<exists>v'. av_push v x = Returns v' \<and> av_rep nd v' (xs @ [x]) \<and> av_C v' = av_C v"
  using av_rep_push [of nd v xs x] by (auto simp: av_push_def av_rep_def Let_def)

lemma av_push_full: "av_rep nd v xs \<Longrightarrow> length xs = av_C v \<Longrightarrow> av_push v x = Panics"
  by (simp add: av_push_def av_rep_def)

lemma av_try_push_room:
  "av_rep nd v xs \<Longrightarrow> length xs < av_C v \<Longrightarrow>
   \<exists>v'. av_try_push v x = Returns (Inr (), v') \<and> av_rep nd v' (xs @ [x]) \<and> av_C v' = av_C v"
  using av_rep_push [of nd v xs x] by (auto simp: av_try_push_def av_rep_def Let_def)

lemma av_try_push_full:
  "av_rep nd v xs \<Longrightarrow> length xs = av_C v \<Longrightarrow> av_try_push v x = Returns (Inl (OutOfCapacityError x), v)"
  by (simp add: av_try_push_def av_rep_def)

lemma av_pop_spec:
  assumes r: "av_rep nd v xs"
  shows "if xs = [] then av_pop v = Returns (None, v)
    else \<exists>v'. av_pop v = Returns (Some (last xs), v') \<and> av_rep nd v' (butlast xs) \<and> av_C v' = av_C v"
proof (cases "xs = []")
  case True
  then show ?thesis using r by (simp add: av_pop_def av_rep_def)
next
  case False
  let ?v = "v\<lparr>av_s := length xs - 1, av_a := (av_a v)[length xs - 1 := None]\<rparr>"
  have f: "filled (av_a v) xs" and t: "tail_empty nd (length xs) (av_a v)"
    using r by (simp_all add: av_rep_def)
  have "tail_empty nd (length xs - 1) ((av_a v)[length xs - 1 := None])"
    using t False by (intro tail_empty_shrink) simp
  then have "av_rep nd ?v (butlast xs)"
    using filled_butlast_update [OF f False] by (simp add: av_rep_def)
  then show ?thesis
    using r False filled_read [OF f, of "length xs - 1"]
    by (auto simp: av_pop_def av_rep_def slot_take_def last_conv_nth Let_def intro!: exI [of _ ?v])
qed

lemma av_as_ref_spec: "av_rep nd v xs \<Longrightarrow> av_as_ref v = Returns xs"
  using filled_view [of "av_a v" xs] by (simp add: av_as_ref_def av_rep_def)

lemma av_as_bytes_spec: "av_rep nd v xs \<Longrightarrow> av_as_bytes False v = Returns xs"
  using filled_view [of "av_a v" xs] by (simp add: av_as_bytes_def av_rep_def)

lemma av_first_spec:
  "av_rep nd v xs \<Longrightarrow> av_first v = Returns (if xs = [] then None else Some (hd xs))"
  using filled_read [of "av_a v" xs 0] by (auto simp: av_first_def av_rep_def hd_conv_nth)

lemma av_last_spec:
  "av_rep nd v xs \<Longrightarrow> av_last v = Returns (if xs = [] then None else Some (last xs))"
  using filled_read [of "av_a v" xs "length xs - 1"]
  by (auto simp: av_last_def av_rep_def last_conv_nth)

lemma av_clear_spec:
  assumes r: "av_rep nd v xs"
  shows "\<exists>v'. av_clear nd v = Returns (if nd then xs else [], v') \<and> av_rep nd v' [] \<and> av_C v' = av_C v"
proof (cases nd)
  case False
  then show ?thesis using r by (simp add: av_clear_def av_rep_def tail_empty_def)
next
  case True
  have f: "filled (av_a v) xs" and s: "av_s v = length xs" using r by (simp_all add: av_rep_def)
  let ?a = "replicate (length xs) None @ drop (length xs) (av_a v)"
  have len: "length ?a = av_C v" using f by (simp add: filled_def)
  have tail: "tail_empty nd 0 ?a"
    using r True by (auto simp: av_rep_def tail_empty_def list_all_iff)
  have "av_clear nd v = Returns (xs, v\<lparr>av_a := ?a, av_s := 0\<rparr>)"
    using slots_drop_filled [OF f] True s by (simp add: av_clear_def)
  then show ?thesis
    using tail len True by (intro exI [of _ "v\<lparr>av_a := ?a, av_s := 0\<rparr>"]) (simp add: av_rep_def)
qed

lemma av_drop_spec: "av_rep nd v xs \<Longrightarrow> av_drop nd v = Returns (if nd then xs else [])"
  using slots_drop_filled [of "av_a v" xs] by (simp add: av_drop_def av_rep_def)

lemma push_slice_loop_spec:
  "filled a xs \<Longrightarrow> length xs + length ys \<le> length a \<Longrightarrow> tail_empty nd (length xs) a \<Longrightarrow>
   \<exists>a'. push_slice_loop a (length xs) ys = Returns a' \<and> filled a' (xs @ ys)
     \<and> tail_empty nd (length xs + length ys) a' \<and> length a' = length a"
proof (induction ys arbitrary: a xs)
  case (Cons y ys)
  have room: "length xs < length a" using Cons.prems by simp
  let ?a = "a[length xs := Some y]"
  have "filled ?a (xs @ [y])" by (rule filled_snoc [OF Cons.prems(1) room])
  moreover have "tail_empty nd (length (xs @ [y])) ?a"
    using tail_empty_grow [OF Cons.prems(3)] by simp
  ultimately show ?case
    using Cons.IH [of ?a "xs @ [y]"] Cons.prems(2) room by (simp add: slot_write_def)
qed simp

lemma av_push_slice_spec:
  assumes r: "av_rep nd v xs"
  shows "if length xs + length ys \<le> av_C v
    then \<exists>v'. av_push_slice v ys = Returns v' \<and> av_rep nd v' (xs @ ys) \<and> av_C v' = av_C v
    else av_push_slice v ys = Panics"
proof (cases "length xs + length ys \<le> av_C v")
  case False
  then show ?thesis using r by (simp add: av_push_slice_def av_rep_def Let_def)
next
  case True
  have "filled (av_a v) xs" "tail_empty nd (length xs) (av_a v)" using r by (simp_all add: av_rep_def)
  from push_slice_loop_spec [OF this(1) True this(2)]
  obtain a' where "push_slice_loop (av_a v) (length xs) ys = Returns a'" "filled a' (xs @ ys)"
    "tail_empty nd (length xs + length ys) a'" "length a' = av_C v" by blast
  then show ?thesis
    using r True
    by (auto simp: av_push_slice_def av_rep_def Let_def
        intro!: exI [of _ "v\<lparr>av_a := a', av_s := length xs + length ys\<rparr>"])
qed

lemma clone_loop_spec:
  "filled a xs \<Longrightarrow> filled tmp ys \<Longrightarrow> length ys + n = length xs \<Longrightarrow> length tmp = length a \<Longrightarrow>
   tail_empty nd (length ys) tmp \<Longrightarrow>
   \<exists>a'. clone_loop cl a tmp (length ys) n = Returns a' \<and> filled a' (ys @ map cl (drop (length ys) xs))
     \<and> length a' = length a \<and> tail_empty nd (length xs) a'"
proof (induction n arbitrary: tmp ys)
  case (Suc n)
  have i: "length ys < length a" "length ys < length xs" using Suc.prems by (auto simp: filled_def)
  let ?y = "cl (xs ! length ys)"
  let ?t = "tmp[length ys := Some ?y]"
  have "filled ?t (ys @ [?y])" using Suc.prems i by (intro filled_snoc) simp_all
  moreover have "tail_empty nd (length (ys @ [?y])) ?t" using tail_empty_grow [OF Suc.prems(5)] by simp
  moreover have "drop (length ys) xs = xs ! length ys # drop (Suc (length ys)) xs"
    using i by (simp add: Cons_nth_drop_Suc)
  ultimately show ?case
    using Suc.IH [of ?t "ys @ [?y]"] Suc.prems i filled_read [OF Suc.prems(1) i(2)]
    by (simp add: slot_write_def)
qed simp

lemma av_clone_spec:
  assumes r: "av_rep nd v xs"
  shows "\<exists>v'. av_clone cl v = Returns v' \<and> av_rep nd v' (map cl xs) \<and> av_C v' = av_C v"
proof -
  have f: "filled (av_a v) xs" and s: "av_s v = length xs" using r by (simp_all add: av_rep_def)
  have "tail_empty nd (length ([] :: 'a list)) (replicate (av_C v) None :: 'a slots)"
    by (simp add: tail_empty_def list_all_iff)
  from clone_loop_spec [OF f _ _ _ this, of "length xs" cl]
  obtain a' where "clone_loop cl (av_a v) (replicate (av_C v) None) 0 (length xs) = Returns a'"
    "filled a' (map cl xs)" "length a' = av_C v" "tail_empty nd (length xs) a'"
    by auto
  then show ?thesis
    by (intro exI [of _ "\<lparr>av_s = av_s v, av_a = a'\<rparr>"]) (simp add: av_clone_def av_rep_def s)
qed

lemma av_as_mut_spec:
  assumes r: "av_rep nd v xs" and f: "length (f xs) = length xs"
  shows "\<exists>v'. av_as_mut v f = Returns v' \<and> av_rep nd v' (f xs) \<and> av_C v' = av_C v"
proof -
  let ?a = "map Some (f xs) @ drop (length xs) (av_a v)"
  let ?v = "v\<lparr>av_a := ?a\<rparr>"
  have len: "length ?a = av_C v" using r f by (simp add: av_rep_def filled_def)
  then have "av_rep nd ?v (f xs)" using r f by (auto simp: av_rep_def filled_def tail_empty_def)
  then show ?thesis
    using filled_view [of "av_a v" xs] r len f
    by (intro exI [of _ ?v]) (simp add: av_as_mut_def put_region_def av_rep_def)
qed

lemma av_sort_spec:
  assumes "av_rep nd v xs"
  shows "\<exists>v'. av_sort v = Returns v' \<and> av_sort_unstable v = Returns v' \<and> av_rep nd v' (sort xs) \<and> av_C v' = av_C v"
  using av_as_mut_spec [OF assms, of sort] by (simp add: av_sort_def av_sort_unstable_def)

lemma av_iter_mut_spec:
  assumes "av_rep nd v xs"
  shows "\<exists>v'. av_iter_mut v f = Returns v' \<and> av_rep nd v' (map f xs) \<and> av_iter v' = Returns (map f xs)"
  using av_as_mut_spec [OF assms, of "map f"] av_as_ref_spec by (fastforce simp: av_iter_mut_def av_iter_def)

lemma push_each_spec:
  "av_rep nd v xs \<Longrightarrow> length xs + length ys \<le> av_C v \<Longrightarrow>
   \<exists>v'. push_each v ys = Returns v' \<and> av_rep nd v' (xs @ ys) \<and> av_C v' = av_C v"
proof (induction ys arbitrary: v xs)
  case (Cons y ys)
  then obtain v1 where "av_push v y = Returns v1" "av_rep nd v1 (xs @ [y])" "av_C v1 = av_C v"
    using av_push_room [of nd v xs y] by auto
  then show ?case using Cons.IH [of v1 "xs @ [y]"] Cons.prems by simp
qed auto

lemma av_C_new [simp]: "av_C (av_new C) = C"
  by (simp add: av_new_def)

lemma av_from_array_spec:
  "if length xs \<le> C
   then \<exists>v. av_from_array C cl xs = Returns v \<and> av_rep nd v (map cl xs) \<and> av_C v = C
   else av_from_array C cl xs = Panics"
  using push_each_spec [OF av_rep_new, of "map cl xs" C nd] by (auto simp: av_from_array_def)

section \<open>The container contract\<close>

interpretation av: bounded_container av_try_push "av_inv nd" av_list av_C OutOfCapacityError for nd
proof unfold_locales
  fix v :: "'a arrayvec" and x :: 'a
  assume "av_inv nd v"
  then have r: "av_rep nd v (av_list v)" by (rule av_rep_list)
  show "length (av_list v) \<le> av_C v" by (rule av_rep_length [OF r])
  show "\<exists>v'. av_try_push v x = Returns (Inr (), v') \<and> av_inv nd v' \<and> av_list v' = av_list v @ [x] \<and> av_C v' = av_C v"
    if "length (av_list v) < av_C v"
    using av_try_push_room [OF r that, of x] by (auto simp: av_rep_iff)
  show "av_try_push v x = Returns (Inl (OutOfCapacityError x), v)" if "length (av_list v) = av_C v"
    using av_try_push_full [OF r that] .
qed

lemma av_inv_new [simp]: "av_inv nd (av_new C)"
  using av_rep_new by (auto simp: av_rep_iff)

lemma av_list_new [simp]: "av_list (av_new C) = []"
  by (simp add: av_list_def av_new_def)

text \<open>The \<open>TryFrom\<close> conversions.\<close>

lemma push_all_clone:
  "push_all (\<lambda>tmp x. av_try_push tmp (cl x)) v xs = push_all av_try_push v (map cl xs)"
  by (induction xs arbitrary: v) (simp_all cong: sum.case_cong prod.case_cong)

lemma av_try_from_vec_spec:
  "if length xs \<le> C
   then \<exists>v. av_try_from_vec C xs = Returns (Inr v) \<and> av_rep nd v xs \<and> av_C v = C
   else av_try_from_vec C xs = Returns (Inl (OutOfCapacityError (xs ! C)))"
  using av.push_all_fits [of nd "av_new C" xs] av.push_all_full [of nd "av_new C" xs]
  by (auto simp: av_try_from_vec_def av_rep_iff)

text \<open>
  The \<open>TryFrom\<close> conversions keep every element in order, or return the first that does not fit; the
  ones that take a reference do the same on the clones.
\<close>

theorem av_try_from_spec:
  "av_try_from_slice C cl xs = av_try_from_vec C (map cl xs)
   \<and> av_try_from_vec_ref C cl xs = av_try_from_vec C (map cl xs)
   \<and> (if length xs \<le> C
      then \<exists>v. av_try_from_vec C xs = Returns (Inr v) \<and> av_rep nd v xs \<and> av_C v = C
      else av_try_from_vec C xs = Returns (Inl (OutOfCapacityError (xs ! C))))"
  using av_try_from_vec_spec [where xs = xs and C = C and nd = nd]
  by (simp add: av_try_from_slice_def av_try_from_vec_ref_def av_try_from_vec_def push_all_clone [of cl])

text \<open>The deserializer accepts what fits and reports the first error of the format otherwise.\<close>

lemma visit_seq_loop_elements:
  "av_inv nd v \<Longrightarrow> visit_seq_loop v (map Inr xs :: ('e + 'a) list)
   = (if length (av_list v) + length xs \<le> av_C v
      then obind (push_all av_try_push v xs) (\<lambda>(_, v'). Returns (Inr v'))
      else Returns (Inl (CustomError ''capacity exceeded'')))"
proof (induction xs arbitrary: v)
  case Nil
  have "length (av_list v) \<le> av_C v" using Nil by (rule av.bound)
  then show ?case by simp
next
  case (Cons x xs)
  show ?case
  proof (cases "length (av_list v) = av_C v")
    case True
    have "av_try_push v x = Returns (Inl (OutOfCapacityError x), v)" by (rule av.push_full [OF Cons.prems True])
    then show ?thesis using True by simp
  next
    case False
    have "length (av_list v) \<le> av_C v" using Cons.prems by (rule av.bound)
    then have "length (av_list v) < av_C v" using False by simp
    from av.push_room [OF Cons.prems this, of x] obtain v' where v':
      "av_try_push v x = Returns (Inr (), v')" "av_inv nd v'" "av_list v' = av_list v @ [x]" "av_C v' = av_C v"
      by blast
    have eq: "visit_seq_loop v (map Inr (x # xs) :: ('e + 'a) list) = visit_seq_loop v' (map Inr xs)"
      "push_all av_try_push v (x # xs) = push_all av_try_push v' xs" using v'(1) by simp_all
    have "length (av_list v) + length (x # xs) = length (av_list v') + length xs" using v'(3) by simp
    then show ?thesis unfolding eq using Cons.IH [OF v'(2)] v'(4) by simp
  qed
qed

text \<open>Deserializing the elements that \<open>serialize\<close> emits gives an equal vector.\<close>

theorem av_serde_roundtrip:
  assumes "av_inv nd v"
  shows "\<exists>xs v'. av_serialize v = Returns (length xs, xs) \<and> xs = av_list v
    \<and> av_visit_seq (av_C v) (map Inr xs :: ('e + 'a) list) = Returns (Inr v')
    \<and> av_inv nd v' \<and> av_eq v v' = Returns True"
proof -
  have r: "av_rep nd v (av_list v)" by (rule av_rep_list [OF assms])
  obtain v' where v': "push_all av_try_push (av_new (av_C v)) (av_list v) = Returns (Inr (), v')"
    "av_inv nd v'" "av_list v' = av_list v"
    using av.push_all_fits [of nd "av_new (av_C v)" "av_list v"] av_rep_length [OF r] by auto
  then have r': "av_rep nd v' (av_list v)" by (simp add: av_rep_iff)
  have "av_visit_seq (av_C v) (map Inr (av_list v) :: ('e + 'a) list) = Returns (Inr v')"
    using visit_seq_loop_elements [of nd "av_new (av_C v)" "av_list v"] av_rep_length [OF r] v'(1)
    by (simp add: av_visit_seq_def)
  moreover have "av_s v = length (av_list v)" using r by (simp add: av_rep_def)
  ultimately show ?thesis
    using av_as_ref_spec [OF r] av_as_ref_spec [OF r'] v'
    by (auto simp: av_serialize_def av_len_def av_eq_def)
qed

theorem av_serde_roundtrip_witness:
  "\<exists>v'. av_visit_seq 3 (map Inr [7, 8 :: nat] :: (nat + nat) list) = Returns (Inr v')
    \<and> av_eq \<lparr>av_s = 2, av_a = [Some 7, Some 8, None]\<rparr> v' = Returns True"
proof -
  have "av_inv True \<lparr>av_s = 2, av_a = [Some 7, Some 8, None :: nat option]\<rparr>"
    and "av_list \<lparr>av_s = 2, av_a = [Some 7, Some 8, None :: nat option]\<rparr> = [7, 8]"
    and "av_C \<lparr>av_s = 2, av_a = [Some 7, Some 8, None :: nat option]\<rparr> = 3"
    by code_simp+
  with av_serde_roundtrip [of True "\<lparr>av_s = 2, av_a = [Some 7, Some 8, None :: nat option]\<rparr>"]
  show ?thesis by (auto simp: numeral_3_eq_3)
qed

section \<open>The vector as a writer\<close>

lemma av_write_spec:
  assumes "av_inv nd v"
  shows "if length (av_list v) + length buf \<le> av_C v
    then \<exists>v'. av_write v buf = Returns (Inr (length buf), v') \<and> av_inv nd v'
      \<and> av_list v' = av_list v @ buf \<and> av_C v' = av_C v
    else \<exists>v'. av_write v buf = Returns (Inl (OtherError ''ArrayVec out of space''), v') \<and> av_inv nd v'
      \<and> av_list v' = av_list v @ take (av_C v - length (av_list v)) buf \<and> av_C v' = av_C v"
  using av.push_all_fits [OF assms, of buf] av.push_all_full [OF assms, of buf]
  by (auto simp: av_write_def)

definition av_write_all :: "u8 arrayvec write_all_fn" where
  "av_write_all = write_all_of av_write"

interpretation av_writer: writer av_write_all "av_inv nd" av_list "\<lambda>v n. length (av_list v) + n \<le> av_C v" for nd
proof unfold_locales
  fix v :: "u8 arrayvec" and bs
  assume i: "av_inv nd v"
  show "\<exists>v'. av_write_all v bs = Returns (Inr (), v') \<and> av_inv nd v' \<and> av_list v' = av_list v @ bs
      \<and> (\<forall>n. length (av_list v') + n \<le> av_C v' \<longleftrightarrow> length (av_list v) + (length bs + n) \<le> av_C v)"
    if "length (av_list v) + length bs \<le> av_C v"
    using av_write_spec [OF i, of bs] that i
    by (auto simp: av_write_all_def write_all_of.simps [of av_write v bs]
        write_all_of.simps [of av_write _ "[]"])
  show "\<exists>e v' k. av_write_all v bs = Returns (Inl e, v') \<and> av_inv nd v' \<and> k \<le> length bs
      \<and> av_list v' = av_list v @ take k bs"
    if s: "\<not> length (av_list v) + length bs \<le> av_C v"
  proof -
    have "bs \<noteq> []" using s av.bound [OF i] by auto
    moreover obtain v' where "av_write v bs = Returns (Inl (OtherError ''ArrayVec out of space''), v')"
      "av_inv nd v'" "av_list v' = av_list v @ take (av_C v - length (av_list v)) bs"
      using av_write_spec [OF i, of bs] s by auto
    ultimately show ?thesis
      using s by (intro exI [of _ "OtherError ''ArrayVec out of space''"] exI [of _ v']
          exI [of _ "av_C v - length (av_list v)"])
        (simp add: av_write_all_def write_all_of.simps [of av_write v bs])
  qed
  show "length (av_list v) + 0 \<le> av_C v" using av.bound [OF i] by simp
qed simp

section \<open>Sequences of operations\<close>

text \<open>
  Any client of the type is a sequence of its operations. A step returns the values that leave the
  vector: the one handed back by \<open>pop\<close> or a refused \<open>try_push\<close>, those destroyed by \<open>clear\<close>.
\<close>

datatype 'a av_op = Push 'a | TryPush 'a | PushSlice "'a list" | Pop | Clear

fun av_step :: "bool \<Rightarrow> 'a arrayvec \<Rightarrow> 'a av_op \<Rightarrow> ('a list \<times> 'a arrayvec) outcome" where
  "av_step nd v (Push x) = obind (av_push v x) (\<lambda>v'. Returns ([], v'))"
| "av_step nd v (TryPush x) =
     obind (av_try_push v x)
       (\<lambda>(r, v'). Returns (case r of Inl (OutOfCapacityError y) \<Rightarrow> [y] | Inr _ \<Rightarrow> [], v'))"
| "av_step nd v (PushSlice xs) = obind (av_push_slice v xs) (\<lambda>v'. Returns ([], v'))"
| "av_step nd v Pop =
     obind (av_pop v) (\<lambda>(r, v'). Returns (case r of None \<Rightarrow> [] | Some x \<Rightarrow> [x], v'))"
| "av_step nd v Clear = av_clear nd v"

fun av_run :: "bool \<Rightarrow> 'a arrayvec \<Rightarrow> 'a av_op list \<Rightarrow> ('a list \<times> 'a arrayvec) outcome" where
  "av_run nd v [] = Returns ([], v)"
| "av_run nd v (op # ops) =
     obind (av_step nd v op) (\<lambda>(out, v').
     obind (av_run nd v' ops) (\<lambda>(out', v''). Returns (out @ out', v'')))"

text \<open>The specification: a list of at most \<open>C\<close> elements.\<close>

fun bounded_step :: "bool \<Rightarrow> nat \<Rightarrow> 'a list \<Rightarrow> 'a av_op \<Rightarrow> ('a list \<times> 'a list) outcome" where
  "bounded_step nd C xs (Push x) = (if length xs < C then Returns ([], xs @ [x]) else Panics)"
| "bounded_step nd C xs (TryPush x) = Returns (if length xs < C then ([], xs @ [x]) else ([x], xs))"
| "bounded_step nd C xs (PushSlice ys) =
     (if length xs + length ys \<le> C then Returns ([], xs @ ys) else Panics)"
| "bounded_step nd C xs Pop = Returns (if xs = [] then ([], []) else ([last xs], butlast xs))"
| "bounded_step nd C xs Clear = Returns (if nd then xs else [], [])"

fun bounded_run :: "bool \<Rightarrow> nat \<Rightarrow> 'a list \<Rightarrow> 'a av_op list \<Rightarrow> ('a list \<times> 'a list) outcome" where
  "bounded_run nd C xs [] = Returns ([], xs)"
| "bounded_run nd C xs (op # ops) =
     obind (bounded_step nd C xs op) (\<lambda>(out, xs').
     obind (bounded_run nd C xs' ops) (\<lambda>(out', xs''). Returns (out @ out', xs'')))"

lemma av_step_refines:
  assumes r: "av_rep nd v xs"
  shows "case bounded_step nd (av_C v) xs op of
      Returns (out, ys) \<Rightarrow> \<exists>v'. av_step nd v op = Returns (out, v') \<and> av_rep nd v' ys \<and> av_C v' = av_C v
    | Panics \<Rightarrow> av_step nd v op = Panics
    | Undefined \<Rightarrow> False"
proof (cases op)
  case (Push x)
  then show ?thesis
    using av_push_room [OF r, of x] av_push_full [OF r, of x] av_rep_length [OF r]
    by (cases "length xs < av_C v") auto
next
  case (TryPush x)
  then show ?thesis
    using av_try_push_room [OF r, of x] av_try_push_full [OF r, of x] av_rep_length [OF r] r
    by (cases "length xs < av_C v") auto
next
  case (PushSlice ys)
  then show ?thesis
    using av_push_slice_spec [OF r, of ys] by (cases "length xs + length ys \<le> av_C v") auto
next
  case Pop
  then show ?thesis using av_pop_spec [OF r] r by (cases "xs = []") auto
next
  case Clear
  then show ?thesis using av_clear_spec [OF r] by auto
qed

lemma av_run_refines:
  "av_rep nd v xs \<Longrightarrow>
   case bounded_run nd (av_C v) xs ops of
      Returns (out, ys) \<Rightarrow> \<exists>v'. av_run nd v ops = Returns (out, v') \<and> av_rep nd v' ys \<and> av_C v' = av_C v
    | Panics \<Rightarrow> av_run nd v ops = Panics
    | Undefined \<Rightarrow> False"
proof (induction ops arbitrary: v xs)
  case (Cons op ops)
  show ?case
  proof (cases "bounded_step nd (av_C v) xs op")
    case (Returns p)
    then obtain out ys where s: "bounded_step nd (av_C v) xs op = Returns (out, ys)" by (cases p) auto
    then obtain v1 where v1: "av_step nd v op = Returns (out, v1)" "av_rep nd v1 ys" "av_C v1 = av_C v"
      using av_step_refines [OF Cons.prems, of op] by auto
    show ?thesis
      using Cons.IH [OF v1(2)] s v1
      by (cases "bounded_run nd (av_C v) ys ops") auto
  qed (use av_step_refines [OF Cons.prems, of op] in auto)
qed simp

text \<open>
  C7: On a vector made by \<open>new\<close>, every sequence of operations behaves as on a list of at most \<open>C\<close>
  elements: the same values come out, the same elements are left, it panics exactly where the
  list would overflow, and no unsafe access ever touches an empty or missing slot.
\<close>

theorem av_refines_bounded_list:
  "map_outcome (map_prod id av_list) (av_run nd (av_new C) ops) = bounded_run nd C [] ops
   \<and> av_run nd (av_new C) ops \<noteq> Undefined"
  using av_run_refines [OF av_rep_new, of nd C ops]
  by (cases "bounded_run nd C [] ops") (auto simp: av_rep_iff)

fun op_inputs :: "'a av_op \<Rightarrow> 'a list" where
  "op_inputs (Push x) = [x]"
| "op_inputs (TryPush x) = [x]"
| "op_inputs (PushSlice xs) = xs"
| "op_inputs Pop = []"
| "op_inputs Clear = []"

lemma bounded_step_accounted:
  "bounded_step True C xs op = Returns (out, ys) \<Longrightarrow> mset out + mset ys = mset xs + mset (op_inputs op)"
proof (cases op)
  case Pop
  have "mset xs = add_mset (last xs) (mset (butlast xs))" if "xs \<noteq> []"
    using arg_cong [OF append_butlast_last_id [OF that], of mset] by simp
  then show "bounded_step True C xs op = Returns (out, ys) \<Longrightarrow> ?thesis"
    using Pop by (auto split: if_splits)
qed (auto split: if_splits)

lemma bounded_run_accounted:
  "bounded_run True C xs ops = Returns (out, ys) \<Longrightarrow>
   mset out + mset ys = mset xs + mset (concat (map op_inputs ops))"
proof (induction ops arbitrary: xs out)
  case (Cons op ops)
  then obtain o1 xs' o2 where "bounded_step True C xs op = Returns (o1, xs')"
    "bounded_run True C xs' ops = Returns (o2, ys)" "out = o1 @ o2"
    by (auto simp: outcome_simps)
  then show ?case using bounded_step_accounted Cons.IH by (fastforce simp: ac_simps)
qed simp

text \<open>
  C8: For types that need dropping every value has one owner: what went in came out exactly once, or
  is still in the vector, where \<open>drop\<close> destroys it exactly once.
\<close>

theorem av_values_accounted:
  assumes "av_run True (av_new C) ops = Returns (out, v)"
  shows "\<exists>dropped. av_drop True v = Returns dropped
    \<and> mset out + mset dropped = mset (concat (map op_inputs ops))"
proof -
  have run: "bounded_run True C [] ops = Returns (out, av_list v)"
    using av_run_refines [OF av_rep_new, of True C ops] assms
    by (cases "bounded_run True C [] ops") (auto simp: av_rep_iff)
  then have "av_rep True v (av_list v)"
    using av_run_refines [OF av_rep_new, of True C ops] assms by (auto simp: av_rep_iff)
  from av_drop_spec [OF this] show ?thesis using bounded_run_accounted [OF run] by simp
qed

theorem av_values_accounted_witness:
  "\<exists>dropped. av_drop True \<lparr>av_s = 1, av_a = [Some 1, None]\<rparr> = Returns dropped
    \<and> mset [3, 2 :: nat] + mset dropped = mset (concat (map op_inputs [Push 1, Push 2, TryPush 3, Pop]))"
proof (rule av_values_accounted [of 2])
  show "av_run True (av_new 2) [Push 1, Push 2, TryPush 3, Pop]
    = Returns ([3, 2 :: nat], \<lparr>av_s = 1, av_a = [Some 1, None]\<rparr>)"
    by code_simp
qed

end
