(* ===== verification/RingBuffer.thy ===== *)
theory RingBuffer
  imports Slots "HOL-Library.Multiset"
begin

text \<open>
  The ring buffer of \<open>src/ringbuffer.rs\<close>: an array of \<open>C\<close> slots and a counter \<open>p\<close> of all
  elements ever added since the last \<open>clear\<close>, a \<open>usize\<close> (64 bits here) that wraps around. The
  element number \<open>k\<close> is stored in slot \<open>k mod C\<close>.
\<close>

section \<open>State and operations\<close>

record 'a ringbuffer =
  rb_a :: "'a slots"
  rb_p :: u64

abbreviation rb_C :: "'a ringbuffer \<Rightarrow> nat" where
  "rb_C b \<equiv> length (rb_a b)"

text \<open>\<open>new\<close> begins with a counter that is not initialised and sets it at once; by the rules of the
  language this is undefined in itself, the model has the effect it has on compilers.\<close>

definition rb_new :: "nat \<Rightarrow> 'a ringbuffer" where
  "rb_new C = \<lparr>rb_a = replicate C None, rb_p = 0\<rparr>"

definition rb_default :: "nat \<Rightarrow> 'a ringbuffer" where
  "rb_default C = rb_new C"

text \<open>\<open>p % C\<close>: the remainder by zero panics.\<close>

definition usize_rem :: "u64 \<Rightarrow> nat \<Rightarrow> nat outcome" where
  "usize_rem p C = (if C = 0 then Panics else Returns (unat p mod C))"

text \<open>
  \<open>add\<close> writes a slot that was never used without dropping it, or assigns to a slot in use, which
  drops the old value. The dropped values are the first component of the result.
\<close>

definition rb_add :: "'a ringbuffer \<Rightarrow> 'a \<Rightarrow> ('a list \<times> 'a ringbuffer) outcome" where
  "rb_add self o' =
     (let p = rb_p self in
      obind (if unat p < rb_C self
             then obind (slot_write (rb_a self) (unat p) o') (\<lambda>a. Returns ([], a))
             else obind (usize_rem p (rb_C self)) (\<lambda>i.
                  obind (slot_read (rb_a self) i) (\<lambda>old.
                  obind (slot_write (rb_a self) i o') (\<lambda>a. Returns ([old], a)))))
        (\<lambda>(dropped, a). Returns (dropped, self\<lparr>rb_a := a, rb_p := p + 1\<rparr>)))"

definition rb_clear :: "'a ringbuffer \<Rightarrow> ('a list \<times> 'a ringbuffer) outcome" where
  "rb_clear self =
     obind (slots_drop (rb_a self) (min (rb_C self) (unat (rb_p self))))
       (\<lambda>(dropped, a). Returns (dropped, self\<lparr>rb_a := a, rb_p := 0\<rparr>))"

definition rb_drop :: "'a ringbuffer \<Rightarrow> 'a list outcome" where
  "rb_drop self = obind (rb_clear self) (\<lambda>(dropped, _). Returns dropped)"

text \<open>The iterator holds the number of elements left and the number of the next one.\<close>

record rb_iterator =
  it_s :: u64
  it_i :: u64

definition rb_iter :: "'a ringbuffer \<Rightarrow> rb_iterator" where
  "rb_iter self =
     (let s = of_nat (min (rb_C self) (unat (rb_p self)))
      in \<lparr>it_s = s, it_i = rb_p self - s\<rparr>)"

definition rb_next :: "'a ringbuffer \<Rightarrow> rb_iterator \<Rightarrow> ('a option \<times> rb_iterator) outcome" where
  "rb_next b self =
     (let s = it_s self in
      if s > 0
      then let i = it_i self; self' = self\<lparr>it_s := s - 1, it_i := i + 1\<rparr> in
           obind (usize_rem i (rb_C b)) (\<lambda>j. obind (slot_read (rb_a b) j) (\<lambda>x. Returns (Some x, self')))
      else Returns (None, self))"

text \<open>A \<open>for\<close> loop over the iterator, at most \<open>n\<close> turns.\<close>

fun rb_collect :: "nat \<Rightarrow> 'a ringbuffer \<Rightarrow> rb_iterator \<Rightarrow> 'a list outcome" where
  "rb_collect 0 b it = Returns []"
| "rb_collect (Suc n) b it =
     obind (rb_next b it) (\<lambda>(r, it').
       case r of None \<Rightarrow> Returns [] | Some x \<Rightarrow> obind (rb_collect n b it') (\<lambda>xs. Returns (x # xs)))"

section \<open>The invariant\<close>

text \<open>
  \<open>rb_rep b xs\<close>: \<open>xs\<close> has been added since the buffer was last empty. The last \<open>C\<close> elements
  are in their slots, and a slot that was never used is empty.
\<close>

definition rb_rep :: "'a ringbuffer \<Rightarrow> 'a list \<Rightarrow> bool" where
  "rb_rep b xs \<longleftrightarrow> unat (rb_p b) = length xs
     \<and> (\<forall>k. length xs \<le> k + rb_C b \<longrightarrow> k < length xs \<longrightarrow> rb_a b ! (k mod rb_C b) = Some (xs ! k))
     \<and> (\<forall>k. length xs \<le> k \<longrightarrow> k < rb_C b \<longrightarrow> rb_a b ! k = None)"

text \<open>What an observer sees: the last \<open>C\<close> elements.\<close>

definition window :: "nat \<Rightarrow> 'a list \<Rightarrow> 'a list" where
  "window C xs = drop (length xs - C) xs"

lemma window_snoc:
  "window C (xs @ [x]) = (if C = 0 then [] else if length xs < C then xs @ [x] else tl (window C xs) @ [x])"
  by (auto simp: window_def tl_drop Suc_diff_le drop_Suc)

lemma length_window [simp]: "length (window C xs) = min C (length xs)"
  by (simp add: window_def)

lemma rb_rep_new: "rb_rep (rb_new C) []"
  by (simp add: rb_rep_def rb_new_def)

lemma mod_window_inj:
  assumes "n < k + C" and "k < n" and "k mod C = n mod (C :: nat)"
  shows False
proof -
  have "C dvd n - k" using assms mod_eq_dvd_iff_nat [of k n C] by simp
  with assms show False by (auto dest: dvd_imp_le)
qed

lemma rb_add_spec:
  assumes r: "rb_rep b xs" and C: "0 < rb_C b" and small: "Suc (length xs) < 2 ^ 64"
  shows "\<exists>b'. rb_add b x = Returns (if length xs < rb_C b then [] else [xs ! (length xs - rb_C b)], b')
     \<and> rb_rep b' (xs @ [x]) \<and> rb_C b' = rb_C b"
proof -
  let ?C = "rb_C b" and ?n = "length xs"
  let ?b = "b\<lparr>rb_a := (rb_a b)[?n mod ?C := Some x], rb_p := rb_p b + 1\<rparr>"
  have p: "unat (rb_p b) = ?n" using r by (simp add: rb_rep_def)
  have p': "unat (rb_p b + 1) = Suc ?n"
    using p small by (simp add: unat_word_ariths)
  have idx: "?n mod ?C < ?C" using C by simp
  have "rb_rep ?b (xs @ [x])"
    unfolding rb_rep_def
  proof (intro conjI allI impI)
    show "unat (rb_p ?b) = length (xs @ [x])" using p' by simp
    fix k
    assume k: "length (xs @ [x]) \<le> k + rb_C ?b" "k < length (xs @ [x])"
    show "rb_a ?b ! (k mod rb_C ?b) = Some ((xs @ [x]) ! k)"
    proof (cases "k = ?n")
      case True
      then show ?thesis using idx by simp
    next
      case False
      then have lt: "k < ?n" "?n < k + ?C" using k by simp_all
      then have "k mod ?C \<noteq> ?n mod ?C" using mod_window_inj by blast
      then show ?thesis using r lt by (simp add: rb_rep_def nth_append)
    qed
  next
    fix k
    assume k: "length (xs @ [x]) \<le> k" "k < rb_C ?b"
    then have "?n mod ?C \<noteq> k" by simp
    then show "rb_a ?b ! k = None" using r k by (simp add: rb_rep_def)
  qed
  moreover have "rb_add b x = Returns (if ?n < ?C then [] else [xs ! (?n - ?C)], ?b)"
  proof (cases "?n < ?C")
    case True
    then show ?thesis using p by (simp add: rb_add_def slot_write_def Let_def)
  next
    case False
    then have "?n - ?C < ?n" using C by linarith
    then have "rb_a b ! ((?n - ?C) mod ?C) = Some (xs ! (?n - ?C))"
      using r False unfolding rb_rep_def by simp
    moreover have "(?n - ?C) mod ?C = ?n mod ?C" using False by (simp add: le_mod_geq)
    ultimately show ?thesis
      using False p idx C by (simp add: rb_add_def slot_read_def slot_write_def usize_rem_def Let_def)
  qed
  ultimately show ?thesis by (intro exI [of _ ?b]) simp
qed

lemma rb_add_no_capacity: "rb_C b = 0 \<Longrightarrow> rb_add b x = Panics"
  by (simp add: rb_add_def usize_rem_def Let_def)

text \<open>The slots in use, as a list, hold the window up to the order.\<close>

lemma rb_slots_filled:
  assumes "rb_rep b xs"
  shows "\<exists>ys. filled (rb_a b) ys \<and> length ys = min (rb_C b) (length xs) \<and> mset ys = mset (window (rb_C b) xs)
    \<and> drop (length ys) (rb_a b) = replicate (rb_C b - length ys) None"
proof (cases "length xs \<le> rb_C b")
  case True
  have nth: "rb_a b ! k = Some (xs ! k)" if "k < length xs" for k
    using assms that True unfolding rb_rep_def by (metis add_leE le_add2 le_trans mod_less order_less_le_trans)
  have "take (length xs) (rb_a b) = map Some xs"
    using True nth by (intro nth_equalityI) simp_all
  moreover have "drop (length xs) (rb_a b) = replicate (rb_C b - length xs) None"
    using assms by (intro nth_equalityI) (simp_all add: rb_rep_def)
  ultimately show ?thesis
    using True by (intro exI [of _ xs]) (simp add: filled_def window_def)
next
  case False
  let ?C = "rb_C b" and ?m = "length xs - rb_C b"
  have rot: "rotate ?m (rb_a b) = map Some (window ?C xs)"
  proof (rule nth_equalityI)
    show "length (rotate ?m (rb_a b)) = length (map Some (window ?C xs))" using False by simp
    fix i assume "i < length (rotate ?m (rb_a b))"
    then have i: "i < ?C" by simp
    then have "rb_a b ! ((?m + i) mod ?C) = Some (xs ! (?m + i))"
      using assms False unfolding rb_rep_def by simp
    then show "rotate ?m (rb_a b) ! i = map Some (window ?C xs) ! i"
      using i False by (simp add: nth_rotate add.commute window_def)
  qed
  let ?ys = "map the (rb_a b)"
  have m: "mset (rb_a b) = mset (map Some (window ?C xs))"
  proof -
    have "mset (rotate n l) = mset l" for n and l :: "'a option list"
      by (metis append_take_drop_id mset_append rotate_drop_take union_commute)
    then show ?thesis by (metis rot)
  qed
  have "set (rb_a b) = Some ` set (window ?C xs)"
    using arg_cong [OF rot, of set] by simp
  then have f: "map Some ?ys = rb_a b" by (intro map_Some_the) (auto simp: list_all_iff)
  have "mset ?ys = image_mset the (mset (map Some (window ?C xs)))"
    by (simp only: mset_map m)
  then have "mset ?ys = mset (window ?C xs)" by (simp add: image_mset.compositionality comp_def)
  then show ?thesis
    using f False by (intro exI [of _ ?ys]) (simp add: filled_def)
qed

lemma rb_clear_spec:
  assumes r: "rb_rep b xs"
  shows "\<exists>out b'. rb_clear b = Returns (out, b') \<and> mset out = mset (window (rb_C b) xs)
    \<and> rb_rep b' [] \<and> rb_C b' = rb_C b"
proof -
  obtain ys where ys: "filled (rb_a b) ys" "length ys = min (rb_C b) (length xs)"
    "mset ys = mset (window (rb_C b) xs)"
    "drop (length ys) (rb_a b) = replicate (rb_C b - length ys) None"
    using rb_slots_filled [OF r] by blast
  have n: "min (rb_C b) (unat (rb_p b)) = length ys" using r ys(2) by (simp add: rb_rep_def)
  have a: "replicate (length ys) None @ drop (length ys) (rb_a b) = replicate (rb_C b) None"
    using ys(2,4) by (simp flip: replicate_add)
  let ?b = "b\<lparr>rb_a := replicate (rb_C b) None, rb_p := 0\<rparr>"
  have "rb_clear b = Returns (ys, ?b)"
    using slots_drop_filled [OF ys(1)] a by (simp add: rb_clear_def n)
  moreover have "rb_rep ?b []" by (simp add: rb_rep_def)
  ultimately show ?thesis using ys(3) by (intro exI [of _ ys] exI [of _ ?b]) simp
qed

section \<open>Iteration\<close>

lemma rb_collect_spec:
  "rb_rep b xs \<Longrightarrow> rb_C b < 2 ^ 64 \<Longrightarrow> k \<le> length xs \<Longrightarrow> length xs \<le> k + rb_C b \<Longrightarrow>
   it_s it = of_nat (length xs - k) \<Longrightarrow> it_i it = of_nat k \<Longrightarrow> length xs - k < n \<Longrightarrow>
   rb_collect n b it = Returns (drop k xs)"
proof (induction n arbitrary: k it)
  case (Suc n)
  have len: "length xs < 2 ^ 64"
    using Suc.prems(1) unsigned_less [where ?'a = nat, of "rb_p b"] by (simp add: rb_rep_def)
  show ?case
  proof (cases "k = length xs")
    case True
    then show ?thesis using Suc.prems by (simp add: rb_next_def)
  next
    case False
    then have lt: "k < length xs" using Suc.prems by simp
    have "unat (of_nat (length xs - k) :: u64) = length xs - k" "unat (of_nat k :: u64) = k"
      using len lt by (subst unat_of_nat; simp)+
    then have "unat (it_s it) = length xs - k" "unat (it_i it) = k"
      by (simp_all only: Suc.prems(5,6))
    then have s: "it_s it > 0" "unat (it_i it) = k" using lt by (simp_all add: word_less_nat_alt)
    have C: "0 < rb_C b" using lt Suc.prems(4) by linarith
    let ?it = "it\<lparr>it_s := it_s it - 1, it_i := it_i it + 1\<rparr>"
    have "rb_a b ! (k mod rb_C b) = Some (xs ! k)" using Suc.prems(1,4) lt unfolding rb_rep_def by simp
    then have next': "rb_next b it = Returns (Some (xs ! k), ?it)"
      using s C by (simp add: rb_next_def usize_rem_def slot_read_def Let_def)
    have "length xs - k = Suc (length xs - Suc k)" using lt by simp
    then have "it_s ?it = of_nat (length xs - Suc k)" using Suc.prems(5) by simp
    moreover have "it_i ?it = of_nat (Suc k)" using Suc.prems(6) by simp
    ultimately have "rb_collect n b ?it = Returns (drop (Suc k) xs)"
      using Suc.IH [of "Suc k" ?it] Suc.prems lt by simp
    then show ?thesis using next' lt by (simp add: Cons_nth_drop_Suc)
  qed
qed simp

lemma rb_iter_spec:
  assumes r: "rb_rep b xs" and C: "rb_C b < 2 ^ 64" and n: "min (rb_C b) (length xs) < n"
  shows "rb_collect n b (rb_iter b) = Returns (window (rb_C b) xs)"
proof -
  let ?k = "length xs - rb_C b"
  have p: "rb_p b = of_nat (length xs)" using r unfolding rb_rep_def by (metis of_nat_unat ucast_id)
  have s: "min (rb_C b) (length xs) = length xs - ?k" by simp
  have i: "rb_p b - of_nat (length xs - ?k) = of_nat ?k" by (simp add: p of_nat_diff)
  have "rb_collect n b (rb_iter b) = Returns (drop ?k xs)"
    using n r by (intro rb_collect_spec [OF r C])
      (auto simp: rb_iter_def Let_def s i rb_rep_def simp del: of_nat_diff)
  then show ?thesis by (simp add: window_def)
qed

section \<open>Sequences of operations\<close>

datatype 'a rb_op = Add 'a | ClearAll

fun rb_step :: "'a ringbuffer \<Rightarrow> 'a rb_op \<Rightarrow> ('a list \<times> 'a ringbuffer) outcome" where
  "rb_step b (Add x) = rb_add b x"
| "rb_step b ClearAll = rb_clear b"

fun rb_run :: "'a ringbuffer \<Rightarrow> 'a rb_op list \<Rightarrow> ('a list \<times> 'a ringbuffer) outcome" where
  "rb_run b [] = Returns ([], b)"
| "rb_run b (op # ops) =
     obind (rb_step b op) (\<lambda>(out, b').
     obind (rb_run b' ops) (\<lambda>(out', b''). Returns (out @ out', b'')))"

text \<open>What was added since the last \<open>clear\<close>, and everything ever added.\<close>

fun history :: "'a list \<Rightarrow> 'a rb_op list \<Rightarrow> 'a list" where
  "history xs [] = xs"
| "history xs (Add x # ops) = history (xs @ [x]) ops"
| "history xs (ClearAll # ops) = history [] ops"

fun added :: "'a rb_op list \<Rightarrow> 'a list" where
  "added [] = []"
| "added (Add x # ops) = x # added ops"
| "added (ClearAll # ops) = added ops"

lemma rb_run_rep:
  "rb_rep b xs \<Longrightarrow> 0 < rb_C b \<Longrightarrow> length xs + length ops < 2 ^ 64 \<Longrightarrow>
   \<exists>out b'. rb_run b ops = Returns (out, b') \<and> rb_rep b' (history xs ops) \<and> rb_C b' = rb_C b
     \<and> mset out + mset (window (rb_C b) (history xs ops)) = mset (window (rb_C b) xs) + mset (added ops)"
proof (induction ops arbitrary: b xs)
  case (Cons op ops)
  show ?case
  proof (cases op)
    case (Add x)
    let ?out = "if length xs < rb_C b then [] else [xs ! (length xs - rb_C b)]"
    have small: "Suc (length xs) < 2 ^ 64" using Cons.prems(3) by simp
    obtain b1 where b1: "rb_add b x = Returns (?out, b1)" "rb_rep b1 (xs @ [x])" "rb_C b1 = rb_C b"
      using rb_add_spec [OF Cons.prems(1,2) small, of x] by blast
    have w: "mset ?out + mset (window (rb_C b) (xs @ [x])) = add_mset x (mset (window (rb_C b) xs))"
    proof (cases "length xs < rb_C b")
      case True
      then show ?thesis by (simp add: window_def)
    next
      case False
      then have "length xs - rb_C b < length xs" using Cons.prems(2) by linarith
      then have "window (rb_C b) xs = xs ! (length xs - rb_C b) # tl (window (rb_C b) xs)"
        by (simp add: window_def Cons_nth_drop_Suc tl_drop drop_Suc flip: drop_Suc)
      then have "mset (window (rb_C b) xs)
        = add_mset (xs ! (length xs - rb_C b)) (mset (tl (window (rb_C b) xs)))"
        by (metis mset.simps(2))
      then show ?thesis using False Cons.prems(2) by (simp add: window_snoc)
    qed
    have len: "length (xs @ [x]) + length ops < 2 ^ 64" using Cons.prems(3) by simp
    have C: "0 < rb_C b1" using Cons.prems(2) b1(3) by simp
    obtain out b2 where b2: "rb_run b1 ops = Returns (out, b2)" "rb_rep b2 (history (xs @ [x]) ops)"
      "rb_C b2 = rb_C b1"
      "mset out + mset (window (rb_C b) (history (xs @ [x]) ops))
        = mset (window (rb_C b) (xs @ [x])) + mset (added ops)"
      using Cons.IH [OF b1(2) C len] b1(3) by auto
    have "mset (?out @ out) + mset (window (rb_C b) (history (xs @ [x]) ops))
       = mset ?out + mset (window (rb_C b) (xs @ [x])) + mset (added ops)"
      using b2(4) by (simp only: mset_append add.assoc)
    then show ?thesis
      unfolding w using Add b1 b2 by (intro exI [of _ "?out @ out"] exI [of _ b2]) simp
  next
    case ClearAll
    obtain o1 b1 where b1: "rb_clear b = Returns (o1, b1)" "mset o1 = mset (window (rb_C b) xs)"
      "rb_rep b1 []" "rb_C b1 = rb_C b"
      using rb_clear_spec [OF Cons.prems(1)] by blast
    have len: "length [] + length ops < 2 ^ 64" using Cons.prems(3) by simp
    have C: "0 < rb_C b1" using Cons.prems(2) b1(4) by simp
    obtain out b2 where b2: "rb_run b1 ops = Returns (out, b2)" "rb_rep b2 (history [] ops)"
      "rb_C b2 = rb_C b1"
      "mset out + mset (window (rb_C b) (history [] ops)) = mset (added ops)"
      using Cons.IH [OF b1(3) C len] b1(4) by (auto simp: window_def)
    then show ?thesis
      using ClearAll b1 by (intro exI [of _ "o1 @ out"] exI [of _ b2]) (simp add: ac_simps)
  qed
qed simp

text \<open>
  C9: A ring buffer of capacity at least one keeps the last \<open>C\<close> elements in the order they were
  added: after any operations the iterator yields exactly these, no unsafe access goes wrong, and
  every value is dropped exactly once, when it is displaced, cleared, or with the buffer.
\<close>

theorem rb_fifo:
  assumes "0 < C" and "C < 2 ^ 64" and "length ops < 2 ^ 64"
  shows "\<exists>out b dropped. rb_run (rb_new C) ops = Returns (out, b)
    \<and> rb_collect (Suc C) b (rb_iter b) = Returns (window C (history [] ops))
    \<and> rb_drop b = Returns dropped
    \<and> mset out + mset dropped = mset (added ops)"
proof -
  let ?b = "rb_new C :: 'a ringbuffer"
  have C: "rb_C ?b = C" by (simp add: rb_new_def)
  have "0 < rb_C ?b" "length [] + length ops < 2 ^ 64" using assms C by simp_all
  note run = rb_run_rep [OF rb_rep_new this, unfolded C]
  obtain out b where b: "rb_run (rb_new C) ops = Returns (out, b)" "rb_rep b (history [] ops)" "rb_C b = C"
    "mset out + mset (window C (history [] ops)) = mset (added ops)"
    using run by (auto simp: window_def)
  have "rb_collect (Suc C) b (rb_iter b) = Returns (window C (history [] ops))"
    using rb_iter_spec [OF b(2), of "Suc C"] assms(2) b(3) by (simp del: rb_collect.simps)
  moreover obtain dropped where "rb_drop b = Returns dropped" "mset dropped = mset (window C (history [] ops))"
    using rb_clear_spec [OF b(2)] b(3) by (auto simp: rb_drop_def)
  ultimately show ?thesis using b by auto
qed

theorem rb_fifo_witness:
  "\<exists>out b dropped. rb_run (rb_new 2) [Add 1, Add 2, Add (3 :: nat)] = Returns (out, b)
    \<and> rb_collect (Suc 2) b (rb_iter b) = Returns [2, 3]
    \<and> rb_drop b = Returns dropped \<and> mset out + mset dropped = mset [1, 2, 3]"
  using rb_fifo [of 2 "[Add 1, Add 2, Add (3 :: nat)]"] by (simp add: window_def)

text \<open>The counter wraps: after \<open>2 ^ 64\<close> additions a full buffer looks empty, and later additions
  overwrite its slots without dropping what they hold.\<close>

lemma rb_counter_wraps:
  assumes "rb_p b = - 1" and "rb_add b x = Returns (out, b')"
  shows "rb_p b' = 0 \<and> rb_collect n b' (rb_iter b') = Returns []"
proof -
  have p: "rb_p b' = 0"
    using assms by (auto simp: rb_add_def Let_def outcome_simps)
  then show ?thesis by (cases n) (simp_all add: rb_iter_def rb_next_def Let_def)
qed

end
