(* ===== verification/Buf.thy ===== *)
theory Buf
  imports Slots
begin

text \<open>
  The byte buffer of \<open>src/buf.rs\<close>: one allocation that starts with a header of two \<open>u32\<close>, the
  length and the capacity (whose top bit marks a buffer that belongs to a pool), followed by the
  data. A byte of the data is \<open>None\<close> until it has been written. Writes beyond the allocation and
  reads of bytes that were never written are \<open>Undefined\<close>. The allocator is taken to succeed.
\<close>

section \<open>State and operations\<close>

definition MAX_CAPACITY :: nat where
  "MAX_CAPACITY = 0x7fffffff"

definition BUFFER_HEADER_SIZE :: nat where
  "BUFFER_HEADER_SIZE = 8"

definition BUF_HDR_CAPACITY_POOLED_FLAG :: u32 where
  "BUF_HDR_CAPACITY_POOLED_FLAG = 0x80000000"

record buf =
  b_len :: u32
  b_cap :: u32
  b_data :: "u8 slots"

text \<open>\<open>copy_nonoverlapping\<close> and \<open>write_bytes\<close> to the data, without a check in the code.\<close>

definition data_write :: "u8 slots \<Rightarrow> nat \<Rightarrow> u8 list \<Rightarrow> u8 slots outcome" where
  "data_write d off bs =
     (if off + length bs \<le> length d then Returns (put_region off (map Some bs) d) else Undefined)"

definition valid_capacity :: "nat \<Rightarrow> bool" where
  "valid_capacity c \<longleftrightarrow> c \<le> MAX_CAPACITY \<and> c > 0 \<and> c mod 8 = 0"

definition buf_new :: "nat \<Rightarrow> buf outcome" where
  "buf_new buf_capacity =
     obind (assert_that (valid_capacity buf_capacity)) (\<lambda>_.
       Returns \<lparr>b_len = 0, b_cap = of_nat buf_capacity, b_data = replicate buf_capacity None\<rparr>)"

definition buf_len :: "buf \<Rightarrow> nat" where
  "buf_len self = unat (b_len self)"

definition buf_is_empty :: "buf \<Rightarrow> bool" where
  "buf_is_empty self = (b_len self = 0)"

definition buf_capacity :: "buf \<Rightarrow> nat" where
  "buf_capacity self = unat (b_cap self AND 0x7fffffff)"

definition buf_clear :: "buf \<Rightarrow> buf" where
  "buf_clear self = self\<lparr>b_len := 0\<rparr>"

definition buf_resize :: "buf \<Rightarrow> nat \<Rightarrow> u8 \<Rightarrow> buf outcome" where
  "buf_resize self new_size val =
     obind (assert_that (new_size \<le> buf_capacity self)) (\<lambda>_.
       let old_size = buf_len self;
           self' = self\<lparr>b_len := of_nat new_size\<rparr>
       in if new_size \<ge> old_size
          then obind (data_write (b_data self) old_size (replicate (new_size - old_size) val))
                 (\<lambda>d. Returns (self'\<lparr>b_data := d\<rparr>))
          else Returns self')"

definition buf_clear_and_resize :: "buf \<Rightarrow> nat \<Rightarrow> u8 \<Rightarrow> buf outcome" where
  "buf_clear_and_resize self new_size val =
     obind (assert_that (new_size \<le> buf_capacity self)) (\<lambda>_.
     obind (data_write (b_data self) 0 (replicate new_size val)) (\<lambda>d.
       Returns (self\<lparr>b_len := of_nat new_size, b_data := d\<rparr>)))"

text \<open>The unsafe \<open>set_size\<close> changes the length alone.\<close>

definition buf_set_size :: "buf \<Rightarrow> nat \<Rightarrow> buf" where
  "buf_set_size self new_size = self\<lparr>b_len := of_nat new_size\<rparr>"

definition buf_append :: "buf \<Rightarrow> u8 list \<Rightarrow> (bool \<times> buf) outcome" where
  "buf_append self buf =
     (let old_len = buf_len self; new_len = old_len + length buf in
      if new_len \<le> buf_capacity self
      then obind (data_write (b_data self) old_len buf)
             (\<lambda>d. Returns (True, self\<lparr>b_len := of_nat new_len, b_data := d\<rparr>))
      else Returns (False, self))"

definition buf_push :: "buf \<Rightarrow> u8 \<Rightarrow> (bool \<times> buf) outcome" where
  "buf_push self byte =
     (let old_len = buf_len self; new_len = old_len + 1 in
      if new_len \<le> buf_capacity self
      then obind (data_write (b_data self) old_len [byte])
             (\<lambda>d. Returns (True, self\<lparr>b_len := of_nat new_len, b_data := d\<rparr>))
      else Returns (False, self))"

definition buf_repeat :: "bool \<Rightarrow> buf \<Rightarrow> u64 \<Rightarrow> u8 \<Rightarrow> (bool \<times> buf) outcome" where
  "buf_repeat debug self num val =
     (let old_len = buf_len self in
      obind (usize_add debug old_len (unat num)) (\<lambda>new_len.
      if new_len \<le> buf_capacity self
      then obind (data_write (b_data self) old_len (replicate (unat num) val))
             (\<lambda>d. Returns (True, self\<lparr>b_len := of_nat new_len, b_data := d\<rparr>))
      else Returns (False, self)))"

text \<open>\<open>as_ref\<close> and \<open>as_mut\<close>: a slice of \<open>len\<close> bytes; \<open>as_slice\<close> and \<open>iter\<close> go through it.\<close>

definition buf_as_ref :: "buf \<Rightarrow> u8 list outcome" where
  "buf_as_ref self = slots_view (b_data self) (buf_len self)"

definition buf_as_slice :: "buf \<Rightarrow> u8 list outcome" where
  "buf_as_slice self = buf_as_ref self"

definition buf_iter :: "buf \<Rightarrow> u8 list outcome" where
  "buf_iter self = buf_as_slice self"

text \<open>Writing a slice back through \<open>as_mut\<close> changes the first \<open>len\<close> bytes in place.\<close>

definition buf_store :: "buf \<Rightarrow> u8 list \<Rightarrow> buf outcome" where
  "buf_store self bs = obind (data_write (b_data self) 0 bs) (\<lambda>d. Returns (self\<lparr>b_data := d\<rparr>))"

definition buf_index :: "buf \<Rightarrow> nat \<Rightarrow> u8 outcome" where
  "buf_index self i = obind (buf_as_slice self) (\<lambda>s. index s i)"

definition buf_index_range :: "buf \<Rightarrow> nat \<Rightarrow> nat \<Rightarrow> u8 list outcome" where
  "buf_index_range self start end' =
     obind (buf_as_slice self) (\<lambda>s.
       if start \<le> end' \<and> end' \<le> length s then Returns (get_region start (end' - start) s) else Panics)"

definition buf_index_mut :: "buf \<Rightarrow> nat \<Rightarrow> u8 \<Rightarrow> buf outcome" where
  "buf_index_mut self i v =
     obind (buf_as_slice self) (\<lambda>s. obind (index_set s i v) (\<lambda>s'. buf_store self s'))"

text \<open>\<open>copy_within\<close> of the slice: the range and the destination must lie inside the data.\<close>

definition buf_copy_within :: "buf \<Rightarrow> nat \<Rightarrow> nat \<Rightarrow> nat \<Rightarrow> buf outcome" where
  "buf_copy_within self start end' dest =
     obind (buf_as_slice self) (\<lambda>s.
       if start \<le> end' \<and> end' \<le> length s \<and> dest + (end' - start) \<le> length s
       then buf_store self (put_region dest (get_region start (end' - start) s) s)
       else Panics)"

definition buf_write :: "buf write_fn" where
  "buf_write self buf =
     obind (buf_append self buf)
       (\<lambda>(ok, self'). Returns
          (if ok then Inr (length buf) else Inl (OutOfMemory ''insufficient capacity''), self'))"

definition buf_flush :: "buf \<Rightarrow> (io_error + unit) \<times> buf" where
  "buf_flush self = (Inr (), self)"

definition buf_create_from :: "u8 list \<Rightarrow> buf outcome" where
  "buf_create_from buffer =
     obind (buf_new ((length buffer + 7) div 8 * 8)) (\<lambda>buf.
     obind (buf_append buf buffer) (\<lambda>(_, buf'). Returns buf'))"

definition buf_clone :: "buf \<Rightarrow> buf outcome" where
  "buf_clone self =
     obind (buf_new (buf_capacity self)) (\<lambda>c.
     obind (buf_as_slice self) (\<lambda>s.
     obind (buf_append c s) (\<lambda>(_, c'). Returns c')))"

definition buf_eq :: "buf \<Rightarrow> buf \<Rightarrow> bool outcome" where
  "buf_eq self other =
     obind (buf_as_slice self) (\<lambda>a. obind (buf_as_slice other) (\<lambda>b. Returns (a = b)))"

section \<open>Well-formed buffers\<close>

text \<open>\<open>buf_rep b xs\<close>: the first bytes of the data are initialised and are \<open>xs\<close>, and the header
  tells the size of the allocation.\<close>

definition buf_rep :: "buf \<Rightarrow> u8 list \<Rightarrow> bool" where
  "buf_rep b xs \<longleftrightarrow> buf_len b = length xs \<and> filled (b_data b) xs
     \<and> length (b_data b) = buf_capacity b \<and> valid_capacity (buf_capacity b)"

definition buf_list :: "buf \<Rightarrow> u8 list" where
  "buf_list b = map the (take (buf_len b) (b_data b))"

definition buf_inv :: "buf \<Rightarrow> bool" where
  "buf_inv b \<longleftrightarrow> buf_len b \<le> length (b_data b) \<and> list_all (\<lambda>s. s \<noteq> None) (take (buf_len b) (b_data b))
     \<and> length (b_data b) = buf_capacity b \<and> valid_capacity (buf_capacity b)"

lemma buf_rep_iff: "buf_rep b xs \<longleftrightarrow> buf_inv b \<and> buf_list b = xs"
proof
  assume r: "buf_rep b xs"
  then have "take (buf_len b) (b_data b) = map Some xs" by (simp add: buf_rep_def filled_def)
  then show "buf_inv b \<and> buf_list b = xs"
    using r by (simp add: buf_rep_def buf_inv_def buf_list_def filled_def list_all_iff comp_def)
next
  assume i: "buf_inv b \<and> buf_list b = xs"
  then have "length xs = buf_len b" by (auto simp: buf_list_def buf_inv_def)
  then show "buf_rep b xs"
    using i map_Some_the [of "take (buf_len b) (b_data b)"]
    by (auto simp: buf_rep_def buf_inv_def buf_list_def filled_def)
qed

lemma buf_rep_length: "buf_rep b xs \<Longrightarrow> length xs \<le> buf_capacity b"
  by (simp add: buf_rep_def filled_def)

lemma buf_rep_max: "buf_rep b xs \<Longrightarrow> buf_capacity b \<le> 0x7fffffff"
  by (simp add: buf_rep_def valid_capacity_def MAX_CAPACITY_def)

lemma capacity_update [simp]:
  "buf_capacity (b\<lparr>b_len := l\<rparr>) = buf_capacity b" "buf_capacity (b\<lparr>b_data := d\<rparr>) = buf_capacity b"
  by (simp_all add: buf_capacity_def)

lemma buf_len_update [simp]:
  "n \<le> 0x7fffffff \<Longrightarrow> buf_len (b\<lparr>b_len := of_nat n\<rparr>) = n"
  "buf_len (b\<lparr>b_data := d\<rparr>) = buf_len b"
  by (simp_all add: buf_len_def unat_of_nat)

text \<open>Every mutation ends in this step: bytes stored from \<open>off\<close> on, and a new length.\<close>

lemma filled_data_write:
  assumes "filled d xs" and "off \<le> length xs" and "off + length bs \<le> length d"
  shows "data_write d off bs = Returns (put_region off (map Some bs) d)
    \<and> filled (put_region off (map Some bs) d) (take off xs @ bs)
    \<and> length (put_region off (map Some bs) d) = length d"
proof -
  have "take off d = map Some (take off xs)"
    using assms by (metis filled_def min.absorb1 take_map take_take)
  then show ?thesis using assms by (simp add: data_write_def filled_def put_region_def)
qed

lemma buf_rep_write:
  assumes r: "buf_rep b xs" and off: "off \<le> length xs" and room: "off + length bs \<le> buf_capacity b"
  shows "\<exists>d. data_write (b_data b) off bs = Returns d
    \<and> buf_rep (b\<lparr>b_len := of_nat (off + length bs), b_data := d\<rparr>) (take off xs @ bs)"
proof -
  have f: "filled (b_data b) xs" "length (b_data b) = buf_capacity b" using r by (simp_all add: buf_rep_def)
  have "off + length bs \<le> 0x7fffffff" using room buf_rep_max [OF r] by simp
  then show ?thesis
    using filled_data_write [OF f(1) off, of bs] f(2) room r off
    by (auto simp: buf_rep_def simp del: of_nat_add)
qed

lemma buf_as_slice_spec: "buf_rep b xs \<Longrightarrow> buf_as_slice b = Returns xs"
  using filled_view [of "b_data b" xs] by (simp add: buf_as_slice_def buf_as_ref_def buf_rep_def)

lemma capacity_of_nat: "c \<le> MAX_CAPACITY \<Longrightarrow> unat ((of_nat c :: u32) AND 0x7fffffff) = c"
proof -
  assume c: "c \<le> MAX_CAPACITY"
  have m: "(0x7fffffff :: u32) = mask 31" by (simp add: mask_eq_exp_minus_1)
  have "unat ((of_nat c :: u32) AND mask 31) = take_bit 31 (unat (of_nat c :: u32))"
    by (simp add: unsigned_take_bit_eq flip: take_bit_eq_mask)
  then show ?thesis
    using c by (simp add: m MAX_CAPACITY_def unat_of_nat take_bit_nat_eq_self_iff)
qed

lemma buf_new_spec:
  "if valid_capacity c then \<exists>b. buf_new c = Returns b \<and> buf_rep b [] \<and> buf_capacity b = c \<and> b_cap b = of_nat c
   else buf_new c = Panics"
  using capacity_of_nat [of c]
  by (auto simp: buf_new_def buf_rep_def buf_len_def buf_capacity_def valid_capacity_def)

lemma buf_append_spec:
  assumes r: "buf_rep b xs"
  shows "if length xs + length bs \<le> buf_capacity b
    then \<exists>b'. buf_append b bs = Returns (True, b') \<and> buf_rep b' (xs @ bs) \<and> b_cap b' = b_cap b
    else buf_append b bs = Returns (False, b)"
  using buf_rep_write [OF r, of "length xs" bs] r
  by (auto simp: buf_append_def buf_rep_def Let_def)

lemma buf_push_append: "buf_push b x = buf_append b [x]"
  by (simp add: buf_push_def buf_append_def)

lemma buf_repeat_append:
  "buf_len b + unat n < 2 ^ 64 \<Longrightarrow> buf_repeat debug b n x = buf_append b (replicate (unat n) x)"
  by (simp add: buf_repeat_def buf_append_def usize_add_def Let_def)

text \<open>
  The count of \<open>repeat\<close> comes from the caller. If adding it to the length overflows, a build with
  overflow checks panics; without them the wrapped sum is below the capacity, and \<open>write_bytes\<close>
  runs past the end of the allocation.
\<close>

lemma buf_repeat_overflow:
  assumes r: "buf_rep b xs" and "2 ^ 64 \<le> length xs + unat n"
  shows "buf_repeat debug b n x = (if debug then Panics else Undefined)"
proof -
  have n: "unat n < 2 ^ 64" using unsigned_less [where ?'a = nat, of n] by simp
  have len: "buf_len b = length xs" "length (b_data b) = buf_capacity b" "length xs \<le> buf_capacity b"
    using r buf_rep_length [OF r] by (simp_all add: buf_rep_def)
  have cap: "buf_capacity b < 2 ^ 32"
    using unsigned_less [where ?'a = nat, of "b_cap b AND 0x7fffffff"] by (simp add: buf_capacity_def)
  have "(length xs + unat n) mod 2 ^ 64 = length xs + unat n - 2 ^ 64"
    using assms(2) n len cap by (simp add: mod_if)
  then have "(length xs + unat n) mod 2 ^ 64 \<le> buf_capacity b" using n len by linarith
  moreover have "\<not> length xs + unat n \<le> length (b_data b)" using assms(2) cap len by simp
  ultimately show ?thesis
    using assms(2) len(1) unfolding buf_repeat_def usize_add_def data_write_def Let_def
    by (simp del: power_numeral_even)
qed

lemma buf_resize_spec:
  assumes r: "buf_rep b xs"
  shows "if n \<le> buf_capacity b
    then \<exists>b'. buf_resize b n x = Returns b' \<and> buf_rep b' (take n xs @ replicate (n - length xs) x) \<and> b_cap b' = b_cap b
    else buf_resize b n x = Panics"
proof (cases "n \<le> buf_capacity b")
  case False
  then show ?thesis by (simp add: buf_resize_def)
next
  case n: True
  have len: "buf_len b = length xs" using r by (simp add: buf_rep_def)
  show ?thesis
  proof (cases "length xs \<le> n")
    case True
    then show ?thesis
      using buf_rep_write [OF r, of "length xs" "replicate (n - length xs) x"] n len
      by (auto simp: buf_resize_def Let_def)
  next
    case False
    then have "buf_rep (b\<lparr>b_len := of_nat n\<rparr>) (take n xs)"
      using r n buf_rep_max [OF r] filled_prefix [of "b_data b" "take n xs" "drop n xs"]
      by (simp add: buf_rep_def)
    then show ?thesis using False n len by (simp add: buf_resize_def Let_def)
  qed
qed

lemma buf_clear_and_resize_spec:
  assumes r: "buf_rep b xs"
  shows "if n \<le> buf_capacity b
    then \<exists>b'. buf_clear_and_resize b n x = Returns b' \<and> buf_rep b' (replicate n x) \<and> b_cap b' = b_cap b
    else buf_clear_and_resize b n x = Panics"
  using buf_rep_write [OF r, of 0 "replicate n x"] by (auto simp: buf_clear_and_resize_def)

lemma buf_clear_spec: "buf_rep b xs \<Longrightarrow> buf_rep (buf_clear b) [] \<and> b_cap (buf_clear b) = b_cap b"
  by (simp add: buf_rep_def buf_clear_def buf_len_def)

lemma buf_store_spec:
  assumes r: "buf_rep b xs" and len: "length ys = length xs"
  shows "\<exists>b'. buf_store b ys = Returns b' \<and> buf_rep b' ys \<and> b_cap b' = b_cap b"
  using buf_rep_write [OF r, of 0 ys] buf_rep_length [OF r] r len filled_data_write [of "b_data b" xs 0 ys]
  by (auto simp: buf_store_def buf_rep_def)

lemma buf_copy_within_spec:
  assumes r: "buf_rep b xs"
  shows "if i \<le> j \<and> j \<le> length xs \<and> k + (j - i) \<le> length xs
    then \<exists>b'. buf_copy_within b i j k = Returns b' \<and> buf_rep b' (put_region k (get_region i (j - i) xs) xs) \<and> b_cap b' = b_cap b
    else buf_copy_within b i j k = Panics"
  using buf_store_spec [OF r, of "put_region k (get_region i (j - i) xs) xs"] buf_as_slice_spec [OF r]
  by (auto simp: buf_copy_within_def)

lemma buf_index_mut_spec:
  assumes r: "buf_rep b xs"
  shows "if i < length xs
    then \<exists>b'. buf_index_mut b i x = Returns b' \<and> buf_rep b' (xs[i := x]) \<and> b_cap b' = b_cap b
    else buf_index_mut b i x = Panics"
  using buf_store_spec [OF r, of "xs[i := x]"] buf_as_slice_spec [OF r]
  by (auto simp: buf_index_mut_def)

lemma buf_clone_spec:
  assumes r: "buf_rep b xs"
  shows "\<exists>c. buf_clone b = Returns c \<and> buf_rep c xs \<and> buf_capacity c = buf_capacity b"
proof -
  have v: "valid_capacity (buf_capacity b)" using r by (simp add: buf_rep_def)
  then obtain c where c: "buf_new (buf_capacity b) = Returns c" "buf_rep c []" "buf_capacity c = buf_capacity b"
    using buf_new_spec [of "buf_capacity b"] by auto
  then obtain c' where "buf_append c xs = Returns (True, c')" "buf_rep c' xs" "b_cap c' = b_cap c"
    using buf_append_spec [OF c(2), of xs] buf_rep_length [OF r] by auto
  then show ?thesis
    using c buf_as_slice_spec [OF r] by (auto simp: buf_clone_def buf_capacity_def)
qed

text \<open>
  \<open>create_from\<close> rounds the length up to a multiple of eight. It returns a buffer holding the
  bytes, except that for the empty slice it asks for a buffer of capacity zero, which panics.
\<close>

theorem buf_create_from_spec:
  "if buffer = [] \<or> MAX_CAPACITY < (length buffer + 7) div 8 * 8
   then buf_create_from buffer = Panics
   else \<exists>b. buf_create_from buffer = Returns b \<and> buf_rep b buffer
     \<and> buf_capacity b = (length buffer + 7) div 8 * 8"
proof -
  let ?c = "(length buffer + 7) div 8 * 8"
  have v: "valid_capacity ?c \<longleftrightarrow> \<not> (buffer = [] \<or> MAX_CAPACITY < ?c)"
  proof (cases buffer)
    case (Cons x xs)
    then have "0 < ?c" by simp
    then show ?thesis using Cons by (auto simp: valid_capacity_def)
  qed (simp add: valid_capacity_def)
  show ?thesis
  proof (cases "valid_capacity ?c")
    case False
    then show ?thesis using buf_new_spec [of ?c] v by (simp add: buf_create_from_def)
  next
    case True
    then obtain b where b: "buf_new ?c = Returns b" "buf_rep b []" "buf_capacity b = ?c"
      using buf_new_spec [of ?c] by auto
    have "length buffer \<le> ?c" by presburger
    then obtain b' where "buf_append b buffer = Returns (True, b')" "buf_rep b' buffer" "b_cap b' = b_cap b"
      using buf_append_spec [OF b(2), of buffer] b(3) by auto
    then have "buf_create_from buffer = Returns b'" "buf_rep b' buffer" "buf_capacity b' = ?c"
      using b by (simp_all add: buf_create_from_def buf_capacity_def)
    then show ?thesis using True v by auto
  qed
qed

section \<open>Interfaces\<close>

lemma buf_rep_inv: "buf_inv b \<Longrightarrow> buf_rep b (buf_list b)"
  by (simp add: buf_rep_iff)

definition buf_try_push :: "buf \<Rightarrow> u8 \<Rightarrow> ((unit + unit) \<times> buf) outcome" where
  "buf_try_push b x = obind (buf_push b x) (\<lambda>(ok, b'). Returns (if ok then Inr () else Inl (), b'))"

lemma buf_capacity_cong: "b_cap b' = b_cap b \<Longrightarrow> buf_capacity b' = buf_capacity b"
  by (simp add: buf_capacity_def)

interpretation buf_container: bounded_container buf_try_push buf_inv buf_list buf_capacity "\<lambda>_. ()"
proof unfold_locales
  fix b x
  assume "buf_inv b"
  then have r: "buf_rep b (buf_list b)" by (rule buf_rep_inv)
  show "length (buf_list b) \<le> buf_capacity b" by (rule buf_rep_length [OF r])
  show "\<exists>b'. buf_try_push b x = Returns (Inr (), b') \<and> buf_inv b' \<and> buf_list b' = buf_list b @ [x]
      \<and> buf_capacity b' = buf_capacity b"
    if "length (buf_list b) < buf_capacity b"
    using buf_append_spec [OF r, of "[x]"] that
    by (auto simp: buf_try_push_def buf_push_append buf_rep_iff dest: buf_capacity_cong)
  show "buf_try_push b x = Returns (Inl (), b)" if "length (buf_list b) = buf_capacity b"
    using buf_append_spec [OF r, of "[x]"] that by (simp add: buf_try_push_def buf_push_append)
qed

definition buf_write_all :: "buf write_all_fn" where
  "buf_write_all = write_all_of buf_write"

interpretation buf_writer: writer buf_write_all buf_inv buf_list "\<lambda>b n. length (buf_list b) + n \<le> buf_capacity b"
proof unfold_locales
  fix b bs
  assume "buf_inv b"
  then have r: "buf_rep b (buf_list b)" by (rule buf_rep_inv)
  show "\<exists>b'. buf_write_all b bs = Returns (Inr (), b') \<and> buf_inv b' \<and> buf_list b' = buf_list b @ bs
      \<and> (\<forall>n. length (buf_list b') + n \<le> buf_capacity b' \<longleftrightarrow> length (buf_list b) + (length bs + n) \<le> buf_capacity b)"
    if "length (buf_list b) + length bs \<le> buf_capacity b"
    using buf_append_spec [OF r, of bs] that r
    by (auto simp: buf_write_all_def write_all_of.simps [of buf_write b bs] buf_write_def
        write_all_of.simps [of buf_write _ "[]"] buf_rep_iff buf_capacity_def add.assoc)
  show "\<exists>e b' k. buf_write_all b bs = Returns (Inl e, b') \<and> buf_inv b' \<and> k \<le> length bs
      \<and> buf_list b' = buf_list b @ take k bs"
    if s: "\<not> length (buf_list b) + length bs \<le> buf_capacity b"
  proof -
    have "bs \<noteq> []" using s buf_rep_length [OF r] by auto
    then show ?thesis
      using buf_append_spec [OF r, of bs] s \<open>buf_inv b\<close>
      by (intro exI [of _ "OutOfMemory ''insufficient capacity''"] exI [of _ b] exI [of _ 0])
        (simp add: buf_write_all_def write_all_of.simps [of buf_write b bs] buf_write_def)
  qed
  show "length (buf_list b) + 0 \<le> buf_capacity b" using buf_rep_length [OF r] by simp
qed simp

section \<open>Sequences of operations\<close>

datatype buf_op =
    BAppend "u8 list" | BPush u8 | BRepeat u64 u8 | BResize nat u8 | BClearResize nat u8
  | BClear | BCopyWithin nat nat nat | BSet nat u8

text \<open>A step returns whether the operation reported success.\<close>

fun buf_step :: "bool \<Rightarrow> buf \<Rightarrow> buf_op \<Rightarrow> (bool \<times> buf) outcome" where
  "buf_step debug b (BAppend bs) = buf_append b bs"
| "buf_step debug b (BPush x) = buf_push b x"
| "buf_step debug b (BRepeat n x) = buf_repeat debug b n x"
| "buf_step debug b (BResize n x) = obind (buf_resize b n x) (\<lambda>b'. Returns (True, b'))"
| "buf_step debug b (BClearResize n x) = obind (buf_clear_and_resize b n x) (\<lambda>b'. Returns (True, b'))"
| "buf_step debug b BClear = Returns (True, buf_clear b)"
| "buf_step debug b (BCopyWithin i j k) = obind (buf_copy_within b i j k) (\<lambda>b'. Returns (True, b'))"
| "buf_step debug b (BSet i x) = obind (buf_index_mut b i x) (\<lambda>b'. Returns (True, b'))"

fun buf_run :: "bool \<Rightarrow> buf \<Rightarrow> buf_op list \<Rightarrow> (bool list \<times> buf) outcome" where
  "buf_run debug b [] = Returns ([], b)"
| "buf_run debug b (op # ops) =
     obind (buf_step debug b op) (\<lambda>(ok, b').
     obind (buf_run debug b' ops) (\<lambda>(oks, b''). Returns (ok # oks, b'')))"

text \<open>The specification: a list of at most \<open>C\<close> bytes.\<close>

fun bytes_step :: "bool \<Rightarrow> nat \<Rightarrow> u8 list \<Rightarrow> buf_op \<Rightarrow> (bool \<times> u8 list) outcome" where
  "bytes_step debug C xs (BAppend bs) = Returns (if length xs + length bs \<le> C then (True, xs @ bs) else (False, xs))"
| "bytes_step debug C xs (BPush x) = Returns (if length xs < C then (True, xs @ [x]) else (False, xs))"
| "bytes_step debug C xs (BRepeat n x) =
     (if length xs + unat n < 2 ^ 64
      then Returns (if length xs + unat n \<le> C then (True, xs @ replicate (unat n) x) else (False, xs))
      else if debug then Panics else Undefined)"
| "bytes_step debug C xs (BResize n x) =
     (if n \<le> C then Returns (True, take n xs @ replicate (n - length xs) x) else Panics)"
| "bytes_step debug C xs (BClearResize n x) = (if n \<le> C then Returns (True, replicate n x) else Panics)"
| "bytes_step debug C xs BClear = Returns (True, [])"
| "bytes_step debug C xs (BCopyWithin i j k) =
     (if i \<le> j \<and> j \<le> length xs \<and> k + (j - i) \<le> length xs
      then Returns (True, put_region k (get_region i (j - i) xs) xs) else Panics)"
| "bytes_step debug C xs (BSet i x) = (if i < length xs then Returns (True, xs[i := x]) else Panics)"

fun bytes_run :: "bool \<Rightarrow> nat \<Rightarrow> u8 list \<Rightarrow> buf_op list \<Rightarrow> (bool list \<times> u8 list) outcome" where
  "bytes_run debug C xs [] = Returns ([], xs)"
| "bytes_run debug C xs (op # ops) =
     obind (bytes_step debug C xs op) (\<lambda>(ok, xs').
     obind (bytes_run debug C xs' ops) (\<lambda>(oks, xs''). Returns (ok # oks, xs'')))"

lemma buf_step_refines:
  assumes r: "buf_rep b xs"
  shows "case bytes_step debug (buf_capacity b) xs op of
      Returns (ok, ys) \<Rightarrow> \<exists>b'. buf_step debug b op = Returns (ok, b') \<and> buf_rep b' ys \<and> b_cap b' = b_cap b
    | Panics \<Rightarrow> buf_step debug b op = Panics
    | Undefined \<Rightarrow> buf_step debug b op = Undefined"
proof (cases op)
  case (BAppend bs)
  then show ?thesis using buf_append_spec [OF r, of bs] r by auto
next
  case (BPush x)
  then show ?thesis using buf_append_spec [OF r, of "[x]"] r by (auto simp: buf_push_append)
next
  case (BRepeat n x)
  have len: "buf_len b = length xs" using r by (simp add: buf_rep_def)
  show ?thesis
  proof (cases "length xs + unat n < 2 ^ 64")
    case True
    then have "buf_step debug b op = buf_append b (replicate (unat n) x)"
      using buf_repeat_append [of b n debug x] len BRepeat by simp
    then show ?thesis
      using True BRepeat buf_append_spec [OF r, of "replicate (unat n) x"] r by auto
  next
    case False
    then show ?thesis
      using buf_repeat_overflow [OF r, of n debug x] BRepeat by (cases debug) simp_all
  qed
next
  case (BResize n x)
  then show ?thesis using buf_resize_spec [OF r, of n x] by auto
next
  case (BClearResize n x)
  then show ?thesis using buf_clear_and_resize_spec [OF r, of n x] by auto
next
  case BClear
  then show ?thesis using buf_clear_spec [OF r] by auto
next
  case (BCopyWithin i j k)
  then show ?thesis using buf_copy_within_spec [OF r, of i j k] by auto
next
  case (BSet i x)
  then show ?thesis using buf_index_mut_spec [OF r, of i x] by auto
qed

lemma buf_run_refines:
  "buf_rep b xs \<Longrightarrow>
   case bytes_run debug (buf_capacity b) xs ops of
      Returns (oks, ys) \<Rightarrow> \<exists>b'. buf_run debug b ops = Returns (oks, b') \<and> buf_rep b' ys \<and> b_cap b' = b_cap b
    | Panics \<Rightarrow> buf_run debug b ops = Panics
    | Undefined \<Rightarrow> buf_run debug b ops = Undefined"
proof (induction ops arbitrary: b xs)
  case (Cons op ops)
  show ?case
  proof (cases "bytes_step debug (buf_capacity b) xs op")
    case (Returns p)
    then obtain ok ys where s: "bytes_step debug (buf_capacity b) xs op = Returns (ok, ys)" by (cases p) auto
    then obtain b1 where b1: "buf_step debug b op = Returns (ok, b1)" "buf_rep b1 ys" "b_cap b1 = b_cap b"
      using buf_step_refines [OF Cons.prems, of debug op] by auto
    show ?thesis
      using Cons.IH [OF b1(2)] s b1 buf_capacity_cong [OF b1(3)]
      by (cases "bytes_run debug (buf_capacity b) ys ops") auto
  qed (use buf_step_refines [OF Cons.prems, of debug op] in auto)
qed simp

text \<open>The counts for which \<open>repeat\<close> cannot overflow.\<close>

fun repeat_small :: "buf_op \<Rightarrow> bool" where
  "repeat_small (BRepeat n x) \<longleftrightarrow> unat n < 2 ^ 63"
| "repeat_small _ \<longleftrightarrow> True"

lemma bytes_run_safe:
  "length xs \<le> C \<Longrightarrow> C < 2 ^ 63 \<Longrightarrow> debug \<or> list_all repeat_small ops \<Longrightarrow> bytes_run debug C xs ops \<noteq> Undefined"
proof (induction ops arbitrary: xs)
  case (Cons op ops)
  have "bytes_step debug C xs op \<noteq> Undefined"
    using Cons.prems by (cases op) auto
  moreover have "length ys \<le> C" if "bytes_step debug C xs op = Returns (ok, ys)" for ok ys
    using that Cons.prems(1) by (cases op) (auto split: if_splits)
  moreover have "obind (bytes_run debug C ys ops) (\<lambda>(oks, xs''). Returns (ok # oks, xs'')) \<noteq> Undefined"
    if "length ys \<le> C" for ok ys
    using Cons.IH [OF that] Cons.prems(2,3) by (cases "bytes_run debug C ys ops") auto
  ultimately show ?case
    by (cases "bytes_step debug C xs op") auto
qed simp

text \<open>
  C6: On a new buffer every sequence of the safe operations behaves as on a list of at most
  \<open>capacity\<close> bytes: the same bytes are read back, an operation that reports failure leaves them
  as they were, and it panics exactly where the list specification does. No write leaves the
  allocation and no read sees a byte that was never written, except that \<open>repeat\<close> with a count
  that overflows writes out of bounds in a build without overflow checks.
\<close>

theorem buf_refines_bytes:
  assumes "valid_capacity c"
  shows "\<exists>b. buf_new c = Returns b
    \<and> obind (buf_run debug b ops) (\<lambda>(oks, b'). obind (buf_as_slice b') (\<lambda>s. Returns (oks, s)))
      = bytes_run debug c [] ops
    \<and> (debug \<or> list_all repeat_small ops \<longrightarrow> buf_run debug b ops \<noteq> Undefined)"
proof -
  obtain b where b: "buf_new c = Returns b" "buf_rep b []" "buf_capacity b = c"
    using buf_new_spec [of c] assms by auto
  have "c < 2 ^ 63" using assms by (simp add: valid_capacity_def MAX_CAPACITY_def)
  then have "debug \<or> list_all repeat_small ops \<longrightarrow> bytes_run debug c [] ops \<noteq> Undefined"
    using bytes_run_safe [of "[]" c debug ops] by simp
  then show ?thesis
    using buf_run_refines [OF b(2), of debug ops] b
    by (cases "bytes_run debug c [] ops") (auto dest!: buf_as_slice_spec)
qed

theorem buf_refines_bytes_witness:
  "\<exists>b. buf_new 8 = Returns b
    \<and> obind (buf_run False b [BAppend [1, 2, 3], BResize 5 9, BCopyWithin 0 2 3])
        (\<lambda>(oks, b'). obind (buf_as_slice b') (\<lambda>s. Returns (oks, s)))
      = Returns ([True, True, True], [1, 2, 3, 1, 2])"
proof -
  have v: "valid_capacity 8" by (simp add: valid_capacity_def MAX_CAPACITY_def)
  have "bytes_run False 8 [] [BAppend [1, 2, 3], BResize 5 9, BCopyWithin 0 2 3]
    = Returns ([True, True, True], [1, 2, 3, 1, 2])"
    by code_simp
  then show ?thesis
    using buf_refines_bytes [OF v, of False "[BAppend [1, 2, 3], BResize 5 9, BCopyWithin 0 2 3]"] by auto
qed

text \<open>
  C33: \<open>repeat\<close> on every branch. The check against the capacity is made on a sum that may have wrapped
  around, so with a count near \<open>usize::MAX\<close> safe code writes past the allocation when overflow
  checks are off.
\<close>

theorem buf_repeat_branches:
  assumes "buf_inv b"
  shows "(let n = length (buf_list b) + unat num in
      if 2 ^ 64 \<le> n then buf_repeat debug b num x = (if debug then Panics else Undefined)
      else if buf_capacity b < n then buf_repeat debug b num x = Returns (False, b)
      else \<exists>b'. buf_repeat debug b num x = Returns (True, b') \<and> buf_inv b'
        \<and> buf_list b' = buf_list b @ replicate (unat num) x)"
proof -
  have r: "buf_rep b (buf_list b)" by (rule buf_rep_inv [OF assms])
  then have "buf_len b = length (buf_list b)" by (simp add: buf_rep_def)
  then show ?thesis
    using buf_repeat_overflow [OF r, of num debug x] buf_repeat_append [of b num debug x]
      buf_append_spec [OF r, of "replicate (unat num) x"]
    by (auto simp: Let_def not_le buf_rep_iff simp del: power_numeral_even power_numeral_odd split: if_splits)
qed

theorem buf_repeat_branches_witness:
  "buf_repeat False \<lparr>b_len = 1, b_cap = 8, b_data = Some 5 # replicate 7 None\<rparr> (- 1) 0 = Undefined"
proof -
  let ?b = "\<lparr>b_len = 1, b_cap = 8, b_data = Some 5 # replicate 7 None\<rparr>"
  have "buf_capacity ?b = 8" by (simp add: buf_capacity_def)
  then have "buf_inv ?b" "length (buf_list ?b) = 1"
    by (simp_all add: buf_inv_def buf_list_def buf_len_def valid_capacity_def MAX_CAPACITY_def)
  moreover have "unat (- 1 :: u64) = 2 ^ 64 - 1" by (simp add: unsigned_minus_1_eq_mask mask_eq_exp_minus_1)
  ultimately show ?thesis using buf_repeat_branches [of ?b "- 1" False 0] by simp
qed

end
