(* ===== verification/Pool.thy ===== *)
theory Pool
  imports Buf
begin

text \<open>
  The buffer pool of \<open>src/buf.rs\<close>: one allocation holding the pool's control block, an array of
  pointers to the free buffers with a cursor into it, and the buffers. A \<open>Buf\<close> taken from the
  pool is an address inside that allocation; an individual one owns an allocation of its own.
  Every operation on the shared part runs under the pool's mutex, so that concurrent use is a
  sequence of steps; the step relation at the end allows any order. Touching the pool's memory
  after it was deallocated is \<open>Undefined\<close>.
\<close>

section \<open>State and operations\<close>

definition PTR_SIZE :: nat where
  "PTR_SIZE = 8"

record pool =
  pl_buf_capacity :: nat
  pl_array :: "nat list"     \<comment> \<open>\<open>pool_start .. pool_end\<close>\<close>
  pl_cursor :: nat           \<comment> \<open>the mutex: pool cursor, as an offset from \<open>pool_start\<close>\<close>
  pl_dropped :: bool         \<comment> \<open>the mutex: dropped flag\<close>
  pl_mem :: "nat \<Rightarrow> buf option"
  pl_freed :: bool           \<comment> \<open>\<open>PoolInner::dealloc\<close> was called\<close>

datatype handle = Pooled nat | Single buf

text \<open>The loop of \<open>Pool::new\<close> that carves the buffers out of the allocation, from \<open>ptr\<close> on.\<close>

definition size_of_each_buf :: "nat \<Rightarrow> nat" where
  "size_of_each_buf cap = cap + BUFFER_HEADER_SIZE + PTR_SIZE"

fun pool_carve :: "nat \<Rightarrow> nat \<Rightarrow> nat \<Rightarrow> nat list \<times> (nat \<Rightarrow> buf option)" where
  "pool_carve ptr cap 0 = ([], (\<lambda>_. None))"
| "pool_carve ptr cap (Suc n) =
     (let buf_start = ptr + PTR_SIZE;
          hdr = BUF_HDR_CAPACITY_POOLED_FLAG OR of_nat cap;
          (rest, mem) = pool_carve (ptr + size_of_each_buf cap) cap n
      in (buf_start # rest,
          mem(buf_start \<mapsto> \<lparr>b_len = 0, b_cap = hdr, b_data = replicate cap None\<rparr>)))"

text \<open>
  The size of the allocation, \<open>inner\<close> being the size of \<open>PoolInner\<close>: the arithmetic is on
  \<open>usize\<close>, in the order the code evaluates it.
\<close>

definition pool_layout_size :: "bool \<Rightarrow> nat \<Rightarrow> nat \<Rightarrow> nat \<Rightarrow> nat outcome" where
  "pool_layout_size debug inner cap n =
     obind (usize_mul debug PTR_SIZE n) (\<lambda>ptrs.
     obind (usize_add debug inner ptrs) (\<lambda>front.
     obind (usize_mul debug (size_of_each_buf cap) n) (\<lambda>bufs.
       usize_add debug front bufs)))"

text \<open>
  \<open>base\<close> is the address of the allocation. \<open>Layout::from_size_align_unchecked\<close> requires a size
  that does not exceed \<open>isize::MAX\<close> when rounded up to the alignment, and every pointer, header
  and data byte must lie inside the allocation.
\<close>

definition LAYOUT_MAX :: nat where
  "LAYOUT_MAX = 2 ^ 63 - PTR_SIZE"

definition pool_new :: "bool \<Rightarrow> nat \<Rightarrow> nat \<Rightarrow> nat \<Rightarrow> nat \<Rightarrow> pool outcome" where
  "pool_new debug base inner cap n =
     obind (assert_that (valid_capacity cap \<and> n > 0)) (\<lambda>_.
     obind (pool_layout_size debug inner cap n) (\<lambda>size.
       if size > LAYOUT_MAX then Undefined
       else
         let pool_start = base + inner;
             pool_end = pool_start + PTR_SIZE * n;
             (array, mem) = pool_carve pool_end cap n
         in if pool_end \<le> base + size \<and> list_all (\<lambda>a. a + BUFFER_HEADER_SIZE + cap \<le> base + size) array
            then Returns \<lparr>pl_buf_capacity = cap, pl_array = array, pl_cursor = n, pl_dropped = False,
                          pl_mem = mem, pl_freed = False\<rparr>
            else Undefined))"

definition pool_remaining :: "pool \<Rightarrow> nat" where
  "pool_remaining self = pl_cursor self"

definition pool_get :: "pool \<Rightarrow> (handle \<times> pool) outcome" where
  "pool_get self =
     (if pl_freed self then Undefined
      else if pl_cursor self \<noteq> 0
      then let c = pl_cursor self - 1 in
           if c < length (pl_array self)
           then Returns (Pooled (pl_array self ! c), self\<lparr>pl_cursor := c\<rparr>)
           else Undefined
      else obind (buf_new (pl_buf_capacity self)) (\<lambda>b. Returns (Single b, self)))"

definition pool_get_with_min_capacity :: "pool \<Rightarrow> nat \<Rightarrow> (handle \<times> pool) outcome" where
  "pool_get_with_min_capacity self min_capacity =
     (if pl_freed self then Undefined
      else if pl_buf_capacity self \<ge> min_capacity then pool_get self
      else obind (buf_new min_capacity) (\<lambda>b. Returns (Single b, self)))"

definition handle_buf :: "pool \<Rightarrow> handle \<Rightarrow> buf option" where
  "handle_buf p h = (case h of Pooled a \<Rightarrow> (if pl_freed p then None else pl_mem p a) | Single b \<Rightarrow> Some b)"

text \<open>An operation on the bytes of a buffer, through its pointer.\<close>

definition handle_update :: "pool \<Rightarrow> handle \<Rightarrow> buf \<Rightarrow> handle \<times> pool" where
  "handle_update p h b =
     (case h of Pooled a \<Rightarrow> (Pooled a, p\<lparr>pl_mem := (pl_mem p)(a \<mapsto> b)\<rparr>) | Single _ \<Rightarrow> (Single b, p))"

definition pool_create_from :: "pool \<Rightarrow> u8 list \<Rightarrow> (handle \<times> pool) outcome" where
  "pool_create_from self buffer =
     obind (pool_get_with_min_capacity self (length buffer)) (\<lambda>(h, p).
       case handle_buf p h of
         None \<Rightarrow> Undefined
       | Some b \<Rightarrow> obind (buf_append b buffer) (\<lambda>(_, b'). Returns (handle_update p h b')))"

definition is_pooled :: "buf \<Rightarrow> bool" where
  "is_pooled b \<longleftrightarrow> b_cap b AND BUF_HDR_CAPACITY_POOLED_FLAG \<noteq> 0"

text \<open>
  \<open>Drop for Buf\<close> looks at the flag in the header. Following the pointer back to the pool in front
  of an individual buffer, and deallocating in the middle of the pool, would be undefined.
\<close>

definition handle_drop :: "pool \<Rightarrow> handle \<Rightarrow> pool outcome" where
  "handle_drop p h =
     (case handle_buf p h of
        None \<Rightarrow> Undefined
      | Some b \<Rightarrow>
          if is_pooled b
          then case h of
                 Single _ \<Rightarrow> Undefined
               | Pooled a \<Rightarrow>
                   let p1 = p\<lparr>pl_mem := (pl_mem p)(a \<mapsto> buf_clear b)\<rparr> in
                   obind (assert_that (pl_cursor p1 \<noteq> length (pl_array p1))) (\<lambda>_.
                   if pl_cursor p1 < length (pl_array p1)
                   then let p2 = p1\<lparr>pl_array := (pl_array p1)[pl_cursor p1 := a], pl_cursor := pl_cursor p1 + 1\<rparr> in
                        Returns (if pl_cursor p2 = length (pl_array p2) \<and> pl_dropped p2
                                 then p2\<lparr>pl_freed := True\<rparr> else p2)
                   else Undefined)
          else case h of
                 Single _ \<Rightarrow> Returns p
               | Pooled _ \<Rightarrow> Undefined)"

definition pool_drop :: "pool \<Rightarrow> pool outcome" where
  "pool_drop self =
     (if pl_freed self then Undefined
      else if pl_cursor self = length (pl_array self) \<and> pl_dropped self
      then Returns (self\<lparr>pl_freed := True\<rparr>)
      else Returns (self\<lparr>pl_dropped := True\<rparr>))"

section \<open>The layout of a new pool\<close>

lemma pool_carve_addresses:
  "fst (pool_carve ptr cap n) = map (\<lambda>i. ptr + PTR_SIZE + i * size_of_each_buf cap) [0..<n]"
proof (induction n arbitrary: ptr)
  case (Suc n)
  have "map (\<lambda>i. ptr + PTR_SIZE + i * size_of_each_buf cap) [0..<Suc n]
    = (ptr + PTR_SIZE) # map (\<lambda>i. ptr + PTR_SIZE + Suc i * size_of_each_buf cap) [0..<n]"
    by (simp add: map_upt_Suc del: upt_Suc)
  then show ?case
    using Suc [of "ptr + size_of_each_buf cap"]
    by (cases "pool_carve (ptr + size_of_each_buf cap) cap n") (simp add: Let_def ac_simps del: upt_Suc)
qed simp

lemma pool_carve_mem:
  "snd (pool_carve ptr cap n) a =
     (if a \<in> set (fst (pool_carve ptr cap n))
      then Some \<lparr>b_len = 0, b_cap = BUF_HDR_CAPACITY_POOLED_FLAG OR of_nat cap, b_data = replicate cap None\<rparr>
      else None)"
proof (induction n arbitrary: ptr)
  case (Suc n)
  show ?case
    using Suc [of "ptr + size_of_each_buf cap"]
    by (cases "pool_carve (ptr + size_of_each_buf cap) cap n") (simp add: Let_def)
qed simp

text \<open>The size of the allocation as a number, without overflow.\<close>

definition pool_size :: "nat \<Rightarrow> nat \<Rightarrow> nat \<Rightarrow> nat" where
  "pool_size inner cap n = inner + PTR_SIZE * n + size_of_each_buf cap * n"

lemma pool_layout_size_spec:
  "pool_layout_size debug inner cap n =
     (if pool_size inner cap n < 2 ^ 64 then Returns (pool_size inner cap n)
      else if debug then Panics else Returns (pool_size inner cap n mod 2 ^ 64))"
proof (cases "pool_size inner cap n < 2 ^ 64")
  case True
  then have "PTR_SIZE * n < 2 ^ 64" "inner + PTR_SIZE * n < 2 ^ 64" "size_of_each_buf cap * n < 2 ^ 64"
    by (simp_all add: pool_size_def)
  then show ?thesis
    using True by (simp add: pool_layout_size_def usize_mul_def usize_add_def pool_size_def)
next
  case False
  show ?thesis
  proof (cases debug)
    case True
    then show ?thesis
      using False by (simp add: pool_layout_size_def usize_mul_def usize_add_def pool_size_def)
  next
    case no: False
    have "pool_layout_size False inner cap n
      = Returns (((inner + PTR_SIZE * n mod 2 ^ 64) mod 2 ^ 64 + size_of_each_buf cap * n mod 2 ^ 64) mod 2 ^ 64)"
      by (simp add: pool_layout_size_def usize_mul_def usize_add_def)
    then show ?thesis using False no by (simp add: pool_size_def mod_simps)
  qed
qed

lemma size_of_each_buf_pos [simp]: "0 < size_of_each_buf cap"
  by (simp add: size_of_each_buf_def PTR_SIZE_def)

text \<open>The buffers of an allocation of \<open>bytes\<close> bytes are inside it exactly if the last one is.\<close>

lemma carve_inside:
  assumes "0 < n"
  shows "(pool_end \<le> base + bytes
      \<and> list_all (\<lambda>a. a + BUFFER_HEADER_SIZE + cap \<le> base + bytes) (fst (pool_carve pool_end cap n)))
    \<longleftrightarrow> pool_end + size_of_each_buf cap * n \<le> base + bytes"
proof -
  let ?z = "size_of_each_buf cap"
  have z: "pool_end + PTR_SIZE + i * ?z + BUFFER_HEADER_SIZE + cap = pool_end + Suc i * ?z" for i
    by (simp add: size_of_each_buf_def)
  have "list_all (\<lambda>a. a + BUFFER_HEADER_SIZE + cap \<le> base + bytes) (fst (pool_carve pool_end cap n))
      \<longleftrightarrow> (\<forall>i<n. pool_end + Suc i * ?z \<le> base + bytes)"
    unfolding pool_carve_addresses list_all_iff by (auto simp: z simp del: mult_Suc)
  also have "\<dots> \<longleftrightarrow> pool_end + n * ?z \<le> base + bytes"
  proof
    assume "\<forall>i<n. pool_end + Suc i * ?z \<le> base + bytes"
    moreover have "n - 1 < n" "Suc (n - 1) = n" using assms by simp_all
    ultimately show "pool_end + n * ?z \<le> base + bytes" by metis
  next
    assume le: "pool_end + n * ?z \<le> base + bytes"
    have "Suc i * ?z \<le> n * ?z" if "i < n" for i using that by (intro mult_le_mono1) simp
    then show "\<forall>i<n. pool_end + Suc i * ?z \<le> base + bytes"
      using le by (meson add_le_cancel_left le_trans)
  qed
  finally show ?thesis by (auto simp: mult.commute)
qed

text \<open>What \<open>Pool::new\<close> does, by the true size of the allocation.\<close>

lemma pool_new_eq:
  "pool_new debug base inner cap n =
    (if \<not> (valid_capacity cap \<and> 0 < n) then Panics
     else if pool_size inner cap n \<le> LAYOUT_MAX
     then Returns \<lparr>pl_buf_capacity = cap, pl_array = fst (pool_carve (base + inner + PTR_SIZE * n) cap n),
            pl_cursor = n, pl_dropped = False,
            pl_mem = snd (pool_carve (base + inner + PTR_SIZE * n) cap n), pl_freed = False\<rparr>
     else if debug \<and> 2 ^ 64 \<le> pool_size inner cap n then Panics else Undefined)"
proof (cases "valid_capacity cap \<and> 0 < n")
  case True
  let ?T = "pool_size inner cap n" and ?e = "base + inner + PTR_SIZE * n"
  have L: "LAYOUT_MAX < 2 ^ 64" by (simp add: LAYOUT_MAX_def)
  have inside: "(?e \<le> base + bytes
      \<and> list_all (\<lambda>a. a + BUFFER_HEADER_SIZE + cap \<le> base + bytes) (fst (pool_carve ?e cap n))) \<longleftrightarrow> ?T \<le> bytes" for bytes
    using True carve_inside [of n ?e base bytes cap] by (simp add: pool_size_def add.assoc)
  have new: "pool_new debug base inner cap n = obind (pool_layout_size debug inner cap n) (\<lambda>size.
      if size > LAYOUT_MAX then Undefined
      else if ?T \<le> size
      then Returns \<lparr>pl_buf_capacity = cap, pl_array = fst (pool_carve ?e cap n), pl_cursor = n, pl_dropped = False,
             pl_mem = snd (pool_carve ?e cap n), pl_freed = False\<rparr>
      else Undefined)"
    using True unfolding pool_new_def Let_def inside [symmetric]
    by (cases "pool_carve ?e cap n") (simp cong: if_cong)
  have "?T mod 2 ^ 64 < ?T" if "\<not> ?T < 2 ^ 64" using that less_le_trans [of "?T mod 2 ^ 64" "2 ^ 64" ?T] by simp
  then show ?thesis
    using True L unfolding new pool_layout_size_spec by (cases "?T < 2 ^ 64") auto
qed (auto simp: pool_new_def assert_that_def)

text \<open>
  C34: \<open>Pool::new\<close> panics exactly on invalid arguments and where a build with overflow checks sees the
  size overflow. It does not check the size otherwise: beyond \<open>isize::MAX\<close> it has undefined behaviour.
\<close>

theorem pool_new_outcome:
  "(pool_new debug base inner cap n = Panics \<longleftrightarrow>
      (if valid_capacity cap \<and> 0 < n then debug \<and> 2 ^ 64 \<le> pool_size inner cap n else True))
   \<and> (pool_new debug base inner cap n = Undefined \<longleftrightarrow>
      valid_capacity cap \<and> 0 < n \<and> LAYOUT_MAX < pool_size inner cap n \<and> \<not> (debug \<and> 2 ^ 64 \<le> pool_size inner cap n))"
proof -
  have "\<not> 2 ^ 64 \<le> pool_size inner cap n" if "pool_size inner cap n \<le> LAYOUT_MAX"
    using that by (simp add: LAYOUT_MAX_def)
  then show ?thesis by (auto simp: pool_new_eq not_le)
qed

text \<open>
  Every buffer of a new pool, with the pointer in front of it, lies inside the allocation and
  behind the pointer array, the buffers do not overlap, and on an aligned allocation each is
  aligned for its header.
\<close>

theorem pool_layout_disjoint:
  assumes "pool_new debug base inner cap n = Returns p" and "i < n"
  shows "length (pl_array p) = n
    \<and> base + inner + PTR_SIZE * n \<le> pl_array p ! i - PTR_SIZE
    \<and> pl_array p ! i + BUFFER_HEADER_SIZE + cap \<le> base + pool_size inner cap n
    \<and> (Suc i < n \<longrightarrow> pl_array p ! i + BUFFER_HEADER_SIZE + cap = pl_array p ! Suc i - PTR_SIZE)
    \<and> (base mod 8 = 0 \<and> inner mod 8 = 0 \<longrightarrow> pl_array p ! i mod 8 = 0)"
proof -
  let ?e = "base + inner + PTR_SIZE * n" and ?z = "size_of_each_buf cap"
  have v: "valid_capacity cap" and arr: "pl_array p = map (\<lambda>i. ?e + PTR_SIZE + i * ?z) [0..<n]"
    using assms(1) by (auto simp: pool_new_eq pool_carve_addresses split: if_splits)
  have nth: "pl_array p ! j = ?e + PTR_SIZE + j * ?z" if "j < n" for j
    using that by (simp add: arr)
  have "(i + 1) * ?z \<le> n * ?z" using assms(2) by (intro mult_le_mono1) simp
  then have last: "i * ?z + ?z \<le> ?z * n" by (simp add: ac_simps)
  have z8: "?z mod 8 = 0"
    using v by (simp add: size_of_each_buf_def valid_capacity_def BUFFER_HEADER_SIZE_def PTR_SIZE_def mod_add_eq [symmetric])
  show ?thesis
  proof (intro conjI impI)
    show "length (pl_array p) = n" by (simp add: arr)
    show "?e \<le> pl_array p ! i - PTR_SIZE" using assms(2) by (simp add: nth)
    show "pl_array p ! i + BUFFER_HEADER_SIZE + cap \<le> base + pool_size inner cap n"
      using last assms(2) by (simp add: nth pool_size_def size_of_each_buf_def ac_simps)
    show "pl_array p ! i + BUFFER_HEADER_SIZE + cap = pl_array p ! Suc i - PTR_SIZE" if "Suc i < n"
      using that assms(2) by (simp add: nth size_of_each_buf_def)
    show "pl_array p ! i mod 8 = 0" if "base mod 8 = 0 \<and> inner mod 8 = 0"
    proof -
      have "8 dvd base" "8 dvd inner" "8 dvd ?z" using that z8 by (simp_all add: mod_eq_0_iff_dvd)
      then have "8 dvd ?e + PTR_SIZE + i * ?z" by (simp add: PTR_SIZE_def)
      then show ?thesis using assms(2) by (simp add: nth mod_eq_0_iff_dvd)
    qed
  qed
qed

section \<open>The life of a pool and its buffers\<close>

text \<open>The pool, whether its owner still has it, and the buffers clients hold.\<close>

record sys =
  sy_pool :: pool
  sy_owner :: bool
  sy_live :: "handle list"

inductive sys_step :: "sys \<Rightarrow> sys \<Rightarrow> bool" where
  get: "sy_owner s \<Longrightarrow> pool_get (sy_pool s) = Returns (h, p) \<Longrightarrow>
    sys_step s (s\<lparr>sy_pool := p, sy_live := h # sy_live s\<rparr>)"
| get_min: "sy_owner s \<Longrightarrow> pool_get_with_min_capacity (sy_pool s) n = Returns (h, p) \<Longrightarrow>
    sys_step s (s\<lparr>sy_pool := p, sy_live := h # sy_live s\<rparr>)"
| create_from: "sy_owner s \<Longrightarrow> pool_create_from (sy_pool s) bs = Returns (h, p) \<Longrightarrow>
    sys_step s (s\<lparr>sy_pool := p, sy_live := h # sy_live s\<rparr>)"
| new_buf: "buf_new c = Returns b \<Longrightarrow> sys_step s (s\<lparr>sy_live := Single b # sy_live s\<rparr>)"
| buf_from: "buf_create_from bs = Returns b \<Longrightarrow> sys_step s (s\<lparr>sy_live := Single b # sy_live s\<rparr>)"
| clone_buf: "h \<in> set (sy_live s) \<Longrightarrow> handle_buf (sy_pool s) h = Some b \<Longrightarrow> buf_clone b = Returns c \<Longrightarrow>
    sys_step s (s\<lparr>sy_live := Single c # sy_live s\<rparr>)"
| use_buf: "sy_live s = l @ h # l' \<Longrightarrow> handle_buf (sy_pool s) h = Some b \<Longrightarrow>
    buf_run debug b ops = Returns (oks, b') \<Longrightarrow> handle_update (sy_pool s) h b' = (h', p) \<Longrightarrow>
    sys_step s (s\<lparr>sy_pool := p, sy_live := l @ h' # l'\<rparr>)"
| drop_buf: "sy_live s = l @ h # l' \<Longrightarrow> handle_drop (sy_pool s) h = Returns p \<Longrightarrow>
    sys_step s (s\<lparr>sy_pool := p, sy_live := l @ l'\<rparr>)"
| drop_pool: "sy_owner s \<Longrightarrow> pool_drop (sy_pool s) = Returns p \<Longrightarrow>
    sys_step s (s\<lparr>sy_pool := p, sy_owner := False\<rparr>)"

inductive_cases sys_stepE: "sys_step s t"

inductive reachable :: "pool \<Rightarrow> sys \<Rightarrow> bool" for p0 where
  start: "reachable p0 \<lparr>sy_pool = p0, sy_owner = True, sy_live = []\<rparr>"
| step: "reachable p0 s \<Longrightarrow> sys_step s t \<Longrightarrow> reachable p0 t"

fun pooled :: "handle list \<Rightarrow> nat list" where
  "pooled [] = []"
| "pooled (Pooled a # hs) = a # pooled hs"
| "pooled (Single b # hs) = pooled hs"

lemma pooled_append [simp]: "pooled (xs @ ys) = pooled xs @ pooled ys"
  by (induction xs rule: pooled.induct) simp_all

lemma pooled_Cons: "pooled (h # hs) = pooled [h] @ pooled hs"
  by (cases h) simp_all

text \<open>A buffer as the pool made it, or as an individual allocation, with any content.\<close>

definition pooled_buf_ok :: "nat \<Rightarrow> buf \<Rightarrow> bool" where
  "pooled_buf_ok cap b \<longleftrightarrow> buf_inv b \<and> b_cap b = BUF_HDR_CAPACITY_POOLED_FLAG OR of_nat cap"

definition single_buf_ok :: "buf \<Rightarrow> bool" where
  "single_buf_ok b \<longleftrightarrow> buf_inv b \<and> \<not> is_pooled b"

definition free_list :: "pool \<Rightarrow> nat list" where
  "free_list p = take (pl_cursor p) (pl_array p)"

definition sys_inv :: "nat \<Rightarrow> nat \<Rightarrow> sys \<Rightarrow> bool" where
  "sys_inv cap n s \<longleftrightarrow>
     (let p = sy_pool s in
      length (pl_array p) = n \<and> pl_cursor p \<le> n \<and> 0 < n
      \<and> pl_buf_capacity p = cap \<and> valid_capacity cap
      \<and> (pl_dropped p \<longleftrightarrow> \<not> sy_owner s)
      \<and> distinct (free_list p @ pooled (sy_live s))
      \<and> pl_cursor p + length (pooled (sy_live s)) = n
      \<and> (pl_freed p \<longrightarrow> \<not> sy_owner s \<and> pooled (sy_live s) = [])
      \<and> (\<forall>a \<in> set (free_list p). \<exists>b. pl_mem p a = Some b \<and> pooled_buf_ok cap b \<and> buf_list b = [])
      \<and> (\<forall>a \<in> set (pooled (sy_live s)). \<exists>b. pl_mem p a = Some b \<and> pooled_buf_ok cap b)
      \<and> (\<forall>b. Single b \<in> set (sy_live s) \<longrightarrow> single_buf_ok b))"

subsection \<open>The header flag\<close>

lemma flag_bits:
  assumes "c \<le> MAX_CAPACITY"
  shows "(BUF_HDR_CAPACITY_POOLED_FLAG OR of_nat c) AND 0x7fffffff = (of_nat c AND 0x7fffffff :: u32)"
    and "(BUF_HDR_CAPACITY_POOLED_FLAG OR of_nat c) AND BUF_HDR_CAPACITY_POOLED_FLAG \<noteq> 0"
    and "of_nat c AND BUF_HDR_CAPACITY_POOLED_FLAG = 0"
proof -
  have F: "BUF_HDR_CAPACITY_POOLED_FLAG = 2 ^ 31" by (simp add: BUF_HDR_CAPACITY_POOLED_FLAG_def)
  have bF: "bit BUF_HDR_CAPACITY_POOLED_FLAG k \<longleftrightarrow> k = 31" for k
    unfolding F bit_exp_iff by auto
  have M: "(0x7fffffff :: u32) = mask 31" by (simp add: mask_eq_exp_minus_1)
  show "(BUF_HDR_CAPACITY_POOLED_FLAG OR of_nat c) AND 0x7fffffff = (of_nat c AND 0x7fffffff :: u32)"
    unfolding M by (rule bit_word_eqI) (auto simp: bit_simps bF)
  have "bit ((BUF_HDR_CAPACITY_POOLED_FLAG OR of_nat c) AND BUF_HDR_CAPACITY_POOLED_FLAG) 31"
    by (simp add: bit_simps bF)
  then show "(BUF_HDR_CAPACITY_POOLED_FLAG OR of_nat c) AND BUF_HDR_CAPACITY_POOLED_FLAG \<noteq> 0" by auto
  have c: "take_bit 31 c = c" using assms by (simp add: MAX_CAPACITY_def take_bit_nat_eq_self_iff)
  then have "\<not> bit c 31" by (metis bit_take_bit_iff less_irrefl)
  then show "of_nat c AND BUF_HDR_CAPACITY_POOLED_FLAG = 0"
    by (intro bit_word_eqI) (auto simp: bit_simps bF)
qed

lemma pooled_is_pooled: "pooled_buf_ok cap b \<Longrightarrow> valid_capacity cap \<Longrightarrow> is_pooled b"
  using flag_bits(2) [of cap] by (simp add: pooled_buf_ok_def is_pooled_def valid_capacity_def)

lemma pooled_capacity: "pooled_buf_ok cap b \<Longrightarrow> valid_capacity cap \<Longrightarrow> buf_capacity b = cap"
  using flag_bits(1) [of cap] capacity_of_nat [of cap]
  by (simp add: pooled_buf_ok_def buf_capacity_def valid_capacity_def)

lemma new_single_ok: "buf_new c = Returns b \<Longrightarrow> single_buf_ok b \<and> buf_capacity b = c \<and> buf_list b = []"
  using buf_new_spec [of c] flag_bits(3) [of c]
  by (auto simp: single_buf_ok_def is_pooled_def buf_rep_iff valid_capacity_def split: if_splits)

lemma run_keeps:
  assumes "buf_inv b" and "buf_run debug b ops = Returns (oks, b')"
  shows "buf_inv b' \<and> b_cap b' = b_cap b"
  using buf_run_refines [OF buf_rep_inv [OF assms(1)], of debug ops] assms(2)
  by (auto simp: buf_rep_iff split: outcome.splits)

lemma run_pooled_ok: "pooled_buf_ok cap b \<Longrightarrow> buf_run debug b ops = Returns (oks, b') \<Longrightarrow> pooled_buf_ok cap b'"
  using run_keeps by (auto simp: pooled_buf_ok_def)

lemma run_single_ok: "single_buf_ok b \<Longrightarrow> buf_run debug b ops = Returns (oks, b') \<Longrightarrow> single_buf_ok b'"
  using run_keeps by (auto simp: single_buf_ok_def is_pooled_def)

lemma append_single_ok: "single_buf_ok b \<Longrightarrow> buf_append b bs = Returns (ok, b') \<Longrightarrow> single_buf_ok b'"
  using run_single_ok [of b False "[BAppend bs]" "[ok]" b'] by simp

text \<open>A copy of a buffer, of the pool or not, and a buffer made from a slice are individual ones.\<close>

lemma clone_single_ok: "buf_clone b = Returns c \<Longrightarrow> single_buf_ok c"
  by (auto simp: buf_clone_def outcome_simps dest: new_single_ok intro: append_single_ok)

lemma create_from_single_ok: "buf_create_from bs = Returns b \<Longrightarrow> single_buf_ok b"
  by (auto simp: buf_create_from_def outcome_simps dest: new_single_ok intro: append_single_ok)

lemma clear_pooled_ok: "pooled_buf_ok cap b \<Longrightarrow> pooled_buf_ok cap (buf_clear b) \<and> buf_list (buf_clear b) = []"
  using buf_clear_spec [of b "buf_list b"] by (simp add: pooled_buf_ok_def buf_rep_iff)

subsection \<open>The invariant\<close>

lemma pool_new_inv:
  assumes "pool_new debug base inner cap n = Returns p"
  shows "sys_inv cap n \<lparr>sy_pool = p, sy_owner = True, sy_live = []\<rparr>"
proof -
  let ?e = "base + inner + PTR_SIZE * n" and ?z = "size_of_each_buf cap"
  let ?b = "\<lparr>b_len = 0, b_cap = BUF_HDR_CAPACITY_POOLED_FLAG OR of_nat cap, b_data = replicate cap None\<rparr>"
  have v: "valid_capacity cap" "0 < n"
    and p: "p = \<lparr>pl_buf_capacity = cap, pl_array = fst (pool_carve ?e cap n), pl_cursor = n,
      pl_dropped = False, pl_mem = snd (pool_carve ?e cap n), pl_freed = False\<rparr>"
    using assms by (auto simp: pool_new_eq split: if_splits)
  let ?arr = "map (\<lambda>i. ?e + PTR_SIZE + i * ?z) [0..<n]"
  have arr: "pl_array p = ?arr" by (simp add: p pool_carve_addresses)
  have dist: "distinct ?arr" by (simp add: distinct_map inj_on_def size_of_each_buf_def PTR_SIZE_def)
  have cap: "unat (b_cap ?b AND 0x7fffffff) = cap"
    using flag_bits(1) [of cap] capacity_of_nat [of cap] v by (simp add: valid_capacity_def)
  have ok: "pooled_buf_ok cap ?b \<and> buf_list ?b = []"
    using cap v
    by (simp add: pooled_buf_ok_def buf_inv_def buf_list_def buf_len_def buf_capacity_def)
  have mem: "pl_mem p a = Some ?b" if "a \<in> set ?arr" for a
    using that pool_carve_mem [of ?e cap n a] by (simp add: p pool_carve_addresses)
  have fl: "free_list p = ?arr" by (simp add: free_list_def arr) (simp add: p)
  have "\<forall>a \<in> set (free_list p). \<exists>b. pl_mem p a = Some b \<and> pooled_buf_ok cap b \<and> buf_list b = []"
    unfolding fl using mem ok by blast
  then show ?thesis
    using v dist unfolding sys_inv_def Let_def by (simp add: fl) (simp add: p pool_carve_addresses)
qed

lemma take_cursor: "0 < c \<Longrightarrow> c \<le> length xs \<Longrightarrow> take c xs = take (c - 1) xs @ [xs ! (c - 1)]"
  by (cases c) (simp_all add: take_Suc_conv_app_nth)

lemma pool_get_same:
  "pool_get q = Returns (h, p) \<Longrightarrow> pl_freed p = pl_freed q \<and> pl_mem p = pl_mem q"
  by (auto simp: pool_get_def Let_def outcome_simps split: if_splits)

lemma get_inv:
  assumes inv: "sys_inv cap n s" and own: "sy_owner s" and g: "pool_get (sy_pool s) = Returns (h, p)"
  shows "sys_inv cap n (s\<lparr>sy_pool := p, sy_live := h # sy_live s\<rparr>)"
    and "\<exists>b. handle_buf p h = Some b \<and> buf_inv b \<and> buf_capacity b = cap \<and> buf_list b = []"
proof -
  let ?p = "sy_pool s" and ?c = "pl_cursor (sy_pool s)"
  have nf: "\<not> pl_freed ?p" using inv own by (auto simp: sys_inv_def Let_def)
  have v: "valid_capacity cap" using inv by (simp add: sys_inv_def Let_def)
  show "sys_inv cap n (s\<lparr>sy_pool := p, sy_live := h # sy_live s\<rparr>)"
    and "\<exists>b. handle_buf p h = Some b \<and> buf_inv b \<and> buf_capacity b = cap \<and> buf_list b = []"
  proof (atomize (full), cases "?c = 0")
    case True
    then obtain b where b: "buf_new cap = Returns b" "h = Single b" "p = ?p"
      using g nf inv by (auto simp: pool_get_def outcome_simps sys_inv_def Let_def)
    then show "sys_inv cap n (s\<lparr>sy_pool := p, sy_live := h # sy_live s\<rparr>)
        \<and> (\<exists>b. handle_buf p h = Some b \<and> buf_inv b \<and> buf_capacity b = cap \<and> buf_list b = [])"
      using inv new_single_ok [OF b(1)] by (auto simp: sys_inv_def Let_def handle_buf_def single_buf_ok_def)
  next
    case False
    let ?a = "pl_array ?p ! (?c - 1)"
    have c: "0 < ?c" "?c \<le> length (pl_array ?p)" using False inv by (simp_all add: sys_inv_def Let_def)
    have hp: "h = Pooled ?a" "p = ?p\<lparr>pl_cursor := ?c - 1\<rparr>"
      using g nf False c by (auto simp: pool_get_def Let_def split: if_splits)
    have fl: "free_list ?p = free_list p @ [?a]"
      using take_cursor [OF c] by (simp add: free_list_def hp)
    obtain b where b: "pl_mem ?p ?a = Some b" "pooled_buf_ok cap b" "buf_list b = []"
      using inv unfolding sys_inv_def Let_def fl by auto
    have "sys_inv cap n (s\<lparr>sy_pool := p, sy_live := h # sy_live s\<rparr>)"
      using inv b c nf unfolding sys_inv_def Let_def fl by (auto simp: hp)
    then show "sys_inv cap n (s\<lparr>sy_pool := p, sy_live := h # sy_live s\<rparr>)
        \<and> (\<exists>b. handle_buf p h = Some b \<and> buf_inv b \<and> buf_capacity b = cap \<and> buf_list b = [])"
      using b nf pooled_capacity [OF b(2) v] by (auto simp: handle_buf_def hp pooled_buf_ok_def)
  qed
qed

lemma get_returns:
  assumes "sys_inv cap n s" and "sy_owner s"
  shows "\<exists>h p. pool_get (sy_pool s) = Returns (h, p)"
  using assms buf_new_spec [of cap]
  by (auto simp: sys_inv_def Let_def pool_get_def outcome_simps)

lemma get_min_inv:
  assumes inv: "sys_inv cap n s" and own: "sy_owner s"
    and g: "pool_get_with_min_capacity (sy_pool s) m = Returns (h, p)"
  shows "sys_inv cap n (s\<lparr>sy_pool := p, sy_live := h # sy_live s\<rparr>)
    \<and> (\<exists>b. handle_buf p h = Some b \<and> buf_inv b \<and> m \<le> buf_capacity b \<and> buf_list b = [])"
proof (cases "m \<le> cap")
  case True
  then have "pool_get (sy_pool s) = Returns (h, p)"
    using g inv by (auto simp: pool_get_with_min_capacity_def sys_inv_def Let_def split: if_splits)
  then show ?thesis using get_inv [OF inv own] True by fastforce
next
  case False
  then obtain b where b: "buf_new m = Returns b" "h = Single b" "p = sy_pool s"
    using g inv by (auto simp: pool_get_with_min_capacity_def sys_inv_def Let_def outcome_simps split: if_splits)
  then show ?thesis
    using inv new_single_ok [OF b(1)] by (auto simp: sys_inv_def Let_def handle_buf_def single_buf_ok_def)
qed

lemma use_inv:
  assumes inv: "sys_inv cap n s" and l: "sy_live s = l @ h # l'"
    and b: "handle_buf (sy_pool s) h = Some b" and r: "buf_run debug b ops = Returns (oks, b')"
    and u: "handle_update (sy_pool s) h b' = (h', p)"
  shows "sys_inv cap n (s\<lparr>sy_pool := p, sy_live := l @ h' # l'\<rparr>)"
proof (cases h)
  case (Single c)
  then have c: "c = b" "h' = Single b'" "p = sy_pool s"
    using b u by (simp_all add: handle_buf_def handle_update_def)
  have "single_buf_ok b" using inv l Single c by (auto simp: sys_inv_def Let_def)
  from run_single_ok [OF this r] show ?thesis
    using inv l Single c by (auto simp: sys_inv_def Let_def)
next
  case (Pooled a)
  then have nf: "\<not> pl_freed (sy_pool s)" and ba: "pl_mem (sy_pool s) a = Some b"
    and hp: "h' = Pooled a" "p = (sy_pool s)\<lparr>pl_mem := (pl_mem (sy_pool s))(a \<mapsto> b')\<rparr>"
    using b u by (auto simp: handle_buf_def handle_update_def split: if_splits)
  have fl: "free_list p = free_list (sy_pool s)" by (simp add: free_list_def hp)
  have "pooled_buf_ok cap b" using inv l Pooled ba by (auto simp: sys_inv_def Let_def)
  from run_pooled_ok [OF this r] have ok: "pooled_buf_ok cap b'" .
  have notfree: "a \<notin> set (free_list (sy_pool s))" using inv l Pooled by (auto simp: sys_inv_def Let_def)
  have live: "sy_live s = l @ h' # l'" using l Pooled hp by simp
  show ?thesis
    using inv ok notfree unfolding sys_inv_def Let_def by (simp add: fl live [symmetric]) (auto simp: hp)
qed

lemma drop_inv:
  assumes inv: "sys_inv cap n s" and l: "sy_live s = l @ h # l'"
  shows "\<exists>p. handle_drop (sy_pool s) h = Returns p \<and> sys_inv cap n (s\<lparr>sy_pool := p, sy_live := l @ l'\<rparr>)
    \<and> (pl_freed p \<longleftrightarrow> pl_freed (sy_pool s) \<or> pooled [h] \<noteq> [] \<and> \<not> sy_owner s \<and> pooled (l @ l') = [])"
proof (cases h)
  case (Single b)
  then have "single_buf_ok b" using inv l by (auto simp: sys_inv_def Let_def)
  then have "handle_drop (sy_pool s) h = Returns (sy_pool s)"
    by (simp add: handle_drop_def handle_buf_def single_buf_ok_def Single)
  then show ?thesis using inv l Single by (auto simp: sys_inv_def Let_def)
next
  case (Pooled a)
  let ?p = "sy_pool s" and ?c = "pl_cursor (sy_pool s)"
  have v: "valid_capacity cap" and nf: "\<not> pl_freed ?p" and len: "length (pl_array ?p) = n"
    using inv l Pooled by (auto simp: sys_inv_def Let_def)
  obtain b where b: "pl_mem ?p a = Some b" "pooled_buf_ok cap b"
    using inv l Pooled by (auto simp: sys_inv_def Let_def)
  have c: "?c < n" using inv l Pooled by (auto simp: sys_inv_def Let_def)
  let ?p1 = "?p\<lparr>pl_mem := (pl_mem ?p)(a \<mapsto> buf_clear b),
      pl_array := (pl_array ?p)[?c := a], pl_cursor := ?c + 1\<rparr>"
  let ?p2 = "if ?c + 1 = n \<and> pl_dropped ?p then ?p1\<lparr>pl_freed := True\<rparr> else ?p1"
  have d: "handle_drop ?p h = Returns ?p2"
    using pooled_is_pooled [OF b(2) v] b(1) nf c len
    by (simp add: handle_drop_def handle_buf_def Pooled Let_def)
  have "pl_cursor ?p2 = Suc ?c" "pl_array ?p2 = (pl_array ?p)[?c := a]" by simp_all
  moreover have "take (Suc ?c) ((pl_array ?p)[?c := a]) = take ?c (pl_array ?p) @ [a]"
    using c len take_Suc_conv_app_nth [of ?c "(pl_array ?p)[?c := a]"] by simp
  ultimately have fl: "free_list ?p2 = free_list ?p @ [a]"
    unfolding free_list_def by (simp only:)
  have "?c + 1 + length (pooled (l @ l')) = n"
    using inv l Pooled by (simp add: sys_inv_def Let_def)
  then have count: "?c + 1 = n \<longleftrightarrow> pooled (l @ l') = []"
    by (simp only: length_0_conv [symmetric]) linarith
  have dropped: "pl_dropped ?p \<longleftrightarrow> \<not> sy_owner s" using inv by (simp add: sys_inv_def Let_def)
  have notfree: "a \<notin> set (free_list ?p)" and notlive: "a \<notin> set (pooled (l @ l'))"
    using inv l Pooled by (auto simp: sys_inv_def Let_def)
  have mem: "pl_mem ?p2 = (pl_mem ?p)(a \<mapsto> buf_clear b)" by simp
  have "\<forall>x \<in> set (free_list ?p2). \<exists>b. pl_mem ?p2 x = Some b \<and> pooled_buf_ok cap b \<and> buf_list b = []"
    using inv clear_pooled_ok [OF b(2)] unfolding fl mem sys_inv_def Let_def by auto
  moreover have "\<forall>x \<in> set (pooled (l @ l')). \<exists>b. pl_mem ?p2 x = Some b \<and> pooled_buf_ok cap b"
    using inv l notlive unfolding mem sys_inv_def Let_def by (auto simp: pooled_Cons [of h l'])
  moreover have "distinct (free_list ?p2 @ pooled (l @ l'))"
    using inv l notfree notlive unfolding fl sys_inv_def Let_def by (auto simp: pooled_Cons [of h l'])
  ultimately have "sys_inv cap n (s\<lparr>sy_pool := ?p2, sy_live := l @ l'\<rparr>)"
    using inv l Pooled c count dropped nf unfolding sys_inv_def Let_def by simp
  then show ?thesis using d count dropped nf Pooled by (intro exI [of _ ?p2]) auto
qed

lemma pool_drop_inv:
  assumes "sys_inv cap n s" and "sy_owner s"
  shows "pool_drop (sy_pool s) = Returns ((sy_pool s)\<lparr>pl_dropped := True\<rparr>)
    \<and> \<not> pl_freed (sy_pool s) \<and> sys_inv cap n (s\<lparr>sy_pool := (sy_pool s)\<lparr>pl_dropped := True\<rparr>, sy_owner := False\<rparr>)"
  using assms by (simp add: pool_drop_def sys_inv_def Let_def free_list_def)

lemma create_from_inv:
  assumes inv: "sys_inv cap n s" and own: "sy_owner s" and c: "pool_create_from (sy_pool s) bs = Returns (h, p)"
  shows "sys_inv cap n (s\<lparr>sy_pool := p, sy_live := h # sy_live s\<rparr>)
    \<and> (\<exists>b. handle_buf p h = Some b \<and> buf_rep b bs)"
proof -
  obtain h1 p1 b b' ok where g: "pool_get_with_min_capacity (sy_pool s) (length bs) = Returns (h1, p1)"
    and b: "handle_buf p1 h1 = Some b" and a: "buf_append b bs = Returns (ok, b')"
    and u: "handle_update p1 h1 b' = (h, p)"
    using c by (auto simp: pool_create_from_def outcome_simps split: option.splits)
  note get = get_min_inv [OF inv own g]
  then have inv1: "sys_inv cap n (s\<lparr>sy_pool := p1, sy_live := h1 # sy_live s\<rparr>)" (is "sys_inv cap n ?s")
    and b1: "buf_rep b []" "length bs \<le> buf_capacity b" using b by (auto simp: buf_rep_iff)
  have run: "buf_run debug b [BAppend bs] = Returns ([ok], b')" using a by simp
  have rep: "buf_rep b' bs" using buf_append_spec [OF b1(1), of bs] b1(2) a by auto
  have "handle_buf (sy_pool ?s) h1 = Some b" "handle_update (sy_pool ?s) h1 b' = (h, p)"
    "sy_live ?s = [] @ h1 # sy_live s"
    using b u by simp_all
  from use_inv [OF inv1 this(3,1) run this(2)]
  have "sys_inv cap n (?s\<lparr>sy_pool := p, sy_live := [] @ h # sy_live s\<rparr>)" .
  moreover have "handle_buf p h = Some b'"
    using u b by (auto simp: handle_update_def handle_buf_def split: handle.splits if_splits)
  ultimately show ?thesis using rep by simp
qed

lemma single_inv: "sys_inv cap n s \<Longrightarrow> single_buf_ok b \<Longrightarrow> sys_inv cap n (s\<lparr>sy_live := Single b # sy_live s\<rparr>)"
  by (auto simp: sys_inv_def Let_def)

lemma step_inv: "sys_step s t \<Longrightarrow> sys_inv cap n s \<Longrightarrow> sys_inv cap n t"
proof (induction rule: sys_step.induct)
  case (new_buf c b s)
  then show ?case using single_inv new_single_ok by blast
next
  case (buf_from bs b s)
  then show ?case using single_inv create_from_single_ok by blast
next
  case (clone_buf h s b c)
  then show ?case using single_inv clone_single_ok by blast
next
  case (drop_buf s l h l' p)
  then show ?case using drop_inv [OF drop_buf(3,1)] by auto
next
  case (drop_pool s p)
  then show ?case using pool_drop_inv [of cap n s] by auto
qed (auto dest: get_inv get_min_inv create_from_inv intro: use_inv)

lemma reachable_inv:
  "reachable p0 s \<Longrightarrow> pool_new debug base inner cap n = Returns p0 \<Longrightarrow> sys_inv cap n s"
  by (induction rule: reachable.induct) (auto intro: pool_new_inv step_inv)

subsection \<open>What holds in every reachable state\<close>

lemma live_handle:
  assumes "sys_inv cap n s" and "h \<in> set (sy_live s)"
  shows "\<exists>b. handle_buf (sy_pool s) h = Some b \<and> buf_inv b"
proof (cases h)
  case (Single b)
  then show ?thesis using assms by (auto simp: sys_inv_def Let_def handle_buf_def single_buf_ok_def)
next
  case (Pooled a)
  obtain l l' where "sy_live s = l @ h # l'" using assms(2) by (metis split_list)
  then have "a \<in> set (pooled (sy_live s))" by (simp add: Pooled)
  then show ?thesis
    using assms by (cases "pooled (sy_live s)") (auto simp: sys_inv_def Let_def handle_buf_def Pooled pooled_buf_ok_def)
qed



text \<open>After the owner is gone, the only steps left are on the buffers.\<close>

lemma after_drop:
  assumes "sys_step s t" and "sys_inv cap n s" and "\<not> sy_owner s"
  shows "\<not> sy_owner t \<and> (pl_freed (sy_pool t) \<longleftrightarrow>
    pl_freed (sy_pool s) \<or> pooled (sy_live s) \<noteq> [] \<and> pooled (sy_live t) = [])"
  using assms
proof (cases rule: sys_step.cases)
  case (use_buf l h l' b debug ops oks b' h' p)
  then have "pooled [h'] = pooled [h]" "pl_freed p = pl_freed (sy_pool s)"
    by (auto simp: handle_update_def split: handle.splits)
  then show ?thesis using use_buf assms(3) by (auto simp: pooled_Cons [of h l'] pooled_Cons [of h' l'])
next
  case (drop_buf l h l' p)
  with drop_inv [OF assms(2) drop_buf(2)] assms(3) show ?thesis
    by (auto simp: pooled_Cons [of h l'])
qed auto

lemma after_drop_star:
  assumes "sys_step\<^sup>*\<^sup>* s t" and "sys_inv cap n s" and "\<not> sy_owner s" and "\<not> pl_freed (sy_pool s)"
  shows "sys_inv cap n t \<and> \<not> sy_owner t \<and> (pooled (sy_live s) = [] \<longrightarrow> pooled (sy_live t) = []) \<and>
    (pl_freed (sy_pool t) \<longleftrightarrow> pooled (sy_live s) \<noteq> [] \<and> pooled (sy_live t) = [])"
  using assms
proof (induction rule: rtranclp_induct)
  case (step t u)
  then have IH: "sys_inv cap n t" "\<not> sy_owner t" "pooled (sy_live s) = [] \<longrightarrow> pooled (sy_live t) = []"
    "pl_freed (sy_pool t) \<longleftrightarrow> pooled (sy_live s) \<noteq> [] \<and> pooled (sy_live t) = []" by blast+
  have "sys_inv cap n u" using step_inv [OF step(2) IH(1)] .
  moreover have "pooled (sy_live u) = []" if "pooled (sy_live t) = []"
    using step(2) IH(2) that
  proof (cases rule: sys_step.cases)
    case (use_buf l h l' b debug ops oks b' h' p)
    with that show ?thesis by (cases h) (auto simp: handle_update_def)
  next
    case (drop_buf l h l' p)
    with that show ?thesis by (cases h) auto
  qed auto
  ultimately show ?case using after_drop [OF step(2) IH(1,2)] IH(3,4) by blast
qed auto

text \<open>
  C2: The allocation of a dropped pool is given back exactly if some buffer was still out when the
  owner dropped it and all of them have come back since. A pool dropped with every buffer at home
  is never given back: \<open>Drop for Pool\<close> tests the flag that it is itself the only one to set.
\<close>

theorem pool_released:
  assumes "pool_new debug base inner cap n = Returns p0" and "reachable p0 s" and "sy_owner s"
    and "pool_drop (sy_pool s) = Returns p"
    and "sys_step\<^sup>*\<^sup>* (s\<lparr>sy_pool := p, sy_owner := False\<rparr>) t"
  shows "pl_freed (sy_pool t) \<longleftrightarrow> pooled (sy_live s) \<noteq> [] \<and> pooled (sy_live t) = []"
proof -
  have inv: "sys_inv cap n s" using reachable_inv [OF assms(2,1)] .
  have "p = (sy_pool s)\<lparr>pl_dropped := True\<rparr>" using pool_drop_inv [OF inv assms(3)] assms(4) by simp
  with pool_drop_inv [OF inv assms(3)] after_drop_star [OF assms(5), of cap n] show ?thesis by simp
qed

subsection \<open>A pool of two buffers\<close>

definition pool8 :: pool where
  "pool8 = \<lparr>pl_buf_capacity = 8, pl_array = [88, 112], pl_cursor = 2, pl_dropped = False,
     pl_mem = [88 \<mapsto> \<lparr>b_len = 0, b_cap = 0x80000008, b_data = replicate 8 None\<rparr>,
               112 \<mapsto> \<lparr>b_len = 0, b_cap = 0x80000008, b_data = replicate 8 None\<rparr>],
     pl_freed = False\<rparr>"

lemma pool8_new: "pool_new debug 0 64 8 2 = Returns pool8"
proof -
  have "pool_carve 80 8 2 = (pl_array pool8, pl_mem pool8)"
    unfolding numeral_2_eq_2
    by (simp add: pool8_def size_of_each_buf_def BUFFER_HEADER_SIZE_def PTR_SIZE_def
        BUF_HDR_CAPACITY_POOLED_FLAG_def fun_upd_twist)
  then show ?thesis
    by (simp add: pool_new_eq valid_capacity_def MAX_CAPACITY_def PTR_SIZE_def pool_size_def LAYOUT_MAX_def
        size_of_each_buf_def BUFFER_HEADER_SIZE_def) (simp add: pool8_def)
qed

lemma pool_layout_disjoint_witness:
  "pl_array pool8 ! 0 + BUFFER_HEADER_SIZE + 8 = pl_array pool8 ! 1 - PTR_SIZE \<and> pl_array pool8 ! 0 mod 8 = 0"
  using pool_layout_disjoint [OF pool8_new, of 0] by simp

definition sys8 :: "sys" where
  "sys8 = \<lparr>sy_pool = pool8\<lparr>pl_cursor := 1\<rparr>, sy_owner = True, sy_live = [Pooled 112]\<rparr>"

lemma sys8_reachable: "reachable pool8 sys8"
proof -
  have "pool_get pool8 = Returns (Pooled 112, pool8\<lparr>pl_cursor := 1\<rparr>)"
    by (simp add: pool_get_def pool8_def)
  then show ?thesis
    using reachable.step [OF reachable.start sys_step.get, of pool8 "Pooled 112" "pool8\<lparr>pl_cursor := 1\<rparr>"]
    by (simp add: sys8_def)
qed



text \<open>The owner drops the pool, then the buffer that is still out comes back.\<close>

lemma sys8_end:
  "sys_step (sys8\<lparr>sy_pool := pool8\<lparr>pl_cursor := 1, pl_dropped := True\<rparr>, sy_owner := False\<rparr>)
     \<lparr>sy_pool = pool8\<lparr>pl_cursor := 2, pl_dropped := True, pl_freed := True\<rparr>, sy_owner = False, sy_live = []\<rparr>"
proof -
  let ?s = "sys8\<lparr>sy_pool := pool8\<lparr>pl_cursor := 1, pl_dropped := True\<rparr>, sy_owner := False\<rparr>"
  have "(pl_mem pool8)(112 \<mapsto> buf_clear \<lparr>b_len = 0, b_cap = 0x80000008, b_data = replicate 8 None\<rparr>) = pl_mem pool8"
    by (simp add: pool8_def buf_clear_def)
  then have "handle_drop (sy_pool ?s) (Pooled 112)
      = Returns (pool8\<lparr>pl_cursor := 2, pl_dropped := True, pl_freed := True\<rparr>)"
    by (simp add: handle_drop_def handle_buf_def sys8_def pool8_def is_pooled_def
        BUF_HDR_CAPACITY_POOLED_FLAG_def buf_clear_def Let_def)
  then show ?thesis
    using sys_step.drop_buf [of ?s "[]" "Pooled 112" "[]"] by (simp add: sys8_def)
qed

lemma pool_released_witness: "pl_freed (pool8\<lparr>pl_cursor := 2, pl_dropped := True, pl_freed := True\<rparr>)"
proof -
  have d: "pool_drop (sy_pool sys8) = Returns (pool8\<lparr>pl_cursor := 1, pl_dropped := True\<rparr>)" and o: "sy_owner sys8"
    by (simp_all add: pool_drop_def pool8_def sys8_def)
  have "pooled (sy_live sys8) = [112]" by (simp add: sys8_def)
  then show ?thesis
    using pool_released [OF pool8_new sys8_reachable o d r_into_rtranclp [of sys_step, OF sys8_end]] by simp
qed

end
