(* ===== verification/Pool_Isolation.thy ===== *)
theory Pool_Isolation
  imports Pool
begin

text \<open>
  The buffers of a pool and the individual ones do not interfere: whatever its users do, a step
  changes the bytes of at most one of the buffers that are held.
\<close>

section \<open>What the holders of the buffers see\<close>

text \<open>The address of a pooled buffer, and the bytes of the buffer.\<close>

definition handle_view :: "pool \<Rightarrow> handle \<Rightarrow> nat option \<times> u8 list option" where
  "handle_view p h = (case h of Pooled a \<Rightarrow> Some a | Single _ \<Rightarrow> None, map_option buf_list (handle_buf p h))"

definition held :: "sys \<Rightarrow> (nat option \<times> u8 list option) list" where
  "held s = map (handle_view (sy_pool s)) (sy_live s)"

text \<open>One buffer is gone, one is new, or both: one buffer changed.\<close>

definition at_most_one :: "'a list \<Rightarrow> 'a list \<Rightarrow> bool" where
  "at_most_one xs ys \<longleftrightarrow> (\<exists>l l' us vs. xs = l @ us @ l' \<and> ys = l @ vs @ l' \<and> length us \<le> 1 \<and> length vs \<le> 1)"

lemma at_most_oneI:
  "length us \<le> 1 \<Longrightarrow> length vs \<le> 1 \<Longrightarrow> at_most_one (l @ us @ l') (l @ vs @ l')"
  unfolding at_most_one_def by blast

lemma at_most_one_same: "at_most_one xs xs"
  using at_most_oneI [of "[]" "[]" xs "[]"] by simp

lemma at_most_one_new: "at_most_one xs (x # xs)"
  using at_most_oneI [of "[]" "[x]" "[]" xs] by simp

text \<open>An operation through one handle is invisible through all others.\<close>

lemma view_same:
  assumes "pl_freed q = pl_freed p" and "\<And>x. x \<in> set (pooled hs) \<Longrightarrow> pl_mem q x = pl_mem p x"
  shows "map (handle_view q) hs = map (handle_view p) hs"
proof -
  have "handle_view q h = handle_view p h" if "h \<in> set hs" for h
  proof (cases h)
    case (Pooled a)
    then have "a \<in> set (pooled hs)" using that by (induction hs rule: pooled.induct) auto
    then show ?thesis using assms Pooled by (simp add: handle_view_def handle_buf_def)
  qed (simp add: handle_view_def handle_buf_def)
  then show ?thesis by simp
qed

lemma view_update:
  assumes "distinct (pooled (l @ h # l'))" and "handle_update p h b = (h', q)"
  shows "map (handle_view q) (l @ l') = map (handle_view p) (l @ l')"
  using assms by (intro view_same) (cases h; auto simp: handle_update_def pooled_Cons [of h l'])+

lemma get_min_same:
  "pool_get_with_min_capacity p n = Returns (h, q) \<Longrightarrow> pl_freed q = pl_freed p \<and> pl_mem q = pl_mem p"
  using pool_get_same [of p h q]
  by (auto simp: pool_get_with_min_capacity_def outcome_simps split: if_splits)

lemma drop_same:
  assumes inv: "sys_inv cap n s" and l: "sy_live s = l @ h # l'" and d: "handle_drop (sy_pool s) h = Returns p"
  shows "map (handle_view p) (l @ l') = map (handle_view (sy_pool s)) (l @ l')"
proof (cases h)
  case (Single b)
  then have "p = sy_pool s" using d
    by (auto simp: handle_drop_def outcome_simps split: option.splits if_splits)
  then show ?thesis by simp
next
  case (Pooled a)
  have dist: "a \<notin> set (pooled (l @ l'))" using inv l Pooled by (auto simp: sys_inv_def Let_def)
  have mem: "pl_mem p x = pl_mem (sy_pool s) x" if "x \<noteq> a" for x
    using d that by (auto simp: handle_drop_def outcome_simps Pooled Let_def split: option.splits if_splits)
  have "pooled (l @ l') = [] \<or> pl_freed p = pl_freed (sy_pool s)"
    using drop_inv [OF inv l] d by auto
  then show ?thesis
  proof
    assume "pooled (l @ l') = []"
    moreover have "pooled hs = [] \<Longrightarrow> map (handle_view p) hs = map (handle_view (sy_pool s)) hs" for hs
      by (induction hs rule: pooled.induct) (simp_all add: handle_view_def handle_buf_def)
    ultimately show ?thesis by blast
  next
    assume "pl_freed p = pl_freed (sy_pool s)"
    moreover have "pl_mem p x = pl_mem (sy_pool s) x" if "x \<in> set (pooled (l @ l'))" for x
      using that dist by (intro mem) blast
    ultimately show ?thesis by (rule view_same)
  qed
qed

lemma create_from_same:
  assumes inv: "sys_inv cap n s" and own: "sy_owner s" and c: "pool_create_from (sy_pool s) bs = Returns (h, p)"
  shows "map (handle_view p) (sy_live s) = map (handle_view (sy_pool s)) (sy_live s)"
proof -
  obtain h1 p1 b' where g: "pool_get_with_min_capacity (sy_pool s) (length bs) = Returns (h1, p1)"
    and u: "handle_update p1 h1 b' = (h, p)"
    using c by (auto simp: pool_create_from_def outcome_simps split: option.splits)
  have "sys_inv cap n (s\<lparr>sy_pool := p1, sy_live := h1 # sy_live s\<rparr>)" using get_min_inv [OF inv own g] by simp
  then have "distinct (pooled ([] @ h1 # sy_live s))" by (simp add: sys_inv_def Let_def)
  from view_update [OF this u] get_min_same [OF g] show ?thesis
    using view_same [of p1 "sy_pool s" "sy_live s"] by simp
qed

lemma step_isolated: "sys_step s t \<Longrightarrow> sys_inv cap n s \<Longrightarrow> at_most_one (held s) (held t)"
proof (induction rule: sys_step.induct)
  case (get s h p)
  then have "held (s\<lparr>sy_pool := p, sy_live := h # sy_live s\<rparr>) = handle_view p h # held s"
    using pool_get_same [OF get(2)] view_same [of p "sy_pool s" "sy_live s"] by (simp add: held_def)
  then show ?case by (simp add: at_most_one_new)
next
  case (get_min s m h p)
  then have "held (s\<lparr>sy_pool := p, sy_live := h # sy_live s\<rparr>) = handle_view p h # held s"
    using get_min_same [OF get_min(2)] view_same [of p "sy_pool s" "sy_live s"] by (simp add: held_def)
  then show ?case by (simp add: at_most_one_new)
next
  case (create_from s bs h p)
  then have "held (s\<lparr>sy_pool := p, sy_live := h # sy_live s\<rparr>) = handle_view p h # held s"
    using create_from_same [of cap n s bs h p] by (simp add: held_def)
  then show ?case by (simp add: at_most_one_new)
next
  case (use_buf s l h l' b debug ops oks b' h' p)
  have "distinct (pooled (l @ h # l'))" using use_buf by (simp add: sys_inv_def Let_def)
  then have "map (handle_view p) (l @ l') = map (handle_view (sy_pool s)) (l @ l')"
    using view_update use_buf(4) by blast
  then have "map (handle_view p) l = map (handle_view (sy_pool s)) l" "map (handle_view p) l' = map (handle_view (sy_pool s)) l'"
    by simp_all
  then show ?case
    using at_most_oneI [of "[handle_view (sy_pool s) h]" "[handle_view p h']"] use_buf(1)
    by (simp add: held_def del: map_eq_conv)
next
  case (drop_buf s l h l' p)
  then have "map (handle_view p) l = map (handle_view (sy_pool s)) l" "map (handle_view p) l' = map (handle_view (sy_pool s)) l'"
    using drop_same [of cap n s l h l' p] by simp_all
  then show ?case
    using at_most_oneI [of "[handle_view (sy_pool s) h]" "[]"] drop_buf(1)
    by (simp add: held_def del: map_eq_conv)
next
  case (drop_pool s p)
  have "pl_freed p = pl_freed (sy_pool s) \<and> pl_mem p = pl_mem (sy_pool s)"
    using pool_drop_inv [of cap n s] drop_pool by auto
  then show ?case using view_same [of p "sy_pool s" "sy_live s"] by (simp add: held_def at_most_one_same del: map_eq_conv)
qed (simp_all add: held_def at_most_one_new)



end
