(* ===== verification/Threads.thy ===== *)
theory Threads
  imports Main
begin

text \<open>
  Threads that share a state: a step of one thread, where it can make one, and events of the
  environment such as the passing of time. The locale states what a component promises of its
  threads, an invariant and a measure that every step makes smaller; that schedules are bounded and
  end only when all threads are done follows once for all of them.
\<close>

text \<open>A schedule: events of the environment and steps of threads; \<open>None\<close> if a thread that is
  scheduled cannot make a step.\<close>

fun run_schedule ::
  "('s \<Rightarrow> nat) \<Rightarrow> (nat \<Rightarrow> 's \<Rightarrow> 's option) \<Rightarrow> ('e \<Rightarrow> 's \<Rightarrow> 's) \<Rightarrow> ('e + nat) list \<Rightarrow> 's \<Rightarrow> 's option" where
  "run_schedule threads step env [] s = Some s"
| "run_schedule threads step env (Inl e # es) s = run_schedule threads step env es (env e s)"
| "run_schedule threads step env (Inr t # es) s =
     (if t < threads s then Option.bind (step t s) (run_schedule threads step env es) else None)"

definition thread_steps :: "('e + nat) list \<Rightarrow> nat" where
  "thread_steps es = length (filter (\<lambda>e. \<not> isl e) es)"

lemma thread_steps_simps [simp]:
  "thread_steps [] = 0" "thread_steps (Inl e # es) = thread_steps es" "thread_steps (Inr t # es) = Suc (thread_steps es)"
  by (simp_all add: thread_steps_def)

text \<open>The work of all threads, summed up, becomes smaller with that of one.\<close>

lemma sum_list_smaller:
  "i < length xs \<Longrightarrow> f y < f (xs ! i) \<Longrightarrow> sum_list (map f (xs[i := y])) < sum_list (map f xs)" for f :: "'a \<Rightarrow> nat"
  by (induction xs arbitrary: i) (auto split: nat.split simp: less_Suc_eq_0_disj)

lemma sum_list_bound: "\<forall>x. f x \<le> c \<Longrightarrow> sum_list (map f xs) \<le> c * length xs" for f :: "'a \<Rightarrow> nat"
  by (induction xs) (auto intro: add_mono)

locale thread_system =
  fixes threads :: "'s \<Rightarrow> nat"
    and step :: "nat \<Rightarrow> 's \<Rightarrow> 's option"
    and env :: "'e \<Rightarrow> 's \<Rightarrow> 's"
    and inv :: "'s \<Rightarrow> bool"
    and work :: "'s \<Rightarrow> nat"
    and returned :: "nat \<Rightarrow> 's \<Rightarrow> bool"
  assumes step_inv: "inv s \<Longrightarrow> t < threads s \<Longrightarrow> step t s = Some s' \<Longrightarrow> inv s'"
    and step_work: "t < threads s \<Longrightarrow> step t s = Some s' \<Longrightarrow> work s' < work s \<and> threads s' = threads s"
    and env_inv: "inv s \<Longrightarrow> inv (env e s)"
    and env_work: "work (env e s) = work s \<and> threads (env e s) = threads s"
    and not_stuck: "inv s \<Longrightarrow> t < threads s \<Longrightarrow> \<not> returned t s \<Longrightarrow> \<exists>u < threads s. step u s \<noteq> None"
begin

lemma run_inv: "run_schedule threads step env es s = Some s' \<Longrightarrow> inv s \<Longrightarrow> inv s'"
proof (induction es arbitrary: s)
  case (Cons e es)
  then show ?case using env_inv step_inv by (cases e) (auto split: if_splits bind_splits)
qed simp

lemma run_work:
  "run_schedule threads step env es s = Some s' \<Longrightarrow> thread_steps es + work s' \<le> work s \<and> threads s' = threads s"
proof (induction es arbitrary: s)
  case (Cons e es)
  show ?case
  proof (cases e)
    case (Inl x)
    then show ?thesis using Cons env_work [of x s] by fastforce
  next
    case (Inr t)
    then obtain s1 where s1: "t < threads s" "step t s = Some s1" "run_schedule threads step env es s1 = Some s'"
      using Cons.prems by (auto split: if_splits bind_splits)
    show ?thesis using Cons.IH [OF s1(3)] step_work [OF s1(1,2)] Inr by auto
  qed
qed simp

text \<open>A schedule has at most \<open>work s\<close> steps, and where no thread can make one all have returned.\<close>

lemma run_returns:
  assumes "inv s" and "run_schedule threads step env es s = Some s'"
  shows "thread_steps es \<le> work s \<and> threads s' = threads s
    \<and> ((\<forall>t < threads s. step t s' = None) \<longrightarrow> (\<forall>t < threads s. returned t s'))"
proof -
  have w: "thread_steps es \<le> work s" "threads s' = threads s" using run_work [OF assms(2)] by simp_all
  have "returned t s'" if "\<forall>t < threads s. step t s' = None" "t < threads s" for t
    using not_stuck [OF run_inv [OF assms(2,1)], of t] w(2) that by fastforce
  then show ?thesis using w by blast
qed

end

end
