(* ===== verification/Pool_Threads.thy ===== *)
theory Pool_Threads
  imports Pool Threads "HOL-Library.Multiset"
begin

text \<open>
  The buffer pool of \<open>src/buf.rs\<close> used by several threads at once, at the grain of single accesses
  to the pool's mutex: a thread waits for the lock, works on the pool while it holds it, releases
  it, and the one that returned the last buffer of a dropped pool deallocates the pool after it has
  released the lock. The theory shows that what the threads do is what the atomic steps of theory
  \<open>Pool\<close> do in some order, and that no thread touches the pool once its memory is gone.
  \<open>create_from\<close> and \<open>get_with_min_capacity\<close> are \<open>get\<close> or the making of an individual buffer, and
  then a use of the buffer; \<open>pool_remaining\<close>, which only reads, is left to theory \<open>Pool\<close>.
\<close>

section \<open>Threads at the mutex\<close>

text \<open>
  Where a thread is: in \<open>Pool::get\<close>, in \<open>Drop for Buf\<close> (\<open>BufDrop\<close> to \<open>DropRelease\<close>), in
  \<open>Drop for Pool\<close>, or about to call \<open>PoolInner::dealloc\<close>. The flag of the two release states is the
  outcome of the test whether the pool is to be deallocated.
\<close>

datatype pool_pc =
    Idle
  | GetWait | GetHold | GetRelease handle
  | BufDrop handle | DropWait nat | DropHold nat | DropRelease bool
  | OwnerWait | OwnerHold | OwnerRelease bool
  | Dealloc

text \<open>The pool, whether the value of type \<open>Pool\<close> still exists, who holds the mutex, and for each thread
  its place and the buffers it owns.\<close>

record pool_threads =
  pt_pool :: pool
  pt_owner :: bool
  pt_lock :: "nat option"
  pt_pcs :: "pool_pc list"
  pt_bufs :: "handle list list"

definition goto :: "nat \<Rightarrow> pool_pc \<Rightarrow> pool_threads \<Rightarrow> pool_threads" where
  "goto t pc s = s\<lparr>pt_pcs := (pt_pcs s)[t := pc]\<rparr>"

text \<open>\<open>pool.lock()\<close> and the drop of its guard; \<open>None\<close> is a thread that has to wait.\<close>

definition pt_acquire :: "nat \<Rightarrow> pool_pc \<Rightarrow> pool_threads \<Rightarrow> pool_threads outcome option" where
  "pt_acquire t pc s =
     (if pl_freed (pt_pool s) then Some Undefined
      else if pt_lock s = None then Some (Returns (goto t pc (s\<lparr>pt_lock := Some t\<rparr>)))
      else None)"

definition pt_release :: "nat \<Rightarrow> pool_pc \<Rightarrow> pool_threads \<Rightarrow> pool_threads outcome option" where
  "pt_release t pc s =
     Some (if pl_freed (pt_pool s) then Undefined else Returns (goto t pc (s\<lparr>pt_lock := None\<rparr>)))"

text \<open>\<open>Drop for Buf\<close> up to the lock, and what it does while it holds the lock.\<close>

definition pt_buf_drop :: "nat \<Rightarrow> handle \<Rightarrow> pool_threads \<Rightarrow> pool_threads outcome" where
  "pt_buf_drop t h s =
     (case handle_buf (pt_pool s) h of
        None \<Rightarrow> Undefined
      | Some b \<Rightarrow>
          if is_pooled b
          then case h of
                 Single _ \<Rightarrow> Undefined
               | Pooled a \<Rightarrow>
                   Returns (goto t (DropWait a)
                     (s\<lparr>pt_pool := (pt_pool s)\<lparr>pl_mem := (pl_mem (pt_pool s))(a \<mapsto> buf_clear b)\<rparr>\<rparr>))
          else case h of
                 Single _ \<Rightarrow> Returns (goto t Idle s)
               | Pooled _ \<Rightarrow> Undefined)"

definition pt_give_back :: "nat \<Rightarrow> nat \<Rightarrow> pool_threads \<Rightarrow> pool_threads outcome" where
  "pt_give_back t a s =
     (let p = pt_pool s in
      if pl_freed p then Undefined
      else
        obind (assert_that (pl_cursor p \<noteq> length (pl_array p))) (\<lambda>_.
        if pl_cursor p < length (pl_array p)
        then let p' = p\<lparr>pl_array := (pl_array p)[pl_cursor p := a], pl_cursor := pl_cursor p + 1\<rparr> in
             Returns (goto t (DropRelease (pl_cursor p' = length (pl_array p') \<and> pl_dropped p')) (s\<lparr>pt_pool := p'\<rparr>))
        else Undefined))"

definition pt_owner_drop :: "nat \<Rightarrow> pool_threads \<Rightarrow> pool_threads outcome" where
  "pt_owner_drop t s =
     (let p = pt_pool s in
      if pl_freed p then Undefined
      else if pl_cursor p = length (pl_array p) \<and> pl_dropped p then Returns (goto t (OwnerRelease True) s)
      else Returns (goto t (OwnerRelease False) (s\<lparr>pt_pool := p\<lparr>pl_dropped := True\<rparr>\<rparr>)))"

definition pt_dealloc :: "nat \<Rightarrow> pool_threads \<Rightarrow> pool_threads outcome" where
  "pt_dealloc t s =
     (if pl_freed (pt_pool s) then Undefined
      else Returns (goto t Idle (s\<lparr>pt_pool := (pt_pool s)\<lparr>pl_freed := True\<rparr>\<rparr>)))"

text \<open>One step of thread \<open>t\<close> inside a call; \<open>None\<close> if it is in none, or has to wait.\<close>

definition pt_step :: "nat \<Rightarrow> pool_threads \<Rightarrow> pool_threads outcome option" where
  "pt_step t s =
     (case pt_pcs s ! t of
        Idle \<Rightarrow> None
      | GetWait \<Rightarrow> pt_acquire t GetHold s
      | GetHold \<Rightarrow> Some (obind (pool_get (pt_pool s)) (\<lambda>(h, p). Returns (goto t (GetRelease h) (s\<lparr>pt_pool := p\<rparr>))))
      | GetRelease h \<Rightarrow> pt_release t Idle (s\<lparr>pt_bufs := (pt_bufs s)[t := h # pt_bufs s ! t]\<rparr>)
      | BufDrop h \<Rightarrow> Some (pt_buf_drop t h s)
      | DropWait a \<Rightarrow> pt_acquire t (DropHold a) s
      | DropHold a \<Rightarrow> Some (pt_give_back t a s)
      | DropRelease b \<Rightarrow> pt_release t (if b then Dealloc else Idle) s
      | OwnerWait \<Rightarrow> pt_acquire t OwnerHold s
      | OwnerHold \<Rightarrow> Some (pt_owner_drop t s)
      | OwnerRelease b \<Rightarrow> pt_release t (if b then Dealloc else Idle) s
      | Dealloc \<Rightarrow> Some (pt_dealloc t s))"

text \<open>
  What an idle thread may begin. A thread borrows the pool while it is in \<open>get\<close>, so that the value
  of type \<open>Pool\<close> is dropped only when no thread is; a buffer is used, sent to another thread, or
  dropped by the thread that owns it.
\<close>

fun getting :: "pool_pc \<Rightarrow> bool" where
  "getting GetWait = True"
| "getting GetHold = True"
| "getting (GetRelease h) = True"
| "getting _ = False"

inductive pt_call :: "pool_threads \<Rightarrow> pool_threads \<Rightarrow> bool" where
  call_get: "t < length (pt_pcs s) \<Longrightarrow> pt_pcs s ! t = Idle \<Longrightarrow> pt_owner s \<Longrightarrow> pt_call s (goto t GetWait s)"
| call_drop: "t < length (pt_pcs s) \<Longrightarrow> pt_pcs s ! t = Idle \<Longrightarrow> pt_bufs s ! t = l @ h # l' \<Longrightarrow>
    pt_call s (goto t (BufDrop h) (s\<lparr>pt_bufs := (pt_bufs s)[t := l @ l']\<rparr>))"
| call_pool_drop: "t < length (pt_pcs s) \<Longrightarrow> pt_pcs s ! t = Idle \<Longrightarrow> pt_owner s \<Longrightarrow>
    \<forall>u < length (pt_pcs s). \<not> getting (pt_pcs s ! u) \<Longrightarrow> pt_call s (goto t OwnerWait (s\<lparr>pt_owner := False\<rparr>))"
| call_new: "t < length (pt_pcs s) \<Longrightarrow> pt_pcs s ! t = Idle \<Longrightarrow> buf_new c = Returns b \<Longrightarrow>
    pt_call s (s\<lparr>pt_bufs := (pt_bufs s)[t := Single b # pt_bufs s ! t]\<rparr>)"
| call_from: "t < length (pt_pcs s) \<Longrightarrow> pt_pcs s ! t = Idle \<Longrightarrow> buf_create_from bs = Returns b \<Longrightarrow>
    pt_call s (s\<lparr>pt_bufs := (pt_bufs s)[t := Single b # pt_bufs s ! t]\<rparr>)"
| call_clone: "t < length (pt_pcs s) \<Longrightarrow> pt_pcs s ! t = Idle \<Longrightarrow> h \<in> set (pt_bufs s ! t) \<Longrightarrow>
    handle_buf (pt_pool s) h = Some b \<Longrightarrow> buf_clone b = Returns c \<Longrightarrow>
    pt_call s (s\<lparr>pt_bufs := (pt_bufs s)[t := Single c # pt_bufs s ! t]\<rparr>)"
| call_use: "t < length (pt_pcs s) \<Longrightarrow> pt_pcs s ! t = Idle \<Longrightarrow> pt_bufs s ! t = l @ h # l' \<Longrightarrow>
    handle_buf (pt_pool s) h = Some b \<Longrightarrow> buf_run debug b ops = Returns (oks, b') \<Longrightarrow>
    handle_update (pt_pool s) h b' = (h', p) \<Longrightarrow>
    pt_call s (s\<lparr>pt_pool := p, pt_bufs := (pt_bufs s)[t := l @ h' # l']\<rparr>)"
| call_send: "t < length (pt_pcs s) \<Longrightarrow> u < length (pt_pcs s) \<Longrightarrow> pt_pcs s ! t = Idle \<Longrightarrow> pt_bufs s ! t = l @ h # l' \<Longrightarrow>
    t \<noteq> u \<Longrightarrow> pt_call s (s\<lparr>pt_bufs := (pt_bufs s)[t := l @ l', u := h # pt_bufs s ! u]\<rparr>)"

definition pt_init :: "nat \<Rightarrow> pool \<Rightarrow> pool_threads" where
  "pt_init n p = \<lparr>pt_pool = p, pt_owner = True, pt_lock = None, pt_pcs = replicate n Idle, pt_bufs = replicate n []\<rparr>"

inductive pt_reachable :: "nat \<Rightarrow> pool \<Rightarrow> pool_threads \<Rightarrow> bool" for n p where
  pt_start: "pt_reachable n p (pt_init n p)"
| pt_called: "pt_reachable n p s \<Longrightarrow> pt_call s s' \<Longrightarrow> pt_reachable n p s'"
| pt_stepped: "pt_reachable n p s \<Longrightarrow> t < length (pt_pcs s) \<Longrightarrow> pt_step t s = Some (Returns s') \<Longrightarrow> pt_reachable n p s'"

section \<open>The invariant\<close>

fun holding :: "pool_pc \<Rightarrow> bool" where
  "holding GetHold = True"
| "holding (GetRelease h) = True"
| "holding (DropHold a) = True"
| "holding (DropRelease b) = True"
| "holding OwnerHold = True"
| "holding (OwnerRelease b) = True"
| "holding _ = False"

text \<open>The thread that will deallocate the pool.\<close>

fun freeing :: "pool_pc \<Rightarrow> bool" where
  "freeing (DropRelease b) = b"
| "freeing (OwnerRelease b) = b"
| "freeing Dealloc = True"
| "freeing _ = False"

fun owner_dropping :: "pool_pc \<Rightarrow> bool" where
  "owner_dropping OwnerWait = True"
| "owner_dropping OwnerHold = True"
| "owner_dropping _ = False"

text \<open>The places of a thread that will not touch the pool before its next call.\<close>

fun quiet :: "pool_pc \<Rightarrow> bool" where
  "quiet Idle = True"
| "quiet (BufDrop (Single b)) = True"
| "quiet _ = False"

text \<open>The buffer that is on its way in or out.\<close>

fun inflight :: "pool_pc \<Rightarrow> handle list" where
  "inflight (GetRelease h) = [h]"
| "inflight (BufDrop h) = [h]"
| "inflight (DropWait a) = [Pooled a]"
| "inflight (DropHold a) = [Pooled a]"
| "inflight _ = []"

fun cleared :: "pool \<Rightarrow> pool_pc \<Rightarrow> bool" where
  "cleared p (DropWait a) = (\<exists>b. pl_mem p a = Some b \<and> b_len b = 0)"
| "cleared p (DropHold a) = (\<exists>b. pl_mem p a = Some b \<and> b_len b = 0)"
| "cleared p _ = True"

definition pt_gone :: "pool_threads \<Rightarrow> bool" where
  "pt_gone s \<longleftrightarrow> pl_freed (pt_pool s) \<or> (\<exists>t < length (pt_pcs s). freeing (pt_pcs s ! t))"

definition pt_inv :: "pool_threads \<Rightarrow> bool" where
  "pt_inv s \<longleftrightarrow>
     length (pt_bufs s) = length (pt_pcs s)
     \<and> (\<forall>t < length (pt_pcs s). holding (pt_pcs s ! t) \<longleftrightarrow> pt_lock s = Some t)
     \<and> (\<forall>t. pt_lock s = Some t \<longrightarrow> t < length (pt_pcs s))
     \<and> (\<forall>t < length (pt_pcs s). getting (pt_pcs s ! t) \<longrightarrow> pt_owner s)
     \<and> (\<forall>t < length (pt_pcs s). owner_dropping (pt_pcs s ! t) \<longrightarrow> \<not> pt_owner s)
     \<and> (\<forall>t < length (pt_pcs s). \<forall>u < length (pt_pcs s).
          owner_dropping (pt_pcs s ! t) \<longrightarrow> owner_dropping (pt_pcs s ! u) \<longrightarrow> t = u)
     \<and> (pt_gone s \<longrightarrow> (\<forall>t < length (pt_pcs s). quiet (pt_pcs s ! t) \<or> freeing (pt_pcs s ! t)))
     \<and> (\<forall>t < length (pt_pcs s). freeing (pt_pcs s ! t) \<longrightarrow> \<not> pl_freed (pt_pool s))
     \<and> (\<forall>t < length (pt_pcs s). \<forall>u < length (pt_pcs s).
          freeing (pt_pcs s ! t) \<longrightarrow> freeing (pt_pcs s ! u) \<longrightarrow> t = u)
     \<and> (\<forall>t < length (pt_pcs s). cleared (pt_pool s) (pt_pcs s ! t))"

text \<open>The state of theory \<open>Pool\<close> that a state of the threads stands for.\<close>

definition owned :: "pool_threads \<Rightarrow> handle multiset" where
  "owned s = mset (concat (pt_bufs s)) + mset (concat (map inflight (pt_pcs s)))"

definition pt_abs :: "pool_threads \<Rightarrow> sys \<Rightarrow> bool" where
  "pt_abs s a \<longleftrightarrow>
     sy_pool a = (pt_pool s)\<lparr>pl_freed := pt_gone s\<rparr>
     \<and> (sy_owner a \<longleftrightarrow> pt_owner s \<or> (\<exists>t < length (pt_pcs s). owner_dropping (pt_pcs s ! t)))
     \<and> mset (sy_live a) = owned s"


subsection \<open>Changing the place of one thread\<close>

lemma goto_simps [simp]:
  "pt_pcs (goto t pc s) = (pt_pcs s)[t := pc]" "pt_pool (goto t pc s) = pt_pool s"
  "pt_owner (goto t pc s) = pt_owner s" "pt_lock (goto t pc s) = pt_lock s" "pt_bufs (goto t pc s) = pt_bufs s"
  by (simp_all add: goto_def)

lemma mset_concat_update:
  "t < length xs \<Longrightarrow> mset (concat (xs[t := ys])) + mset (xs ! t) = mset (concat xs) + mset ys"
proof (induction xs arbitrary: t)
  case (Cons x xs)
  then show ?case by (cases t) (auto simp: ac_simps)
qed simp

lemma mset_concat_shrink:
  "t < length xs \<Longrightarrow> xs ! t = l @ h # l' \<Longrightarrow> mset (concat xs) = mset (concat (xs[t := l @ l'])) + {#h#}"
  using mset_concat_update [of t xs "l @ l'"] by simp

lemma mset_inflight_update:
  "t < length pcs \<Longrightarrow> mset (concat (map inflight (pcs[t := pc]))) + mset (inflight (pcs ! t))
     = mset (concat (map inflight pcs)) + mset (inflight pc)"
  using mset_concat_update [of t "map inflight pcs"] by (simp add: map_update)

lemma pt_gone_goto:
  assumes "t < length (pt_pcs s)" and "pt_pcs s' = (pt_pcs s)[t := pc]"
    and "freeing pc \<longleftrightarrow> freeing (pt_pcs s ! t)" and "pl_freed (pt_pool s') \<longleftrightarrow> pl_freed (pt_pool s)"
  shows "pt_gone s' \<longleftrightarrow> pt_gone s"
  using assms unfolding pt_gone_def by (auto simp: nth_list_update)

lemma pt_invD:
  assumes "pt_inv s"
  shows "length (pt_bufs s) = length (pt_pcs s)"
    and "t < length (pt_pcs s) \<Longrightarrow> holding (pt_pcs s ! t) \<longleftrightarrow> pt_lock s = Some t"
    and "pt_lock s = Some t \<Longrightarrow> t < length (pt_pcs s)"
    and "t < length (pt_pcs s) \<Longrightarrow> getting (pt_pcs s ! t) \<Longrightarrow> pt_owner s"
    and "t < length (pt_pcs s) \<Longrightarrow> owner_dropping (pt_pcs s ! t) \<Longrightarrow> \<not> pt_owner s"
    and "t < length (pt_pcs s) \<Longrightarrow> u < length (pt_pcs s) \<Longrightarrow>
      owner_dropping (pt_pcs s ! t) \<Longrightarrow> owner_dropping (pt_pcs s ! u) \<Longrightarrow> t = u"
    and "t < length (pt_pcs s) \<Longrightarrow> pt_gone s \<Longrightarrow> quiet (pt_pcs s ! t) \<or> freeing (pt_pcs s ! t)"
    and "t < length (pt_pcs s) \<Longrightarrow> freeing (pt_pcs s ! t) \<Longrightarrow> \<not> pl_freed (pt_pool s)"
    and "t < length (pt_pcs s) \<Longrightarrow> u < length (pt_pcs s) \<Longrightarrow>
      freeing (pt_pcs s ! t) \<Longrightarrow> freeing (pt_pcs s ! u) \<Longrightarrow> t = u"
    and "t < length (pt_pcs s) \<Longrightarrow> cleared (pt_pool s) (pt_pcs s ! t)"
  using assms unfolding pt_inv_def by blast+

lemma pt_inv_update:
  assumes inv: "pt_inv s" and t: "t < length (pt_pcs s)" and pcs: "pt_pcs s' = (pt_pcs s)[t := pc]"
    and bufs: "length (pt_bufs s') = length (pt_bufs s)"
    and hold: "holding pc \<longleftrightarrow> pt_lock s' = Some t"
    and lock: "pt_lock s' = pt_lock s \<or> pt_lock s = None \<and> pt_lock s' = Some t \<or> pt_lock s = Some t \<and> pt_lock s' = None"
    and get: "getting pc \<Longrightarrow> pt_owner s'"
    and own: "pt_owner s' = pt_owner s \<or> \<not> pt_owner s' \<and> (\<forall>u < length (pt_pcs s). \<not> getting (pt_pcs s ! u))"
    and od: "owner_dropping pc \<Longrightarrow> \<not> pt_owner s' \<and> (owner_dropping (pt_pcs s ! t) \<or> pt_owner s)"
    and gone: "pt_gone s' \<Longrightarrow> (quiet pc \<or> freeing pc)
      \<and> (pt_gone s \<or> (\<forall>u < length (pt_pcs s). u \<noteq> t \<longrightarrow> quiet (pt_pcs s ! u)))"
    and fr: "freeing pc \<Longrightarrow> \<not> pl_freed (pt_pool s') \<and> (freeing (pt_pcs s ! t) \<or> \<not> pt_gone s)"
    and fd: "pl_freed (pt_pool s') \<Longrightarrow> pl_freed (pt_pool s) \<or> freeing (pt_pcs s ! t) \<and> \<not> freeing pc"
    and cl: "cleared (pt_pool s') pc"
    and clu: "\<And>u. u < length (pt_pcs s) \<Longrightarrow> u \<noteq> t \<Longrightarrow> cleared (pt_pool s) (pt_pcs s ! u) \<Longrightarrow> cleared (pt_pool s') (pt_pcs s ! u)"
  shows "pt_inv s'"
proof -
  note D = pt_invD [OF inv]
  have n: "length (pt_pcs s') = length (pt_pcs s)" by (simp add: pcs)
  have at: "pt_pcs s' ! u = (if u = t then pc else pt_pcs s ! u)" if "u < length (pt_pcs s)" for u
    using that by (simp add: pcs)
  have c2: "holding (pt_pcs s' ! u) \<longleftrightarrow> pt_lock s' = Some u" if "u < length (pt_pcs s)" for u
    using D(2) [OF that] D(2) [OF t] hold lock that by (auto simp: at)
  have c3: "u < length (pt_pcs s)" if "pt_lock s' = Some u" for u
    using lock D(3) [of u] t that by auto
  have c4: "pt_owner s'" if "u < length (pt_pcs s)" "getting (pt_pcs s' ! u)" for u
    using D(4) [OF that(1)] own get that by (auto simp: at split: if_splits)
  have c5: "\<not> pt_owner s'" if "u < length (pt_pcs s)" "owner_dropping (pt_pcs s' ! u)" for u
    using D(5) [OF that(1)] own od that by (auto simp: at split: if_splits)
  have c6: "u = v" if "u < length (pt_pcs s)" "v < length (pt_pcs s)"
    "owner_dropping (pt_pcs s' ! u)" "owner_dropping (pt_pcs s' ! v)" for u v
    using D(6) [of u v] D(6) [of u t] D(6) [of t v] D(5) [of u] D(5) [of v] od t that
    by (auto simp: at split: if_splits)
  have c7: "quiet (pt_pcs s' ! u) \<or> freeing (pt_pcs s' ! u)" if "u < length (pt_pcs s)" "pt_gone s'" for u
    using D(7) [OF that(1)] gone [OF that(2)] that(1) by (auto simp: at)
  have c8: "\<not> pl_freed (pt_pool s')" if "u < length (pt_pcs s)" "freeing (pt_pcs s' ! u)" for u
    using D(8) [OF that(1)] D(9) [OF that(1) t] fr fd that by (auto simp: at split: if_splits)
  have g: "freeing (pt_pcs s ! u) \<Longrightarrow> pt_gone s" if "u < length (pt_pcs s)" for u
    using that by (auto simp: pt_gone_def)
  have c9: "u = v" if "u < length (pt_pcs s)" "v < length (pt_pcs s)"
    "freeing (pt_pcs s' ! u)" "freeing (pt_pcs s' ! v)" for u v
    using D(9) [of u v] D(9) [of u t] D(9) [of t v] g [of u] g [of v] fr t that
    by (auto simp: at split: if_splits)
  have c10: "cleared (pt_pool s') (pt_pcs s' ! u)" if "u < length (pt_pcs s)" for u
    using D(10) [OF that] clu [OF that] cl that by (simp add: at)
  show ?thesis
    unfolding pt_inv_def n
  proof (intro conjI, goal_cases)
    case 1 show ?case using bufs D(1) by simp
  next
    case 2 show ?case using c2 by blast
  next
    case 3 show ?case using c3 by blast
  next
    case 4 show ?case using c4 by blast
  next
    case 5 show ?case using c5 by blast
  next
    case 6 show ?case using c6 by blast
  next
    case 7 show ?case using c7 by blast
  next
    case 8 show ?case using c8 by blast
  next
    case 9 show ?case using c9 by blast
  next
    case 10 show ?case using c10 by blast
  qed
qed


section \<open>Every step is a step of the sequential pool, or none\<close>

lemma ex_goto:
  assumes "t < length pcs" and "P pc \<longleftrightarrow> P (pcs ! t)"
  shows "(\<exists>u < length (pcs[t := pc]). P (pcs[t := pc] ! u)) \<longleftrightarrow> (\<exists>u < length pcs. P (pcs ! u))"
  using assms by (auto simp: nth_list_update)

lemma pt_abs_stutter:
  assumes a: "pt_abs s a" and t: "t < length (pt_pcs s)" and pcs: "pt_pcs s' = (pt_pcs s)[t := pc]"
    and pool: "(pt_pool s')\<lparr>pl_freed := pt_gone s'\<rparr> = (pt_pool s)\<lparr>pl_freed := pt_gone s\<rparr>"
    and own: "pt_owner s' = pt_owner s" and od: "owner_dropping pc \<longleftrightarrow> owner_dropping (pt_pcs s ! t)"
    and owned: "mset (concat (pt_bufs s')) + mset (inflight pc) = mset (concat (pt_bufs s)) + mset (inflight (pt_pcs s ! t))"
  shows "pt_abs s' a"
proof -
  let ?X = "mset (concat (map inflight (pt_pcs s)))" and ?X' = "mset (concat (map inflight (pt_pcs s')))"
  have "?X' + mset (inflight (pt_pcs s ! t)) = ?X + mset (inflight pc)"
    using mset_inflight_update [OF t, of pc] by (simp only: pcs)
  then have "owned s' + mset (inflight (pt_pcs s ! t)) = mset (concat (pt_bufs s')) + (?X + mset (inflight pc))"
    by (simp only: owned_def add.assoc)
  also have "\<dots> = mset (concat (pt_bufs s')) + mset (inflight pc) + ?X" by (simp only: ac_simps)
  also have "\<dots> = owned s + mset (inflight (pt_pcs s ! t))" unfolding owned by (simp only: owned_def ac_simps)
  finally have "owned s' + mset (inflight (pt_pcs s ! t)) = owned s + mset (inflight (pt_pcs s ! t))" .
  then have "owned s' = owned s" by simp
  then show ?thesis using a pool own ex_goto [OF t od] by (simp add: pt_abs_def pcs)
qed

lemma not_gone:
  assumes "pt_inv s" and "t < length (pt_pcs s)" and "\<not> quiet (pt_pcs s ! t)" and "\<not> freeing (pt_pcs s ! t)"
  shows "\<not> pt_gone s" and "\<not> pl_freed (pt_pool s)"
  using pt_invD(7) [OF assms(1,2)] assms(3,4) by (auto simp: pt_gone_def)

text \<open>Taking and releasing the lock are invisible.\<close>

lemma acquire_sim:
  assumes inv: "pt_inv s" and a: "pt_abs s a" and t: "t < length (pt_pcs s)"
    and src: "\<not> quiet (pt_pcs s ! t)" "\<not> freeing (pt_pcs s ! t)"
    and pc: "holding pc" "inflight pc = inflight (pt_pcs s ! t)" "getting pc = getting (pt_pcs s ! t)"
      "owner_dropping pc = owner_dropping (pt_pcs s ! t)" "\<not> freeing pc"
      "cleared (pt_pool s) pc = cleared (pt_pool s) (pt_pcs s ! t)"
    and step: "pt_acquire t pc s = Some r"
  shows "\<exists>s'. r = Returns s' \<and> pt_inv s' \<and> pt_abs s' a"
proof -
  note ng = not_gone [OF inv t src]
  have l: "pt_lock s = None" and r: "r = Returns (goto t pc (s\<lparr>pt_lock := Some t\<rparr>))" (is "r = Returns ?s")
    using step ng(2) by (simp_all add: pt_acquire_def split: if_splits)
  have gone: "pt_gone ?s = pt_gone s" using pc src by (intro pt_gone_goto [OF t, of ?s pc]) auto
  note D = pt_invD [OF inv]
  have "pt_inv ?s"
    using pc src ng gone D(4,5,10) [OF t] t l D(2) [OF t]
    by (intro pt_inv_update [OF inv t, of ?s pc]) auto
  moreover have "pt_abs ?s a"
    using pc gone by (intro pt_abs_stutter [OF a t, of ?s pc]) simp_all
  ultimately show ?thesis using r by blast
qed

lemma release_sim:
  assumes inv: "pt_inv s" and a: "pt_abs s a" and t: "t < length (pt_pcs s)"
    and src: "holding (pt_pcs s ! t)" "\<not> quiet (pt_pcs s ! t)" "\<not> owner_dropping (pt_pcs s ! t)"
    and pc: "pc = Idle \<or> pc = Dealloc" "freeing pc \<longleftrightarrow> freeing (pt_pcs s ! t)"
    and bufs: "length bufs = length (pt_bufs s)"
      "mset (concat bufs) = mset (concat (pt_bufs s)) + mset (inflight (pt_pcs s ! t))"
    and step: "pt_release t pc (s\<lparr>pt_bufs := bufs\<rparr>) = Some r"
  shows "\<exists>s'. r = Returns s' \<and> pt_inv s' \<and> pt_abs s' a"
proof -
  let ?s = "goto t pc (s\<lparr>pt_bufs := bufs, pt_lock := None\<rparr>)"
  note D = pt_invD [OF inv]
  have nf: "\<not> pl_freed (pt_pool s)" using D(7,8) [OF t] src by (auto simp: pt_gone_def)
  have r: "r = Returns ?s" using step nf by (simp add: pt_release_def)
  have gone: "pt_gone ?s = pt_gone s" using pc by (intro pt_gone_goto [OF t, of ?s pc]) auto
  have "pt_inv ?s"
    using pc src nf gone D(4,5,10) [OF t] t D(2) [OF t] bufs
    by (intro pt_inv_update [OF inv t, of ?s pc]) auto
  moreover have "pt_abs ?s a"
    using pc src gone bufs by (intro pt_abs_stutter [OF a t, of ?s pc]) auto
  ultimately show ?thesis using r by blast
qed


lemma owned_goto:
  assumes "t < length (pt_pcs s)" and "pt_pcs s' = (pt_pcs s)[t := pc]"
  shows "owned s' + (mset (inflight (pt_pcs s ! t)) + mset (concat (pt_bufs s)))
    = owned s + (mset (inflight pc) + mset (concat (pt_bufs s')))"
proof -
  let ?X = "mset (concat (map inflight (pt_pcs s)))" and ?X' = "mset (concat (map inflight (pt_pcs s')))"
  have "owned s' + (mset (inflight (pt_pcs s ! t)) + mset (concat (pt_bufs s)))
    = (?X' + mset (inflight (pt_pcs s ! t))) + (mset (concat (pt_bufs s)) + mset (concat (pt_bufs s')))"
    by (simp only: owned_def ac_simps)
  also have "\<dots> = (?X + mset (inflight pc)) + (mset (concat (pt_bufs s)) + mset (concat (pt_bufs s')))"
    using mset_inflight_update [OF assms(1), of pc] by (simp only: assms(2))
  finally show ?thesis by (simp only: owned_def ac_simps)
qed

lemma inflight_owned:
  "t < length (pt_pcs s) \<Longrightarrow> h \<in> set (inflight (pt_pcs s ! t)) \<Longrightarrow> h \<in># owned s"
  by (auto simp: owned_def in_set_conv_nth intro!: bexI [of _ "pt_pcs s ! t"])

lemma owned_live: "pt_abs s a \<Longrightarrow> h \<in># owned s \<Longrightarrow> \<exists>l l'. sy_live a = l @ h # l'"
  by (simp add: pt_abs_def in_set_conv_decomp [symmetric] flip: set_mset_mset)

lemma abs_pool: "pt_abs s a \<Longrightarrow> \<not> pt_gone s \<Longrightarrow> sy_pool a = pt_pool s"
  by (cases "pt_pool s") (simp add: pt_abs_def pt_gone_def)

lemma cleared_mem: "pl_mem p = pl_mem q \<Longrightarrow> cleared p pc = cleared q pc"
  by (cases pc) simp_all

lemma get_sim:
  assumes inv: "pt_inv s" and a: "pt_abs s a" and sys: "sys_inv cap n a"
    and t: "t < length (pt_pcs s)" and pc: "pt_pcs s ! t = GetHold" and step: "pt_step t s = Some r"
  shows "\<exists>s' a'. r = Returns s' \<and> pt_inv s' \<and> sys_step a a' \<and> pt_abs s' a'"
proof -
  note D = pt_invD [OF inv]
  have ng: "\<not> pt_gone s" "\<not> pl_freed (pt_pool s)" using not_gone [OF inv t] pc by simp_all
  note pool = abs_pool [OF a ng(1)]
  have own: "pt_owner s" "sy_owner a" using D(4) [OF t] pc a by (simp_all add: pt_abs_def)
  obtain h p where g: "pool_get (pt_pool s) = Returns (h, p)" using get_returns [OF sys own(2)] pool by auto
  note same = pool_get_same [OF g]
  let ?s = "goto t (GetRelease h) (s\<lparr>pt_pool := p\<rparr>)" and ?a = "a\<lparr>sy_pool := p, sy_live := h # sy_live a\<rparr>"
  have r: "r = Returns ?s" using step pc g by (simp add: pt_step_def)
  have gone: "pt_gone ?s = pt_gone s" using pc same by (intro pt_gone_goto [OF t, of ?s "GetRelease h"]) auto
  have "pt_inv ?s"
    using pc ng gone own same D(2) [OF t] cleared_mem [of p "pt_pool s"]
    by (intro pt_inv_update [OF inv t, of ?s "GetRelease h"]) auto
  moreover have "sys_step a ?a" using sys_step.get [OF own(2)] g pool by simp
  moreover have "owned ?s = owned s + {#h#}"
    using owned_goto [OF t, of ?s "GetRelease h"] pc by simp
  then have "pt_abs ?s ?a"
    using a ng gone same own by (cases p) (simp add: pt_abs_def)
  ultimately show ?thesis using r by blast
qed

lemma buf_drop_single_sim:
  assumes inv: "pt_inv s" and a: "pt_abs s a" and sys: "sys_inv cap n a"
    and t: "t < length (pt_pcs s)" and pc: "pt_pcs s ! t = BufDrop (Single b)" and step: "pt_step t s = Some r"
    and l: "sy_live a = l @ Single b # l'"
  shows "\<exists>s' a'. r = Returns s' \<and> pt_inv s' \<and> sys_step a a' \<and> pt_abs s' a'"
proof -
  note D = pt_invD [OF inv]
  let ?s = "goto t Idle s" and ?a = "a\<lparr>sy_pool := sy_pool a, sy_live := l @ l'\<rparr>"
  have "single_buf_ok b" using sys l by (auto simp: sys_inv_def Let_def)
  then have d: "r = Returns ?s" "handle_drop (sy_pool a) (Single b) = Returns (sy_pool a)"
    using step pc by (simp_all add: pt_step_def pt_buf_drop_def handle_drop_def handle_buf_def single_buf_ok_def)
  have gone: "pt_gone ?s = pt_gone s" using pc by (intro pt_gone_goto [OF t, of ?s Idle]) auto
  have "pt_inv ?s"
    using pc gone D(2) [OF t] by (intro pt_inv_update [OF inv t, of ?s Idle]) auto
  moreover have "sys_step a ?a" by (rule sys_step.drop_buf [OF l d(2)])
  moreover have "owned s = owned ?s + {#Single b#}" using owned_goto [OF t, of ?s Idle] pc by simp
  then have "pt_abs ?s ?a"
    using a gone l pc ex_goto [OF t, of owner_dropping Idle] by (simp add: pt_abs_def)
  ultimately show ?thesis using d(1) by blast
qed

text \<open>The buffer is cleared before its thread asks for the lock: a step of the sequential pool of its own.\<close>

lemma buf_drop_pooled_sim:
  assumes inv: "pt_inv s" and a: "pt_abs s a" and sys: "sys_inv cap n a"
    and t: "t < length (pt_pcs s)" and pc: "pt_pcs s ! t = BufDrop (Pooled x)" and step: "pt_step t s = Some r"
    and l: "sy_live a = l @ Pooled x # l'"
  shows "\<exists>s' a'. r = Returns s' \<and> pt_inv s' \<and> sys_step a a' \<and> pt_abs s' a'"
proof -
  note D = pt_invD [OF inv]
  have ng: "\<not> pt_gone s" "\<not> pl_freed (pt_pool s)" using not_gone [OF inv t] pc by simp_all
  note pool = abs_pool [OF a ng(1)]
  have "valid_capacity cap" using sys by (simp add: sys_inv_def Let_def)
  moreover obtain b where b: "pl_mem (pt_pool s) x = Some b" "pooled_buf_ok cap b"
    using sys l pool by (auto simp: sys_inv_def Let_def)
  ultimately have "is_pooled b" using pooled_is_pooled by blast
  define p where "p = (pt_pool s)\<lparr>pl_mem := (pl_mem (pt_pool s))(x \<mapsto> buf_clear b)\<rparr>"
  let ?s = "goto t (DropWait x) (s\<lparr>pt_pool := p\<rparr>)" and ?a = "a\<lparr>sy_pool := p, sy_live := l @ Pooled x # l'\<rparr>"
  have r: "r = Returns ?s"
    using step pc b ng \<open>is_pooled b\<close> by (simp add: pt_step_def pt_buf_drop_def handle_buf_def p_def)
  have fr: "pl_freed p = pl_freed (pt_pool s)" by (simp add: p_def)
  have gone: "pt_gone ?s = pt_gone s" using pc fr by (intro pt_gone_goto [OF t, of ?s "DropWait x"]) auto
  have cl: "cleared (pt_pool s) q \<Longrightarrow> cleared p q" for q by (cases q) (auto simp: p_def buf_clear_def)
  have "cleared p (DropWait x)" by (simp add: p_def buf_clear_def)
  then have "pt_inv ?s"
    using pc ng gone fr cl D(2) [OF t] by (intro pt_inv_update [OF inv t, of ?s "DropWait x"]) auto
  moreover have "sys_step a ?a"
  proof (rule sys_step.use_buf [OF l])
    show "handle_buf (sy_pool a) (Pooled x) = Some b" using b ng pool by (simp add: handle_buf_def)
    show "buf_run False b [BClear] = Returns ([True], buf_clear b)" by simp
    show "handle_update (sy_pool a) (Pooled x) (buf_clear b) = (Pooled x, p)" by (simp add: handle_update_def pool p_def)
  qed
  moreover have "owned ?s = owned s" using owned_goto [OF t, of ?s "DropWait x"] pc by simp
  then have "pt_abs ?s ?a"
    using a gone ng fr l pc ex_goto [OF t, of owner_dropping "DropWait x"] by (cases p) (simp add: pt_abs_def)
  ultimately show ?thesis using r by blast
qed

lemma buf_drop_sim:
  assumes "pt_inv s" and "pt_abs s a" and "sys_inv cap n a" and t: "t < length (pt_pcs s)"
    and pc: "pt_pcs s ! t = BufDrop h" and step: "pt_step t s = Some r"
  shows "\<exists>s' a'. r = Returns s' \<and> pt_inv s' \<and> sys_step a a' \<and> pt_abs s' a'"
proof -
  have "h \<in># owned s" using inflight_owned [OF t, of h] pc by simp
  then obtain l l' where l: "sy_live a = l @ h # l'" using owned_live [OF assms(2)] by blast
  then show ?thesis
    using buf_drop_single_sim [OF assms(1-4) _ step] buf_drop_pooled_sim [OF assms(1-4) _ step] pc by (cases h) auto
qed

lemma pooled_Nil: "pooled hs = [] \<Longrightarrow> Pooled x \<notin> set hs"
  by (induction hs rule: pooled.induct) auto

text \<open>Once the pool is gone for the sequential view, no other thread is on its way into it.\<close>

lemma others_quiet:
  assumes inv: "pt_inv s" and t: "t < length (pt_pcs s)" and hold: "holding (pt_pcs s ! t)" and ng: "\<not> pt_gone s"
    and own: "\<not> pt_owner s" "\<And>u. u < length (pt_pcs s) \<Longrightarrow> \<not> owner_dropping (pt_pcs s ! u)"
    and live: "\<And>u x. u < length (pt_pcs s) \<Longrightarrow> u \<noteq> t \<Longrightarrow> Pooled x \<notin> set (inflight (pt_pcs s ! u))"
    and u: "u < length (pt_pcs s)" "u \<noteq> t"
  shows "quiet (pt_pcs s ! u)"
proof -
  note D = pt_invD [OF inv]
  have "\<not> holding (pt_pcs s ! u)" using D(2) [OF u(1)] D(2) [OF t] hold u(2) by simp
  moreover have "\<not> freeing (pt_pcs s ! u)" using ng u(1) by (auto simp: pt_gone_def)
  moreover have "\<not> getting (pt_pcs s ! u)" using D(4) [OF u(1)] own(1) by blast
  moreover note own(2) [OF u(1)] live [OF u]
  ultimately show ?thesis by (cases "pt_pcs s ! u" rule: quiet.cases) auto
qed

lemma last_return_quiet:
  assumes inv: "pt_inv s" and a: "pt_abs s a" and t: "t < length (pt_pcs s)" and pc: "pt_pcs s ! t = DropHold x"
    and l: "sy_live a = l @ Pooled x # l'" and ng: "\<not> pt_gone s" and last: "\<not> sy_owner a" "pooled (l @ l') = []"
    and u: "u < length (pt_pcs s)" "u \<noteq> t"
  shows "quiet (pt_pcs s ! u)"
proof (rule others_quiet [OF inv t _ ng _ _ _ u])
  show "\<not> pt_owner s" "\<And>u. u < length (pt_pcs s) \<Longrightarrow> \<not> owner_dropping (pt_pcs s ! u)"
    using last a by (auto simp: pt_abs_def)
  have "owned s = owned (goto t Idle s) + {#Pooled x#}" using owned_goto [OF t, of "goto t Idle s" Idle] pc by simp
  then have rest: "mset (l @ l') = owned (goto t Idle s)" using a l by (simp add: pt_abs_def)
  show "Pooled y \<notin> set (inflight (pt_pcs s ! v))" if v: "v < length (pt_pcs s)" "v \<noteq> t" for v y
  proof
    assume "Pooled y \<in> set (inflight (pt_pcs s ! v))"
    then have "Pooled y \<in># mset (l @ l')" using inflight_owned [of v "goto t Idle s" "Pooled y"] v rest by simp
    then show False using pooled_Nil [OF last(2)] by (metis set_mset_mset)
  qed
qed (simp add: pc)

lemma give_back_sim:
  assumes inv: "pt_inv s" and a: "pt_abs s a" and sys: "sys_inv cap n a"
    and t: "t < length (pt_pcs s)" and pc: "pt_pcs s ! t = DropHold x" and step: "pt_step t s = Some r"
  shows "\<exists>s' a'. r = Returns s' \<and> pt_inv s' \<and> sys_step a a' \<and> pt_abs s' a'"
proof -
  note D = pt_invD [OF inv]
  have ng: "\<not> pt_gone s" "\<not> pl_freed (pt_pool s)" using not_gone [OF inv t] pc by simp_all
  note pool = abs_pool [OF a ng(1)]
  have "Pooled x \<in># owned s" using inflight_owned [OF t] pc by simp
  then obtain l l' where l: "sy_live a = l @ Pooled x # l'" using owned_live [OF a] by blast
  obtain b where b: "pl_mem (pt_pool s) x = Some b" "b_len b = 0" using D(10) [OF t] pc by auto
  have "pooled_buf_ok cap b" "valid_capacity cap"
    using sys l b(1) pool by (auto simp: sys_inv_def Let_def)
  then have ip: "is_pooled b" by (rule pooled_is_pooled)
  have bc: "buf_clear b = b" using b(2) by (simp add: buf_clear_def)
  let ?c = "pl_cursor (pt_pool s)" and ?n = "length (pl_array (pt_pool s))"
  have c: "?c < ?n" using sys l pool by (auto simp: sys_inv_def Let_def)
  define p where "p = (pt_pool s)\<lparr>pl_array := (pl_array (pt_pool s))[?c := x], pl_cursor := ?c + 1\<rparr>"
  define f where "f \<longleftrightarrow> ?c + 1 = ?n \<and> pl_dropped (pt_pool s)"
  let ?s = "goto t (DropRelease f) (s\<lparr>pt_pool := p\<rparr>)" and ?p = "p\<lparr>pl_freed := f\<rparr>"
  let ?a = "a\<lparr>sy_pool := ?p, sy_live := l @ l'\<rparr>"
  have r: "r = Returns ?s"
    using step pc ng c by (auto simp: pt_step_def pt_give_back_def Let_def p_def f_def)
  have d: "handle_drop (sy_pool a) (Pooled x) = Returns ?p"
    using b(1) ip ng c unfolding handle_drop_def handle_buf_def pool
    by (cases "pt_pool s") (auto simp: Let_def bc p_def f_def map_upd_triv)
  from drop_inv [OF sys l] d have sys': "sys_inv cap n ?a"
    and freed: "f \<longleftrightarrow> \<not> sy_owner a \<and> pooled (l @ l') = []" using ng pool by auto
  have fr: "\<not> pl_freed p" using ng by (simp add: p_def)
  have gone: "pt_gone ?s \<longleftrightarrow> f"
    using ng fr t by (auto simp: pt_gone_def nth_list_update split: if_splits)
  have owned: "owned s = owned ?s + {#Pooled x#}" using owned_goto [OF t, of ?s "DropRelease f"] pc by simp
  have q: "quiet (pt_pcs s ! u)" if "f" "u < length (pt_pcs s)" "u \<noteq> t" for u
    using last_return_quiet [OF inv a t pc l ng(1) _ _ that(2,3)] freed that(1) by blast
  have cl: "cleared p q = cleared (pt_pool s) q" for q by (intro cleared_mem) (simp add: p_def)
  have "pt_inv ?s"
    using pc ng gone fr cl q D(2) [OF t] by (intro pt_inv_update [OF inv t, of ?s "DropRelease f"]) auto
  moreover have "sys_step a ?a" by (rule sys_step.drop_buf [OF l d])
  moreover have "pt_abs ?s ?a"
    using a gone l owned pc ex_goto [OF t, of owner_dropping "DropRelease f"] by (simp add: pt_abs_def)
  ultimately show ?thesis using r by blast
qed

lemma owner_drop_sim:
  assumes inv: "pt_inv s" and a: "pt_abs s a" and sys: "sys_inv cap n a"
    and t: "t < length (pt_pcs s)" and pc: "pt_pcs s ! t = OwnerHold" and step: "pt_step t s = Some r"
  shows "\<exists>s' a'. r = Returns s' \<and> pt_inv s' \<and> sys_step a a' \<and> pt_abs s' a'"
proof -
  note D = pt_invD [OF inv]
  have ng: "\<not> pt_gone s" "\<not> pl_freed (pt_pool s)" using not_gone [OF inv t] pc by simp_all
  note pool = abs_pool [OF a ng(1)]
  have own: "\<not> pt_owner s" "sy_owner a" using D(5) [OF t] pc a t by (auto simp: pt_abs_def intro!: exI [of _ t])
  have nd: "\<not> pl_dropped (pt_pool s)" using sys own pool by (simp add: sys_inv_def Let_def)
  let ?p = "(pt_pool s)\<lparr>pl_dropped := True\<rparr>"
  let ?s = "goto t (OwnerRelease False) (s\<lparr>pt_pool := ?p\<rparr>)" and ?a = "a\<lparr>sy_pool := ?p, sy_owner := False\<rparr>"
  have r: "r = Returns ?s" using step pc ng nd by (simp add: pt_step_def pt_owner_drop_def Let_def)
  have gone: "pt_gone ?s = pt_gone s" using pc by (intro pt_gone_goto [OF t, of ?s "OwnerRelease False"]) auto
  have "pt_inv ?s"
    using pc ng gone D(2) [OF t] cleared_mem [of ?p "pt_pool s"]
    by (intro pt_inv_update [OF inv t, of ?s "OwnerRelease False"]) auto
  moreover have "sys_step a ?a"
    using sys_step.drop_pool [OF own(2)] pool_drop_inv [OF sys own(2)] pool by simp
  moreover have "\<not> owner_dropping (pt_pcs ?s ! u)" if "u < length (pt_pcs s)" for u
    using that D(6) [OF t that] pc by (cases "u = t") auto
  moreover have "owned ?s = owned s" using owned_goto [OF t, of ?s "OwnerRelease False"] pc by simp
  ultimately have "pt_abs ?s ?a \<and> pt_inv ?s \<and> sys_step a ?a"
    using a gone ng own by (cases "pt_pool s") (auto simp: pt_abs_def)
  then show ?thesis using r by blast
qed

lemma dealloc_sim:
  assumes inv: "pt_inv s" and a: "pt_abs s a"
    and t: "t < length (pt_pcs s)" and pc: "pt_pcs s ! t = Dealloc" and step: "pt_step t s = Some r"
  shows "\<exists>s'. r = Returns s' \<and> pt_inv s' \<and> pt_abs s' a"
proof -
  note D = pt_invD [OF inv]
  have nf: "\<not> pl_freed (pt_pool s)" using D(8) [OF t] pc by simp
  have g: "pt_gone s" using t pc by (auto simp: pt_gone_def intro!: exI [of _ t])
  let ?s = "goto t Idle (s\<lparr>pt_pool := (pt_pool s)\<lparr>pl_freed := True\<rparr>\<rparr>)"
  have r: "r = Returns ?s" using step pc nf by (simp add: pt_step_def pt_dealloc_def)
  have g': "pt_gone ?s" by (simp add: pt_gone_def)
  have "pt_inv ?s"
    using pc g D(2) [OF t] cleared_mem [of "pt_pool ?s" "pt_pool s"]
    by (intro pt_inv_update [OF inv t, of ?s Idle]) auto
  moreover have "pt_abs ?s a" using pc g g' by (intro pt_abs_stutter [OF a t, of ?s Idle]) auto
  ultimately show ?thesis using r by blast
qed

text \<open>No step of a thread goes wrong, and each is one step of the sequential pool or invisible.\<close>

lemma pt_step_sim:
  assumes inv: "pt_inv s" and a: "pt_abs s a" and sys: "sys_inv cap n a"
    and t: "t < length (pt_pcs s)" and step: "pt_step t s = Some r"
  shows "\<exists>s' a'. r = Returns s' \<and> pt_inv s' \<and> sys_step\<^sup>*\<^sup>* a a' \<and> pt_abs s' a'"
proof -
  note sim = inv a sys t
  note acq = acquire_sim [OF inv a t] and rel = release_sim [OF inv a t]
  consider (work) "pt_pcs s ! t = GetHold \<or> (\<exists>h. pt_pcs s ! t = BufDrop h) \<or> (\<exists>x. pt_pcs s ! t = DropHold x) \<or> pt_pcs s ! t = OwnerHold"
    | (lock) "pt_pcs s ! t = GetWait \<or> (\<exists>x. pt_pcs s ! t = DropWait x) \<or> pt_pcs s ! t = OwnerWait"
    | (unlock) "(\<exists>h. pt_pcs s ! t = GetRelease h) \<or> (\<exists>b. pt_pcs s ! t = DropRelease b) \<or> (\<exists>b. pt_pcs s ! t = OwnerRelease b)"
    | (free) "pt_pcs s ! t = Dealloc"
    | (idle) "pt_pcs s ! t = Idle"
    by (cases "pt_pcs s ! t") auto
  then show ?thesis
  proof cases
    case work
    then have "\<exists>s' a'. r = Returns s' \<and> pt_inv s' \<and> sys_step a a' \<and> pt_abs s' a'"
      using get_sim [OF sim _ step] buf_drop_sim [OF sim _ step] give_back_sim [OF sim _ step] owner_drop_sim [OF sim _ step]
      by blast
    then show ?thesis by blast
  next
    case lock
    then have "\<exists>s'. r = Returns s' \<and> pt_inv s' \<and> pt_abs s' a"
      using step acq [of GetHold r] acq [of "DropHold x" r for x] acq [of OwnerHold r]
      by (auto simp: pt_step_def)
    then show ?thesis by blast
  next
    case unlock
    then have "\<exists>s'. r = Returns s' \<and> pt_inv s' \<and> pt_abs s' a"
    proof (elim disjE exE)
      fix h assume pc: "pt_pcs s ! t = GetRelease h"
      then show ?thesis
        using step t pt_invD(1) [OF inv] mset_concat_update [of t "pt_bufs s" "h # pt_bufs s ! t"]
          rel [of Idle "(pt_bufs s)[t := h # pt_bufs s ! t]" r]
        by (simp add: pt_step_def)
    next
      fix b assume pc: "pt_pcs s ! t = DropRelease b"
      then show ?thesis
        using step rel [of "if b then Dealloc else Idle" "pt_bufs s" r] by (simp add: pt_step_def split: if_splits)
    next
      fix b assume pc: "pt_pcs s ! t = OwnerRelease b"
      then show ?thesis
        using step rel [of "if b then Dealloc else Idle" "pt_bufs s" r] by (simp add: pt_step_def split: if_splits)
    qed
    then show ?thesis by blast
  next
    case free
    then show ?thesis using dealloc_sim [OF inv a t _ step] by blast
  next
    case idle
    then show ?thesis using step by (simp add: pt_step_def)
  qed
qed


section \<open>Calls\<close>

lemma count_pooled: "count (mset (pooled hs)) x = count (mset hs) (Pooled x)"
  by (induction hs rule: pooled.induct) auto

lemma distinct_pooled_split:
  assumes "distinct (pooled hs)" and "mset hs = A + B" and "Pooled x \<in># A"
  shows "Pooled x \<notin># B"
proof
  assume "Pooled x \<in># B"
  then have "2 \<le> count (mset hs) (Pooled x)"
    using assms(3) unfolding assms(2) count_greater_zero_iff [symmetric] count_union by linarith
  moreover have "count (mset (pooled hs)) x \<le> 1" using assms(1) by (simp add: distinct_count_atmost_1)
  ultimately show False by (simp add: count_pooled)
qed

text \<open>Steps on a thread's own buffers leave everything else alone.\<close>

lemma pt_inv_bufs:
  assumes "pt_inv s" and "pt_pcs s' = pt_pcs s" and "pt_lock s' = pt_lock s" and "pt_owner s' = pt_owner s"
    and "pl_freed (pt_pool s') = pl_freed (pt_pool s)" and "length (pt_bufs s') = length (pt_bufs s)"
    and "\<And>t. t < length (pt_pcs s) \<Longrightarrow> cleared (pt_pool s') (pt_pcs s ! t)"
  shows "pt_inv s'" and "pt_gone s' = pt_gone s"
  using assms unfolding pt_inv_def pt_gone_def by simp_all

lemma abs_freed: "pt_abs s a \<Longrightarrow> pl_freed (sy_pool a) = pt_gone s"
  by (simp add: pt_abs_def)

lemma gone_owner: "pt_abs s a \<Longrightarrow> sys_inv cap n a \<Longrightarrow> pt_gone s \<Longrightarrow> \<not> pt_owner s \<and> pooled (sy_live a) = []"
  using abs_freed [of s a] by (auto simp: sys_inv_def Let_def pt_abs_def)

text \<open>The buffers that are held are the same for both.\<close>

lemma abs_handle:
  assumes "pt_abs s a" and "sys_inv cap n a" and "h \<in> set (sy_live a)" and "handle_buf (pt_pool s) h = Some b"
  shows "handle_buf (sy_pool a) h = Some b"
proof (cases h)
  case (Pooled x)
  then have "x \<in> set (pooled (sy_live a))" using split_list [OF assms(3)] by auto
  then have "\<not> pt_gone s" using gone_owner [OF assms(1,2)] by auto
  then show ?thesis using assms(4) abs_pool [OF assms(1)] by simp
qed (use assms(4) in \<open>simp add: handle_buf_def\<close>)

lemma use_sim:
  assumes inv: "pt_inv s" and a: "pt_abs s a" and sys: "sys_inv cap n a"
    and t: "t < length (pt_pcs s)" and l: "pt_bufs s ! t = l @ h # l'" and b: "handle_buf (pt_pool s) h = Some b"
    and run: "buf_run debug b ops = Returns (oks, b')" and u: "handle_update (pt_pool s) h b' = (h', p)"
  shows "\<exists>a'. pt_inv (s\<lparr>pt_pool := p, pt_bufs := (pt_bufs s)[t := l @ h' # l']\<rparr>) \<and> sys_step\<^sup>*\<^sup>* a a'
    \<and> pt_abs (s\<lparr>pt_pool := p, pt_bufs := (pt_bufs s)[t := l @ h' # l']\<rparr>) a'"
proof -
  let ?s = "s\<lparr>pt_pool := p, pt_bufs := (pt_bufs s)[t := l @ h' # l']\<rparr>"
  note D = pt_invD [OF inv]
  have t': "t < length (pt_bufs s)" using t D(1) by simp
  define rest where "rest = mset (concat ((pt_bufs s)[t := l @ l'])) + mset (concat (map inflight (pt_pcs s)))"
  have owned: "owned s = rest + {#h#}" using mset_concat_shrink [OF t' l] by (simp add: owned_def rest_def)
  moreover have "mset (concat ((pt_bufs s)[t := l @ h' # l'])) = mset (concat ((pt_bufs s)[t := l @ l'])) + {#h'#}"
    using mset_concat_shrink [of t "(pt_bufs s)[t := l @ h' # l']" l h' l'] t' by simp
  ultimately have owned': "owned ?s = rest + {#h'#}" by (simp add: owned_def rest_def)
  obtain m m' where m: "sy_live a = m @ h # m'" using owned_live [OF a, of h] owned by auto
  have mem: "pl_freed p = pl_freed (pt_pool s)"
    using u by (auto simp: handle_update_def split: handle.splits)
  have cl: "cleared p (pt_pcs s ! v)" if v: "v < length (pt_pcs s)" for v
  proof (cases h)
    case (Single c)
    then show ?thesis using u D(10) [OF v] by (auto simp: handle_update_def)
  next
    case (Pooled x)
    then have p: "p = (pt_pool s)\<lparr>pl_mem := (pl_mem (pt_pool s))(x \<mapsto> b')\<rparr>" using u by (simp add: handle_update_def)
    have "Pooled x \<in># mset (concat (pt_bufs s))" unfolding mset_concat_shrink [OF t' l] by (simp add: Pooled)
    moreover have "distinct (pooled (sy_live a))" using sys by (simp add: sys_inv_def Let_def)
    ultimately have "Pooled x \<notin># mset (concat (map inflight (pt_pcs s)))"
      using a by (intro distinct_pooled_split [of "sy_live a" "mset (concat (pt_bufs s))"]) (simp_all add: pt_abs_def owned_def)
    then have "Pooled x \<notin> set (inflight (pt_pcs s ! v))" using v by auto
    then show ?thesis using D(10) [OF v] by (cases "pt_pcs s ! v") (auto simp: p)
  qed
  note K = pt_inv_bufs [OF inv, of ?s, simplified, OF mem cl]
  let ?p = "p\<lparr>pl_freed := pt_gone s\<rparr>"
  have b': "handle_buf (sy_pool a) h = Some b" using abs_handle [OF a sys _ b] m by simp
  have u': "handle_update (sy_pool a) h b' = (h', ?p)"
    using u a by (cases "pt_pool s"; cases h) (auto simp: handle_update_def pt_abs_def)
  let ?a = "a\<lparr>sy_pool := ?p, sy_live := m @ h' # m'\<rparr>"
  have "sys_step a ?a" by (rule sys_step.use_buf [OF m b' run u'])
  moreover have "pt_abs ?s ?a" using a m owned owned' K(2) by (simp add: pt_abs_def)
  ultimately show ?thesis using K(1) by blast
qed


lemma new_sim:
  assumes inv: "pt_inv s" and a: "pt_abs s a" and t: "t < length (pt_pcs s)"
    and step: "sys_step a (a\<lparr>sy_live := Single b # sy_live a\<rparr>)"
  shows "pt_inv (s\<lparr>pt_bufs := (pt_bufs s)[t := Single b # pt_bufs s ! t]\<rparr>)
    \<and> (\<exists>a'. sys_step\<^sup>*\<^sup>* a a' \<and> pt_abs (s\<lparr>pt_bufs := (pt_bufs s)[t := Single b # pt_bufs s ! t]\<rparr>) a')"
proof -
  let ?s = "s\<lparr>pt_bufs := (pt_bufs s)[t := Single b # pt_bufs s ! t]\<rparr>"
  have t': "t < length (pt_bufs s)" using t pt_invD(1) [OF inv] by simp
  have "pt_inv ?s" and g: "pt_gone ?s = pt_gone s" using pt_inv_bufs [OF inv, of ?s] pt_invD(10) [OF inv] by simp_all
  moreover have "owned ?s = owned s + {#Single b#}"
    using mset_concat_update [OF t', of "Single b # pt_bufs s ! t"] by (simp add: owned_def)
  then have "pt_abs ?s (a\<lparr>sy_live := Single b # sy_live a\<rparr>)" using a g by (simp add: pt_abs_def)
  ultimately show ?thesis using step by blast
qed

lemma call_sim:
  assumes call: "pt_call s s'" and inv: "pt_inv s" and a: "pt_abs s a" and sys: "sys_inv cap n a"
  shows "pt_inv s' \<and> (\<exists>a'. sys_step\<^sup>*\<^sup>* a a' \<and> pt_abs s' a')"
proof -
  note D = pt_invD [OF inv]
  note gone = gone_owner [OF a sys]
  show ?thesis
    using call
  proof cases
    case (call_get t)
    then have ng: "\<not> pt_gone s" using gone by blast
    have g: "pt_gone s' = pt_gone s" using call_get by (intro pt_gone_goto [of t s s' GetWait]) auto
    have "pt_inv s'"
      using call_get ng g D(2) [of t] by (intro pt_inv_update [OF inv, of t s' GetWait]) auto
    moreover have "pt_abs s' a" using call_get g by (intro pt_abs_stutter [OF a, of t s' GetWait]) auto
    ultimately show ?thesis by blast
  next
    case (call_drop t l h l')
    have t': "t < length (pt_bufs s)" using call_drop D(1) by simp
    note shrink = mset_concat_shrink [OF t' call_drop(4)]
    then have "h \<in># owned s" by (simp add: owned_def)
    then obtain m m' where "sy_live a = m @ h # m'" using owned_live [OF a] by blast
    then have q: "quiet (BufDrop h)" if "pt_gone s" using gone [OF that] by (cases h) auto
    have g: "pt_gone s' = pt_gone s" using call_drop by (intro pt_gone_goto [of t s s' "BufDrop h"]) auto
    have "pt_inv s'"
      using call_drop g q D(2) [of t] by (intro pt_inv_update [OF inv, of t s' "BufDrop h"]) auto
    moreover have "pt_abs s' a" using call_drop g shrink by (intro pt_abs_stutter [OF a, of t s' "BufDrop h"]) auto
    ultimately show ?thesis by blast
  next
    case (call_pool_drop t)
    then have ng: "\<not> pt_gone s" using gone by blast
    have g: "pt_gone s' = pt_gone s" using call_pool_drop by (intro pt_gone_goto [of t s s' OwnerWait]) auto
    have "pt_inv s'"
      using call_pool_drop ng g D(2) [of t] by (intro pt_inv_update [OF inv, of t s' OwnerWait]) auto
    moreover have "\<exists>u < length (pt_pcs s). owner_dropping ((pt_pcs s)[t := OwnerWait] ! u)"
      using call_pool_drop by (intro exI [of _ t]) simp
    then have "pt_abs s' a"
      using a call_pool_drop g owned_goto [of t s s' OwnerWait] by (simp add: pt_abs_def)
    ultimately show ?thesis by blast
  next
    case (call_new t c b)
    then show ?thesis using new_sim [OF inv a call_new(2)] sys_step.new_buf by blast
  next
    case (call_from t bs b)
    then show ?thesis using new_sim [OF inv a call_from(2)] sys_step.buf_from by blast
  next
    case (call_clone t h b c)
    have "h \<in># owned s"
      using call_clone(2,4) D(1) by (auto simp: owned_def intro!: bexI [of _ "pt_bufs s ! t"])
    then have "h \<in> set (sy_live a)" using owned_live [OF a] by fastforce
    moreover have "handle_buf (sy_pool a) h = Some b"
      using abs_handle [OF a sys] call_clone(5) calculation by blast
    ultimately show ?thesis
      using new_sim [OF inv a call_clone(2)] sys_step.clone_buf call_clone(1,6) by blast
  next
    case (call_use t l h l' b debug ops oks b' h' p)
    then show ?thesis using use_sim [OF inv a sys call_use(2,4,5,6,7)] by blast
  next
    case (call_send t u l h l')
    have t': "t < length (pt_bufs s)" "u < length (pt_bufs s)" using call_send D(1) by simp_all
    note K = pt_inv_bufs [OF inv, of s'] 
    have "pt_inv s'" and g: "pt_gone s' = pt_gone s" using K call_send D(10) by simp_all
    moreover have "owned s' = owned s"
      using mset_concat_update [of u "(pt_bufs s)[t := l @ l']" "h # pt_bufs s ! u"] mset_concat_shrink [OF t'(1) call_send(5)] t' call_send
      by (simp add: owned_def)
    then have "pt_abs s' a" using a g call_send by (simp add: pt_abs_def)
    ultimately show ?thesis by blast
  qed
qed

section \<open>Results\<close>

lemma pt_init_abs: "pt_inv (pt_init k p) \<and> (\<not> pl_freed p \<longrightarrow> pt_abs (pt_init k p) \<lparr>sy_pool = p, sy_owner = True, sy_live = []\<rparr>)"
proof -
  have "concat (map inflight (replicate k Idle)) = []" "concat (replicate k []) = []" by (induction k) auto
  moreover have "pt_gone (pt_init k p) = pl_freed p" by (auto simp: pt_gone_def pt_init_def)
  ultimately show ?thesis
    by (cases p) (auto simp: pt_inv_def pt_abs_def pt_init_def owned_def pt_gone_def)
qed

lemma reachable_steps: "sys_step\<^sup>*\<^sup>* a b \<Longrightarrow> reachable p a \<Longrightarrow> reachable p b"
  by (induction rule: rtranclp_induct) (auto intro: reachable.step)

lemma pt_reachable_sim:
  assumes "pt_reachable k p s" and p: "pool_new debug base inner cap n = Returns p"
  shows "pt_inv s \<and> (\<exists>a. reachable p a \<and> pt_abs s a)"
  using assms(1)
proof induction
  case pt_start
  have "\<not> pl_freed p" using pool_new_inv [OF p] by (auto simp: sys_inv_def Let_def)
  then show ?case using pt_init_abs [of k p] reachable.start [of p] by blast
next
  case (pt_called s s')
  then obtain a where a: "reachable p a" "pt_abs s a" by blast
  show ?case
    using call_sim [OF pt_called(2) _ a(2) reachable_inv [OF a(1) p]] pt_called(3) reachable_steps [OF _ a(1)] by blast
next
  case (pt_stepped s t s')
  then obtain a where a: "reachable p a" "pt_abs s a" by blast
  show ?case
    using pt_step_sim [OF _ a(2) reachable_inv [OF a(1) p] pt_stepped(2,3)] pt_stepped(4) reachable_steps [OF _ a(1)] by blast
qed

lemma pt_reachable_length: "pt_reachable k p s \<Longrightarrow> length (pt_pcs s) = k"
proof (induction rule: pt_reachable.induct)
  case (pt_called s s')
  then show ?case by (auto elim: pt_call.cases)
next
  case (pt_stepped s t s')
  then show ?case
    by (auto simp: pt_step_def pt_acquire_def pt_release_def pt_buf_drop_def pt_give_back_def pt_owner_drop_def
        pt_dealloc_def outcome_simps Let_def split: pool_pc.splits if_splits option.splits handle.splits)
qed (simp add: pt_init_def)


text \<open>
  C4: Every state the threads can reach stands for a state that the sequential pool can reach: the same
  buffers are held, the same are free, and the pool is gone as soon as a thread has decided to
  deallocate it. What theory \<open>Pool\<close> shows of the sequential pool therefore holds between the steps of
  threads.
\<close>

theorem pool_threads_refine:
  assumes "pool_new debug base inner cap n = Returns p" and "pt_reachable k p s"
  shows "\<exists>a. reachable p a \<and> mset (sy_live a) = owned s
    \<and> sy_pool a = (pt_pool s)\<lparr>pl_freed := pt_gone s\<rparr>
    \<and> (sy_owner a \<longleftrightarrow> pt_owner s \<or> (\<exists>t < k. owner_dropping (pt_pcs s ! t)))"
  using pt_reachable_sim [OF assms(2,1)] pt_reachable_length [OF assms(2)] by (auto simp: pt_abs_def)


subsection \<open>Progress\<close>

fun pt_remaining :: "pool_pc \<Rightarrow> nat" where
  "pt_remaining Idle = 0"
| "pt_remaining GetWait = 3"
| "pt_remaining GetHold = 2"
| "pt_remaining (GetRelease h) = 1"
| "pt_remaining (BufDrop h) = 5"
| "pt_remaining (DropWait a) = 4"
| "pt_remaining (DropHold a) = 3"
| "pt_remaining (DropRelease b) = 2"
| "pt_remaining OwnerWait = 4"
| "pt_remaining OwnerHold = 3"
| "pt_remaining (OwnerRelease b) = 2"
| "pt_remaining Dealloc = 1"

definition pt_work :: "pool_threads \<Rightarrow> nat" where
  "pt_work s = sum_list (map pt_remaining (pt_pcs s))"

definition pt_next :: "nat \<Rightarrow> pool_threads \<Rightarrow> pool_threads option" where
  "pt_next t s = (case pt_step t s of Some (Returns s') \<Rightarrow> Some s' | _ \<Rightarrow> None)"

definition pt_ok :: "nat \<Rightarrow> nat \<Rightarrow> pool_threads \<Rightarrow> bool" where
  "pt_ok cap n s \<longleftrightarrow> pt_inv s \<and> (\<exists>a. pt_abs s a \<and> sys_inv cap n a)"

lemma pt_next_iff: "pt_next t s = Some s' \<longleftrightarrow> pt_step t s = Some (Returns s')"
  by (simp add: pt_next_def split: option.splits outcome.splits)

lemma pt_step_pcs:
  assumes "pt_step t s = Some (Returns s')"
  obtains pc where "pt_pcs s' = (pt_pcs s)[t := pc]" "pt_remaining pc < pt_remaining (pt_pcs s ! t)"
  using assms
  by (auto simp: pt_step_def pt_acquire_def pt_release_def pt_buf_drop_def pt_give_back_def pt_owner_drop_def
      pt_dealloc_def outcome_simps Let_def split: pool_pc.splits if_splits option.splits handle.splits)

lemma steps_inv: "sys_step\<^sup>*\<^sup>* a b \<Longrightarrow> sys_inv cap n a \<Longrightarrow> sys_inv cap n b"
  by (induction rule: rtranclp_induct) (auto intro: step_inv)

lemma pt_next_ok: "pt_ok cap n s \<Longrightarrow> t < length (pt_pcs s) \<Longrightarrow> pt_next t s = Some s' \<Longrightarrow> pt_ok cap n s'"
  unfolding pt_ok_def pt_next_iff using pt_step_sim steps_inv by blast

lemma pt_next_enabled:
  assumes "pt_ok cap n s" and "t < length (pt_pcs s)" and "pt_step t s \<noteq> None"
  shows "pt_next t s \<noteq> None"
  using assms pt_step_sim [of s _ cap n t] unfolding pt_ok_def by (fastforce simp: pt_next_def)

text \<open>A thread can go on, except for the lock, and then the one that holds it can.\<close>

lemma pt_not_stuck:
  assumes ok: "pt_ok cap n s" and t: "t < length (pt_pcs s)" and busy: "pt_pcs s ! t \<noteq> Idle"
  shows "\<exists>u < length (pt_pcs s). pt_next u s \<noteq> None"
proof (cases "pt_step t s")
  case None
  then obtain u where u: "pt_lock s = Some u"
    using busy by (auto simp: pt_step_def pt_acquire_def pt_release_def split: pool_pc.splits if_splits)
  have inv: "pt_inv s" using ok by (simp add: pt_ok_def)
  have "u < length (pt_pcs s)" and "holding (pt_pcs s ! u)" using pt_invD(2,3) [OF inv] u by blast+
  moreover from this(2) have "pt_step u s \<noteq> None" by (cases "pt_pcs s ! u") (simp_all add: pt_step_def pt_release_def)
  ultimately show ?thesis using pt_next_enabled [OF ok] by blast
qed (use pt_next_enabled [OF ok t] t in blast)


lemma pt_next_work:
  assumes "t < length (pt_pcs s)" and "pt_next t s = Some s'"
  shows "pt_work s' < pt_work s \<and> length (pt_pcs s') = length (pt_pcs s)"
proof -
  obtain pc where pc: "pt_pcs s' = (pt_pcs s)[t := pc]" "pt_remaining pc < pt_remaining (pt_pcs s ! t)"
    using pt_step_pcs assms(2) unfolding pt_next_iff by blast
  then show ?thesis using sum_list_smaller [of t "pt_pcs s" pt_remaining pc] assms(1) by (simp add: pt_work_def)
qed

lemma pt_remaining_le: "pt_remaining pc \<le> 5"
  by (cases pc) simp_all

interpretation pt: thread_system "\<lambda>s. length (pt_pcs s)" pt_next "\<lambda>(e :: unit) s. s" "pt_ok cap n" pt_work
  "\<lambda>t s. pt_pcs s ! t = Idle" for cap n
  by unfold_locales (blast intro: pt_next_ok pt_not_stuck | simp add: pt_next_work)+

abbreviation pt_run :: "(unit + nat) list \<Rightarrow> pool_threads \<Rightarrow> pool_threads option" where
  "pt_run \<equiv> run_schedule (\<lambda>s. length (pt_pcs s)) pt_next (\<lambda>e s. s)"

lemma pt_run_reachable: "pt_run es s = Some s' \<Longrightarrow> pt_reachable k p s \<Longrightarrow> pt_reachable k p s'"
proof (induction es arbitrary: s)
  case (Cons e es)
  then show ?case
    by (cases e) (auto split: if_splits bind_splits simp: pt_next_iff intro: pt_stepped)
qed simp

text \<open>
  C20: No call waits for ever: from any state the threads can reach, a schedule of the calls that have
  begun takes at most five steps for each thread, and where no thread can make a step any more all
  of them have returned. There is no deadlock at the mutex, whoever drops what.
\<close>

theorem pool_threads_return:
  assumes "pool_new debug base inner cap n = Returns p" and "pt_reachable k p s" and "pt_run es s = Some s'"
  shows "thread_steps es \<le> 5 * k
    \<and> ((\<forall>t < k. pt_next t s' = None) \<longrightarrow> (\<forall>t < k. pt_pcs s' ! t = Idle))"
proof -
  have k: "length (pt_pcs s) = k" using assms(2) by (rule pt_reachable_length)
  have "pt_ok cap n s"
    using pt_reachable_sim [OF assms(2,1)] reachable_inv [OF _ assms(1)] by (auto simp: pt_ok_def)
  from pt.run_returns [OF this assms(3)] show ?thesis
    using sum_list_bound [of pt_remaining 5 "pt_pcs s"] pt_remaining_le k by (auto simp: pt_work_def)
qed

subsection \<open>Two threads and a pool of two buffers\<close>

text \<open>The first thread has taken a buffer. Then it drops the buffer while the second drops the pool.\<close>

definition pt8 :: pool_threads where
  "pt8 = \<lparr>pt_pool = pool8\<lparr>pl_cursor := 1\<rparr>, pt_owner = True, pt_lock = None,
     pt_pcs = [Idle, Idle], pt_bufs = [[Pooled 112], []]\<rparr>"

definition pt8_dropping :: pool_threads where
  "pt8_dropping = \<lparr>pt_pool = pool8\<lparr>pl_cursor := 1\<rparr>, pt_owner = False, pt_lock = None,
     pt_pcs = [BufDrop (Pooled 112), OwnerWait], pt_bufs = [[], []]\<rparr>"

lemmas pt_step_defs = pt_next_def pt_step_def pt_acquire_def pt_release_def pt_buf_drop_def pt_give_back_def
  pt_owner_drop_def pt_dealloc_def goto_def

lemma pt8_reachable: "pt_reachable 2 pool8 pt8"
proof -
  have "pt_reachable 2 pool8 (goto 0 GetWait (pt_init 2 pool8))"
    by (intro pt_called [OF pt_start] call_get) (simp_all add: pt_init_def)
  moreover have "pt_run [Inr 0, Inr 0, Inr 0] (goto 0 GetWait (pt_init 2 pool8)) = Some pt8"
    by (simp add: pt_step_defs pt_init_def pool_get_def pool8_def pt8_def numeral_2_eq_2)
  ultimately show ?thesis using pt_run_reachable by blast
qed

lemma pt8_dropping_reachable: "pt_reachable 2 pool8 pt8_dropping"
proof -
  let ?s = "goto 0 (BufDrop (Pooled 112)) (pt8\<lparr>pt_bufs := (pt_bufs pt8)[0 := [] @ []]\<rparr>)"
  have "pt_reachable 2 pool8 ?s"
    by (rule pt_called [OF pt8_reachable], rule call_drop) (simp_all add: pt8_def)
  then have "pt_reachable 2 pool8 (goto 1 OwnerWait (?s\<lparr>pt_owner := False\<rparr>))"
    by (rule pt_called, intro call_pool_drop) (auto simp: pt8_def goto_def nth_Cons')
  then show ?thesis by (simp add: pt8_def pt8_dropping_def goto_def)
qed

lemma pool_threads_refine_witness: "\<exists>a. reachable pool8 a \<and> mset (sy_live a) = {#Pooled 112#} \<and> sy_owner a"
  using pool_threads_refine [OF pool8_new pt8_reachable] by (auto simp: pt8_def owned_def)


lemma pt8_run:
  "\<exists>s. pt_run (map Inr [0, 1, 1, 1, 0, 0, 0, 0]) pt8_dropping = Some s \<and> pl_freed (pt_pool s)
    \<and> pt_next 0 s = None \<and> pt_next 1 s = None"
  by (simp add: pt_step_defs pt8_dropping_def pool8_def handle_buf_def is_pooled_def buf_clear_def
      BUF_HDR_CAPACITY_POOLED_FLAG_def Let_def)

lemma pool_threads_return_witness:
  "\<exists>s. pt_run (map Inr [0, 1, 1, 1, 0, 0, 0, 0]) pt8_dropping = Some s \<and> pl_freed (pt_pool s)
    \<and> (\<forall>t < 2. pt_pcs s ! t = Idle)"
proof -
  obtain s where s: "pt_run (map Inr [0, 1, 1, 1, 0, 0, 0, 0]) pt8_dropping = Some s" "pl_freed (pt_pool s)"
    "pt_next 0 s = None" "pt_next 1 s = None"
    using pt8_run by blast
  have "\<forall>t < 2. pt_next t s = None" using s(3,4) by (auto simp: less_2_cases_iff)
  then show ?thesis using pool_threads_return [OF pool8_new pt8_dropping_reachable s(1)] s by blast
qed

end
