(* ===== verification/BTree_Map.thy ===== *)
theory BTree_Map
  imports Prelude "HOL-Library.List_Lexorder"
begin

text \<open>
  The ordered map of the standard library that \<open>Dictionary\<close> is built on, with keys and values of
  any type: the list of its entries in the order of the keys. Two locales state what a map
  promises; the second adds that equal contents mean equal values, from which it follows that the
  order of insertions does not matter.
\<close>

locale map_spec =
  fixes empty :: 'm
    and get :: "'m \<Rightarrow> 'k \<Rightarrow> 'v option"
    and insert :: "'k \<Rightarrow> 'v \<Rightarrow> 'm \<Rightarrow> 'm"
    and inv :: "'m \<Rightarrow> bool"
  assumes inv_empty: "inv empty"
    and get_empty: "get empty k = None"
    and inv_insert: "inv m \<Longrightarrow> inv (insert k v m)"
    and get_insert: "inv m \<Longrightarrow> get (insert k v m) k' = (if k = k' then Some v else get m k')"
begin

primrec insert_all :: "('k \<times> 'v) list \<Rightarrow> 'm \<Rightarrow> 'm" where
  "insert_all [] m = m"
| "insert_all (e # es) m = insert_all es (insert (fst e) (snd e) m)"

lemma inv_insert_all: "inv m \<Longrightarrow> inv (insert_all es m)"
  by (induction es arbitrary: m) (simp_all add: inv_insert)

lemma get_insert_all:
  "inv m \<Longrightarrow> get (insert_all es m) k = (case map_of (rev es) k of Some v \<Rightarrow> Some v | None \<Rightarrow> get m k)"
  by (induction es arbitrary: m)
    (auto simp: inv_insert get_insert map_add_def split: option.split)

end

locale canonical_map = map_spec empty get insert inv
  for empty :: 'm and get :: "'m \<Rightarrow> 'k \<Rightarrow> 'v option" and insert :: "'k \<Rightarrow> 'v \<Rightarrow> 'm \<Rightarrow> 'm" and inv :: "'m \<Rightarrow> bool" +
  assumes canonical: "inv m \<Longrightarrow> inv m' \<Longrightarrow> (\<And>k. get m k = get m' k) \<Longrightarrow> m = m'"
begin

lemma insert_commute: "inv m \<Longrightarrow> k \<noteq> k' \<Longrightarrow> insert k v (insert k' v' m) = insert k' v' (insert k v m)"
  by (rule canonical) (auto simp: inv_insert get_insert)

lemma insert_twice: "inv m \<Longrightarrow> insert k v (insert k v' m) = insert k v m"
  by (rule canonical) (simp_all add: inv_insert get_insert)

lemma insert_same: "inv m \<Longrightarrow> get m k = Some v \<Longrightarrow> insert k v m = m"
  by (rule canonical) (auto simp: inv_insert get_insert)

text \<open>Only the last value given to a key counts, in whatever order the keys come.\<close>

lemma insert_all_cong:
  "inv m \<Longrightarrow> map_of (rev es) = map_of (rev es') \<Longrightarrow> insert_all es m = insert_all es' m"
  by (rule canonical) (simp_all add: inv_insert_all get_insert_all)

end

section \<open>Sorted entries\<close>

fun bt_get :: "('k::linorder \<times> 'v) list \<Rightarrow> 'k \<Rightarrow> 'v option" where
  "bt_get [] k = None"
| "bt_get ((x, v) # m) k = (if x = k then Some v else bt_get m k)"

fun bt_insert :: "'k::linorder \<Rightarrow> 'v \<Rightarrow> ('k \<times> 'v) list \<Rightarrow> ('k \<times> 'v) list" where
  "bt_insert k v [] = [(k, v)]"
| "bt_insert k v ((x, w) # m) =
     (if k < x then (k, v) # (x, w) # m else if k = x then (k, v) # m else (x, w) # bt_insert k v m)"

definition bt_inv :: "('k::linorder \<times> 'v) list \<Rightarrow> bool" where
  "bt_inv m \<longleftrightarrow> sorted_wrt (<) (map fst m)"

lemma bt_inv_simps [simp]:
  "bt_inv []" "bt_inv ((k, v) # m) \<longleftrightarrow> (\<forall>x \<in> set (map fst m). k < x) \<and> bt_inv m"
  by (simp_all add: bt_inv_def)

lemma bt_get_map_of: "bt_get m k = map_of m k"
  by (induction m k rule: bt_get.induct) auto

lemma keys_bt_insert: "set (map fst (bt_insert k v m)) = Set.insert k (set (map fst m))"
  by (induction k v m rule: bt_insert.induct) auto

lemma bt_inv_insert: "bt_inv m \<Longrightarrow> bt_inv (bt_insert k v m)"
proof (induction k v m rule: bt_insert.induct)
  case (2 k v x w m)
  then show ?case using keys_bt_insert [of k v m] by (auto simp: not_less)
qed simp

lemma bt_get_insert: "bt_get (bt_insert k v m) k' = (if k = k' then Some v else bt_get m k')"
  by (induction k v m rule: bt_insert.induct) auto

lemma bt_get_below: "bt_inv ((x, v) # m) \<Longrightarrow> k \<le> x \<Longrightarrow> bt_get m k = None"
  by (auto simp: bt_get_map_of map_of_eq_None_iff)

lemma bt_canonical: "bt_inv m \<Longrightarrow> bt_inv m' \<Longrightarrow> (\<And>k. bt_get m k = bt_get m' k) \<Longrightarrow> m = m'"
proof (induction m arbitrary: m')
  case Nil
  then show ?case by (cases m') (metis bt_get.simps(1) bt_get.simps(2) option.distinct(1) prod.exhaust)+
next
  case (Cons e m)
  obtain x v where e: "e = (x, v)" by (cases e)
  show ?case
  proof (cases m')
    case Nil
    then show ?thesis using Cons.prems(3) [of x] e by simp
  next
    case (Cons e' n)
    obtain y w where e': "e' = (y, w)" by (cases e')
    have i: "bt_inv ((x, v) # m)" "bt_inv ((y, w) # n)" using Cons.prems(1,2) Cons e e' by simp_all
    have g: "bt_get ((x, v) # m) k = bt_get ((y, w) # n) k" for k using Cons.prems(3) Cons e e' by simp
    have "x = y"
    proof (rule ccontr)
      assume "x \<noteq> y"
      then consider "x < y" | "y < x" by fastforce
      then show False
      proof cases
        case 1
        then show False using g [of x] bt_get_below [OF i(2), of x] by (simp split: if_splits)
      next
        case 2
        then show False using g [of y] bt_get_below [OF i(1) less_imp_le [OF 2]] by (simp split: if_splits)
      qed
    qed
    moreover have "v = w" using g [of x] \<open>x = y\<close> by simp
    moreover have "bt_get m k = bt_get n k" for k
      using g [of k] bt_get_below [OF i(1), of k] bt_get_below [OF i(2), of k] \<open>x = y\<close>
      by (cases "k = x") auto
    then have "m = n" using Cons.IH [of n] i by simp
    ultimately show ?thesis using Cons e e' by simp
  qed
qed

interpretation bt: canonical_map "[]" bt_get bt_insert bt_inv
  by unfold_locales (auto simp: bt_inv_insert bt_get_insert intro: bt_canonical)

text \<open>Entries in order are inserted at the end.\<close>

lemma bt_insert_last:
  "\<forall>x \<in> set (map fst m). x < k \<Longrightarrow> bt_insert k v m = m @ [(k, v)]"
  by (induction k v m rule: bt_insert.induct) auto

lemma bt_inv_append:
  "bt_inv (m @ n) \<longleftrightarrow> bt_inv m \<and> bt_inv n \<and> (\<forall>x \<in> set (map fst m). \<forall>y \<in> set (map fst n). x < y)"
  by (auto simp: bt_inv_def sorted_wrt_append)

end
