(* ===== verification/Utf8.thy ===== *)
theory Utf8
  imports Prelude
begin

text \<open>
  Well-formed UTF-8 as \<open>std::str::from_utf8\<close> and \<open>String::from_utf8\<close> check it: no overlong
  encodings, no surrogates, nothing above \<open>U+10FFFF\<close>. A \<open>String\<close> is a byte list with this property.
\<close>

definition utf8_cont :: "u8 \<Rightarrow> bool" where
  "utf8_cont c \<longleftrightarrow> 0x80 \<le> c \<and> c \<le> 0xbf"

text \<open>How many bytes follow a first byte, and the range of the second.\<close>

definition utf8_head :: "u8 \<Rightarrow> (nat \<times> u8 \<times> u8) option" where
  "utf8_head b =
     (if b \<le> 0x7f then Some (0, 0x80, 0xbf)
      else if 0xc2 \<le> b \<and> b \<le> 0xdf then Some (1, 0x80, 0xbf)
      else if b = 0xe0 then Some (2, 0xa0, 0xbf)
      else if b = 0xed then Some (2, 0x80, 0x9f)
      else if 0xe1 \<le> b \<and> b \<le> 0xef then Some (2, 0x80, 0xbf)
      else if b = 0xf0 then Some (3, 0x90, 0xbf)
      else if 0xf1 \<le> b \<and> b \<le> 0xf3 then Some (3, 0x80, 0xbf)
      else if b = 0xf4 then Some (3, 0x80, 0x8f)
      else None)"

definition utf8_tail :: "nat \<Rightarrow> u8 \<Rightarrow> u8 \<Rightarrow> u8 list \<Rightarrow> bool" where
  "utf8_tail n lo hi cs \<longleftrightarrow> n \<le> length cs \<and> list_all utf8_cont (take n cs)
     \<and> (n = 0 \<or> lo \<le> hd cs \<and> hd cs \<le> hi)"

function utf8_valid :: "u8 list \<Rightarrow> bool" where
  "utf8_valid [] \<longleftrightarrow> True"
| "utf8_valid (b # cs) \<longleftrightarrow>
     (case utf8_head b of
        None \<Rightarrow> False
      | Some (n, lo, hi) \<Rightarrow> utf8_tail n lo hi cs \<and> utf8_valid (drop n cs))"
  by pat_completeness auto
termination
  by (relation "measure length") auto

text \<open>Text is closed under concatenation, and ASCII is text.\<close>

lemma utf8_tail_append: "utf8_tail n lo hi cs \<Longrightarrow> utf8_tail n lo hi (cs @ ds)"
  by (auto simp: utf8_tail_def hd_append)

lemma utf8_valid_append: "utf8_valid xs \<Longrightarrow> utf8_valid (xs @ ys) \<longleftrightarrow> utf8_valid ys"
proof (induction xs rule: utf8_valid.induct)
  case (2 b cs)
  then obtain n lo hi where h: "utf8_head b = Some (n, lo, hi)" by (cases "utf8_head b") auto
  with 2 have t: "utf8_tail n lo hi cs" "utf8_valid (drop n cs)" by auto
  then have "drop n (cs @ ys) = drop n cs @ ys" by (simp add: utf8_tail_def)
  then show ?case using 2 h t utf8_tail_append by simp
qed simp

lemma utf8_ascii [simp]: "b \<le> 0x7f \<Longrightarrow> utf8_valid (b # cs) \<longleftrightarrow> utf8_valid cs"
  by (simp add: utf8_head_def utf8_tail_def)

lemma utf8_valid_ascii: "list_all (\<lambda>b. b \<le> 0x7f) bs \<Longrightarrow> utf8_valid bs"
  by (induction bs) (simp_all del: utf8_valid.simps(2))

lemma utf8_valid_concat: "list_all utf8_valid xss \<Longrightarrow> utf8_valid (concat xss)"
  by (induction xss) (simp_all add: utf8_valid_append)

text \<open>\<open>String::push\<close> of a \<open>char\<close> below \<open>U+0100\<close>, as \<open>u8 as char\<close> gives it.\<close>

definition push_latin1 :: "u8 \<Rightarrow> u8 list" where
  "push_latin1 c = (if c \<le> 0x7f then [c] else [0xc0 OR drop_bit 6 c, 0x80 OR (c AND 0x3f)])"

end
