(* ===== verification/Std_Text.thy ===== *)
theory Std_Text
  imports Prelude
begin

text \<open>
  What the code uses of the standard library's text handling, on UTF-8 bytes: digits, the parsing
  of integers, decimal and hexadecimal printing, and \<open>str::trim\<close>.
\<close>

section \<open>Digits and integers\<close>

text \<open>\<open>char::to_digit\<close>.\<close>

definition to_digit :: "nat \<Rightarrow> u8 \<Rightarrow> nat option" where
  "to_digit radix c =
     (let n = unat c;
          d = (if 48 \<le> n \<and> n \<le> 57 then n - 48
               else if 97 \<le> n \<and> n \<le> 122 then n - 87
               else if 65 \<le> n \<and> n \<le> 90 then n - 55 else 36)
      in if d < radix then Some d else None)"

text \<open>
  \<open>from_str_radix\<close> of an integer type with the values \<open>lo\<close> to \<open>hi\<close>: an optional sign (a minus only
  for a signed type), at least one digit, digits only, and no overflow at any step.
\<close>

fun radix_loop :: "nat \<Rightarrow> int \<Rightarrow> int \<Rightarrow> int \<Rightarrow> int \<Rightarrow> u8 list \<Rightarrow> int option" where
  "radix_loop radix sign lo hi acc [] = Some acc"
| "radix_loop radix sign lo hi acc (c # cs) =
     (case to_digit radix c of
        None \<Rightarrow> None
      | Some d \<Rightarrow>
          let mul = acc * int radix; acc' = mul + sign * int d in
          if lo \<le> mul \<and> mul \<le> hi \<and> lo \<le> acc' \<and> acc' \<le> hi
          then radix_loop radix sign lo hi acc' cs else None)"

definition from_str_radix :: "nat \<Rightarrow> int \<Rightarrow> int \<Rightarrow> u8 list \<Rightarrow> int option" where
  "from_str_radix radix lo hi s =
     (case s of
        [] \<Rightarrow> None
      | c # cs \<Rightarrow>
          if (c = 43 \<or> c = 45) \<and> cs = [] then None
          else if c = 43 then radix_loop radix 1 lo hi 0 cs
          else if c = 45 \<and> lo < 0 then radix_loop radix (- 1) lo hi 0 cs
          else radix_loop radix 1 lo hi 0 (c # cs))"

text \<open>Printing without leading zeros, in lower case.\<close>

definition digit_char :: "nat \<Rightarrow> u8" where
  "digit_char d = of_nat (if d < 10 then d + 48 else d + 87)"

function show_radix :: "nat \<Rightarrow> nat \<Rightarrow> u8 list" where
  "show_radix radix n =
     (if n < radix \<or> radix < 2 then [digit_char n] else show_radix radix (n div radix) @ [digit_char (n mod radix)])"
  by pat_completeness auto
termination
  by (relation "measure snd") auto

declare show_radix.simps [simp del]

lemma to_digit_char:
  assumes "d < radix" and "radix \<le> 36"
  shows "to_digit radix (digit_char d) = Some d"
proof -
  have "unat (digit_char d) = (if d < 10 then d + 48 else d + 87)"
    using assms by (simp add: digit_char_def unat_of_nat)
  then show ?thesis using assms by (auto simp: to_digit_def Let_def)
qed

text \<open>The value of a digit string, and what the parser makes of it.\<close>

fun digits_val :: "nat \<Rightarrow> nat \<Rightarrow> u8 list \<Rightarrow> nat" where
  "digits_val radix acc [] = acc"
| "digits_val radix acc (c # cs) = digits_val radix (acc * radix + the (to_digit radix c)) cs"

lemma digits_val_append: "digits_val radix acc (xs @ ys) = digits_val radix (digits_val radix acc xs) ys"
  by (induction xs arbitrary: acc) simp_all

definition all_digits :: "nat \<Rightarrow> u8 list \<Rightarrow> bool" where
  "all_digits radix s \<longleftrightarrow> list_all (\<lambda>c. to_digit radix c \<noteq> None) s"

lemma show_radix_digits:
  assumes "2 \<le> radix" and "radix \<le> 36"
  shows "all_digits radix (show_radix radix n) \<and> digits_val radix 0 (show_radix radix n) = n \<and> show_radix radix n \<noteq> []"
  using assms
proof (induction radix n rule: show_radix.induct)
  case (1 radix n)
  show ?case
  proof (cases "n < radix")
    case True
    then show ?thesis using 1 to_digit_char [of n radix] by (simp add: show_radix.simps [of radix n] all_digits_def)
  next
    case False
    have "n mod radix < radix" using "1.prems" by simp
    then show ?thesis
      using 1 False to_digit_char [of "n mod radix" radix]
      by (simp add: show_radix.simps [of radix n] all_digits_def digits_val_append)
  qed
qed

lemma length_show_radix:
  assumes "2 \<le> radix" and "n < radix ^ k" and "0 < k"
  shows "length (show_radix radix n) \<le> k"
  using assms
proof (induction radix n arbitrary: k rule: show_radix.induct)
  case (1 radix n k)
  show ?case
  proof (cases "n < radix")
    case False
    have "k \<noteq> 1" using False "1.prems" by auto
    then obtain j where j: "k = Suc j" "0 < j" using "1.prems"(3) by (cases k) auto
    then have "n div radix < radix ^ j" using "1.prems" by (simp add: less_mult_imp_div_less mult.commute)
    then have "length (show_radix radix (n div radix)) \<le> j" using 1 False j by simp
    then show ?thesis using False "1.prems" j by (simp add: show_radix.simps [of radix n])
  qed (use 1 in \<open>simp add: show_radix.simps [of radix n]\<close>)
qed

lemma show_radix_leading_zero:
  assumes "2 \<le> radix" and "radix \<le> 36" and "hd (show_radix radix n) = 48"
  shows "n = 0"
  using assms
proof (induction radix n rule: show_radix.induct)
  case (1 radix n)
  show ?case
  proof (cases "n < radix")
    case True
    have "to_digit radix 48 = Some 0" using "1.prems" by (simp add: to_digit_def)
    moreover have "to_digit radix (digit_char n) = Some n" using True "1.prems" by (intro to_digit_char)
    ultimately show ?thesis using True "1.prems" by (simp add: show_radix.simps [of radix n])
  next
    case False
    have "show_radix radix (n div radix) \<noteq> []" using show_radix_digits "1.prems" by blast
    then have "n div radix = 0" using 1 False by (simp add: show_radix.simps [of radix n])
    then show ?thesis using False "1.prems" by (simp add: div_eq_0_iff)
  qed
qed

lemma show_radix_0: "2 \<le> radix \<Longrightarrow> show_radix radix 0 = [48]"
  by (simp add: show_radix.simps [of radix 0] digit_char_def)

lemma digits_val_mono: "acc \<le> digits_val radix acc s" if "0 < radix"
proof (induction s arbitrary: acc)
  case (Cons c s)
  have "acc \<le> acc * radix + the (to_digit radix c)" using that by (simp add: trans_le_add1)
  then show ?case using Cons [of "acc * radix + the (to_digit radix c)"] by simp
qed simp

lemma radix_loop_digits:
  assumes "0 < radix" and "all_digits radix s" and "int (digits_val radix acc s) \<le> hi"
  shows "radix_loop radix 1 0 hi (int acc) s = Some (int (digits_val radix acc s))"
  using assms
proof (induction s arbitrary: acc)
  case (Cons c s)
  then obtain d where d: "to_digit radix c = Some d" by (auto simp: all_digits_def)
  let ?a = "acc * radix + d"
  have "digits_val radix acc (c # s) = digits_val radix ?a s" by (simp add: d)
  moreover have "?a \<le> digits_val radix ?a s" using digits_val_mono [OF Cons.prems(1)] .
  ultimately have "int ?a \<le> hi" using Cons.prems(3) by linarith
  moreover have "radix_loop radix 1 0 hi (int ?a) s = Some (int (digits_val radix ?a s))"
    using Cons by (intro Cons.IH) (simp_all add: all_digits_def d)
  ultimately show ?case by (simp add: d Let_def)
qed simp

lemma from_str_radix_digits:
  assumes "0 < radix" and "radix \<le> 36" and "all_digits radix s" and "s \<noteq> []" and "int (digits_val radix 0 s) \<le> hi"
  shows "from_str_radix radix 0 hi s = Some (int (digits_val radix 0 s))"
proof -
  obtain c cs where s: "s = c # cs" using assms(4) by (cases s) auto
  have "to_digit radix c \<noteq> None" using assms(3) by (simp add: s all_digits_def)
  then have "c \<noteq> 43" "c \<noteq> 45" using assms(2) by (auto simp: to_digit_def Let_def split: if_splits)
  then show ?thesis
    using radix_loop_digits [OF assms(1,3), of 0 hi] assms(5) by (simp add: from_str_radix_def s)
qed

lemma from_str_show:
  assumes "2 \<le> radix" and "radix \<le> 36" and "int n \<le> hi"
  shows "from_str_radix radix 0 hi (show_radix radix n) = Some (int n)"
  using from_str_radix_digits [of radix "show_radix radix n" hi] show_radix_digits [OF assms(1,2), of n] assms by simp

section \<open>Trimming\<close>

text \<open>The encodings of the white space characters of Unicode.\<close>

definition WHITESPACE :: "u8 list list" where
  "WHITESPACE =
     [[9], [10], [11], [12], [13], [32], [0xc2, 0x85], [0xc2, 0xa0], [0xe1, 0x9a, 0x80]]
     @ map (\<lambda>k. [0xe2, 0x80, k]) [0x80, 0x81, 0x82, 0x83, 0x84, 0x85, 0x86, 0x87, 0x88, 0x89, 0x8a, 0xa8, 0xa9, 0xaf]
     @ [[0xe2, 0x81, 0x9f], [0xe3, 0x80, 0x80]]"

function trim_prefix :: "u8 list list \<Rightarrow> u8 list \<Rightarrow> u8 list" where
  "trim_prefix ws s =
     (case find (\<lambda>w. w \<noteq> [] \<and> take (length w) s = w) ws of
        None \<Rightarrow> s
      | Some w \<Rightarrow> trim_prefix ws (drop (length w) s))"
  by pat_completeness auto
termination
  by (relation "measure (\<lambda>(ws, s). length s)") (auto simp: find_Some_iff intro!: diff_less)

declare trim_prefix.simps [simp del]

definition str_trim :: "u8 list \<Rightarrow> u8 list" where
  "str_trim s = rev (trim_prefix (map rev WHITESPACE) (rev (trim_prefix WHITESPACE s)))"

text \<open>Text whose first and last byte are printable ASCII is left as it is.\<close>

lemma trim_prefix_id:
  "s \<noteq> [] \<Longrightarrow> \<forall>w \<in> set ws. w = [] \<or> hd w \<noteq> hd s \<Longrightarrow> trim_prefix ws s = s"
proof -
  assume s: "s \<noteq> []" and ws: "\<forall>w \<in> set ws. w = [] \<or> hd w \<noteq> hd s"
  have "find (\<lambda>w. w \<noteq> [] \<and> take (length w) s = w) ws = None"
    using ws s by (auto simp: find_None_iff) (metis hd_take length_greater_0_conv)
  then show ?thesis by (simp add: trim_prefix.simps [of ws s])
qed

lemma str_trim_id:
  assumes "s \<noteq> []" and "33 \<le> hd s" and "hd s \<le> 126" and "33 \<le> last s" and "last s \<le> 126"
  shows "str_trim s = s"
proof -
  have W: "list_all (\<lambda>w. w \<noteq> [] \<and> (hd w < 33 \<or> 126 < hd w) \<and> (last w < 33 \<or> 126 < last w)) WHITESPACE"
    by code_simp
  have "trim_prefix WHITESPACE s = s"
    using W assms by (intro trim_prefix_id) (auto simp: list_all_iff)
  moreover have "trim_prefix (map rev WHITESPACE) (rev s) = rev s"
    using W assms by (intro trim_prefix_id) (auto simp: list_all_iff hd_rev)
  ultimately show ?thesis by (simp add: str_trim_def)
qed

end
