(* ===== verification/Dictionary.thy ===== *)
theory Dictionary
  imports BTree_Map Utf8 Std_Text Hex Stream
begin

text \<open>
  The key=value format of \<open>src/dictionary.rs\<close>. A dictionary is an ordered map from strings (UTF-8
  byte lists, in byte order) to byte lists; it can be written to any byte stream, and is read back
  by a state machine over the bytes.
\<close>

section \<open>Operations\<close>

type_synonym dict = "(u8 list \<times> u8 list) list"

definition BOOL_TRUTH :: "u8 list" where
  "BOOL_TRUTH = [49, 116, 84, 121, 89]"

definition dict_new :: dict where
  "dict_new = []"

definition dict_clear :: "dict \<Rightarrow> dict" where
  "dict_clear self = []"

definition dict_len :: "dict \<Rightarrow> nat" where
  "dict_len self = length self"

definition dict_is_empty :: "dict \<Rightarrow> bool" where
  "dict_is_empty self = (self = [])"

definition dict_iter :: "dict \<Rightarrow> (u8 list \<times> u8 list) list" where
  "dict_iter self = self"

definition get_bytes :: "dict \<Rightarrow> u8 list \<Rightarrow> u8 list option" where
  "get_bytes self k = bt_get self k"

definition get_str :: "dict \<Rightarrow> u8 list \<Rightarrow> u8 list option" where
  "get_str self k = Option.bind (bt_get self k) (\<lambda>v. if utf8_valid v then Some v else None)"

text \<open>The numbers are parsed by \<open>from_str_radix(s, 16)\<close> of \<open>u64\<close> and \<open>i64\<close>.\<close>

definition get_u64 :: "dict \<Rightarrow> u8 list \<Rightarrow> int option" where
  "get_u64 self k = Option.bind (get_str self k) (from_str_radix 16 0 (2 ^ 64 - 1))"

definition get_i64 :: "dict \<Rightarrow> u8 list \<Rightarrow> int option" where
  "get_i64 self k = Option.bind (get_str self k) (from_str_radix 16 (- (2 ^ 63)) (2 ^ 63 - 1))"

definition get_bool :: "dict \<Rightarrow> u8 list \<Rightarrow> bool option" where
  "get_bool self k =
     Option.bind (bt_get self k) (\<lambda>v. case v of [] \<Rightarrow> Some False | c # _ \<Rightarrow> Some (c \<in> set BOOL_TRUTH))"

definition set_bytes :: "dict \<Rightarrow> u8 list \<Rightarrow> u8 list \<Rightarrow> dict" where
  "set_bytes self k v = bt_insert k v self"

definition set_str :: "dict \<Rightarrow> u8 list \<Rightarrow> u8 list \<Rightarrow> dict" where
  "set_str self k v = bt_insert k v self"

definition set_u64 :: "dict \<Rightarrow> u8 list \<Rightarrow> u64 \<Rightarrow> dict" where
  "set_u64 self k v = bt_insert k (hex_to_vec_u64 v True) self"

definition set_bool :: "dict \<Rightarrow> u8 list \<Rightarrow> bool \<Rightarrow> dict" where
  "set_bool self k v = bt_insert k [if v then 49 else 48] self"

subsection \<open>Writing\<close>

text \<open>The bytes one turn of the loop of \<open>write_escaped\<close> writes.\<close>

definition dict_escape :: "u8 \<Rightarrow> u8 list" where
  "dict_escape b =
     (if b = 0 then [92, 48]
      else if b = 10 then [92, 110]
      else if b = 13 then [92, 114]
      else if b = 61 then [92, 101]
      else if b = 92 then [92, 92]
      else [b])"

fun write_escaped :: "'w write_all_fn \<Rightarrow> 'w \<Rightarrow> u8 list \<Rightarrow> 'w write_result" where
  "write_escaped wa w [] = Returns (Inr (), w)"
| "write_escaped wa w (b # bs) = and_then (wa w (dict_escape b)) (\<lambda>w. write_escaped wa w bs)"

fun dict_write_to :: "'w write_all_fn \<Rightarrow> 'w \<Rightarrow> dict \<Rightarrow> 'w write_result" where
  "dict_write_to wa w [] = Returns (Inr (), w)"
| "dict_write_to wa w ((k, v) # kvs) =
     and_then (write_escaped wa w k) (\<lambda>w.
     and_then (wa w [61]) (\<lambda>w.
     and_then (write_escaped wa w v) (\<lambda>w.
     and_then (wa w [10]) (\<lambda>w.
     dict_write_to wa w kvs))))"

text \<open>\<open>to_bytes\<close> writes to a new vector and ignores the result.\<close>

definition dict_to_bytes :: "dict \<Rightarrow> u8 list" where
  "dict_to_bytes self = (case dict_write_to vec_write_all [] self of Returns (_, b) \<Rightarrow> b | _ \<Rightarrow> [])"

subsection \<open>Reading\<close>

record parser =
  ps_d :: dict
  ps_k :: "u8 list"       \<comment> \<open>\<open>kv[0]\<close>\<close>
  ps_v :: "u8 list"       \<comment> \<open>\<open>kv[1]\<close>\<close>
  ps_state :: nat
  ps_escape :: bool

definition parser_push :: "parser \<Rightarrow> u8 \<Rightarrow> parser" where
  "parser_push p c =
     (if ps_state p = 0 then p\<lparr>ps_k := ps_k p @ [c]\<rparr> else p\<lparr>ps_v := ps_v p @ [c]\<rparr>)"

definition unescape_char :: "u8 \<Rightarrow> u8" where
  "unescape_char c = (if c = 48 then 0 else if c = 110 then 10 else if c = 114 then 13 else if c = 101 then 61 else c)"

text \<open>One turn of the loop of \<open>from_bytes\<close>; \<open>None\<close> is its early return.\<close>

definition parser_step :: "parser \<Rightarrow> u8 \<Rightarrow> parser option" where
  "parser_step p c =
     (if ps_escape p then Some (parser_push (p\<lparr>ps_escape := False\<rparr>) (unescape_char c))
      else if c = 92 then Some (p\<lparr>ps_escape := True\<rparr>)
      else if c = 61 then
        (if ps_state p \<noteq> 0 then None else Some (p\<lparr>ps_state := 1\<rparr>))
      else if c = 10 then
        (if ps_state p \<noteq> 1 then None
         else let p = p\<lparr>ps_state := 0\<rparr> in
              if ps_k p \<noteq> [] \<and> \<not> utf8_valid (ps_k p) then None
              else let d = (if ps_k p \<noteq> [] then bt_insert (ps_k p) (ps_v p) (ps_d p) else ps_d p)
                   in Some (p\<lparr>ps_d := d, ps_k := [], ps_v := []\<rparr>))
      else if c \<noteq> 13 then Some (parser_push p c)
      else Some p)"

fun parser_run :: "parser \<Rightarrow> u8 list \<Rightarrow> parser option" where
  "parser_run p [] = Some p"
| "parser_run p (c # cs) = Option.bind (parser_step p c) (\<lambda>p. parser_run p cs)"

definition parser_init :: "dict \<Rightarrow> parser" where
  "parser_init d = \<lparr>ps_d = d, ps_k = [], ps_v = [], ps_state = 0, ps_escape = False\<rparr>"

definition dict_from_bytes :: "u8 list \<Rightarrow> dict option" where
  "dict_from_bytes b = map_option ps_d (parser_run (parser_init dict_new) b)"

subsection \<open>Printing\<close>

text \<open>\<open>char::is_alphanumeric\<close> and \<open>char::is_whitespace\<close> on the characters below \<open>U+0100\<close>.\<close>

definition latin1_alphanumeric :: "u8 \<Rightarrow> bool" where
  "latin1_alphanumeric c \<longleftrightarrow>
     48 \<le> c \<and> c \<le> 57 \<or> 65 \<le> c \<and> c \<le> 90 \<or> 97 \<le> c \<and> c \<le> 122
     \<or> c \<in> {0xaa, 0xb2, 0xb3, 0xb5, 0xb9, 0xba, 0xbc, 0xbd, 0xbe}
     \<or> 0xc0 \<le> c \<and> c \<noteq> 0xd7 \<and> c \<noteq> 0xf7"

definition latin1_whitespace :: "u8 \<Rightarrow> bool" where
  "latin1_whitespace c \<longleftrightarrow> 9 \<le> c \<and> c \<le> 13 \<or> c = 32 \<or> c = 0x85 \<or> c = 0xa0"

fun append_printable :: "u8 list \<Rightarrow> u8 list \<Rightarrow> u8 list" where
  "append_printable s [] = s"
| "append_printable s (c # cs) =
     (if latin1_alphanumeric c \<or> latin1_whitespace c then append_printable (s @ push_latin1 c) cs
      else append_printable
        (s @ [92, 120, HEX_CHARS ! unat (drop_bit 4 c), HEX_CHARS ! unat (c AND 15)]) cs)"

fun dict_to_string_loop :: "u8 list \<Rightarrow> dict \<Rightarrow> u8 list" where
  "dict_to_string_loop s [] = s"
| "dict_to_string_loop s ((k, v) # kvs) =
     dict_to_string_loop (append_printable (append_printable s k @ [61]) v @ [10]) kvs"

definition dict_to_string :: "dict \<Rightarrow> u8 list" where
  "dict_to_string self = dict_to_string_loop [] self"

section \<open>What is written\<close>

definition dict_inv :: "dict \<Rightarrow> bool" where
  "dict_inv d \<longleftrightarrow> bt_inv d \<and> list_all (\<lambda>(k, v). utf8_valid k) d"

definition no_empty_key :: "dict \<Rightarrow> bool" where
  "no_empty_key d \<longleftrightarrow> list_all (\<lambda>(k, v). k \<noteq> []) d"

definition entry_chunks :: "u8 list \<times> u8 list \<Rightarrow> u8 list list" where
  "entry_chunks e = map dict_escape (fst e) @ [61] # map dict_escape (snd e) @ [[10]]"

definition dict_chunks :: "dict \<Rightarrow> u8 list list" where
  "dict_chunks d = concat (map entry_chunks d)"

lemma write_escaped_multi: "write_escaped wa w bs = write_all_multi wa w (map dict_escape bs)"
  by (induction bs arbitrary: w) simp_all

lemma dict_write_to_multi: "dict_write_to wa w d = write_all_multi wa w (dict_chunks d)"
proof (induction d arbitrary: w)
  case (Cons e d)
  obtain k v where e: "e = (k, v)" by (cases e)
  have "dict_chunks (e # d) = map dict_escape k @ [61] # (map dict_escape v @ [10] # dict_chunks d)"
    by (simp add: dict_chunks_def entry_chunks_def e)
  then show ?case
    by (simp add: e write_escaped_multi Cons.IH flip: and_then_multi)
qed (simp add: dict_chunks_def)

lemma dict_to_bytes_chunks: "dict_to_bytes d = concat (dict_chunks d)"
  by (simp add: dict_to_bytes_def dict_write_to_multi vec_multi)

text \<open>Writing a dictionary to any writer: all of its bytes, or an error and a prefix of them.\<close>

context writer begin

lemma dict_write_to_spec:
  assumes "ok w"
  shows "\<exists>r w' k. dict_write_to wa w d = Returns (r, w') \<and> ok w'
    \<and> (r = Inr () \<longleftrightarrow> fits w (length (dict_to_bytes d)))
    \<and> written w' = written w @ take k (dict_to_bytes d)
    \<and> (r = Inr () \<longrightarrow> written w' = written w @ dict_to_bytes d)"
proof (cases "fits w (length (dict_to_bytes d))")
  case True
  then obtain w' where "dict_write_to wa w d = Returns (Inr (), w')" "ok w'" "written w' = written w @ dict_to_bytes d"
    using multi_fits [OF assms, of "dict_chunks d"] by (auto simp: dict_write_to_multi dict_to_bytes_chunks)
  with True show ?thesis
    by (intro exI [of _ "Inr ()"] exI [of _ w'] exI [of _ "length (dict_to_bytes d)"]) simp
next
  case False
  then obtain e w' k where "dict_write_to wa w d = Returns (Inl e, w')" "ok w'"
    "written w' = written w @ take k (dict_to_bytes d)"
    using multi_short [OF assms, of "dict_chunks d"] by (auto simp: dict_write_to_multi dict_to_bytes_chunks)
  with False show ?thesis by (intro exI [of _ "Inl e"] exI [of _ w'] exI [of _ k]) simp
qed

end

section \<open>Reading back\<close>

lemma parser_run_append: "parser_run p (xs @ ys) = Option.bind (parser_run p xs) (\<lambda>p. parser_run p ys)"
  by (induction xs arbitrary: p) (auto split: Option.bind_split)

text \<open>Where the parser is not in the middle of an escape it takes an escaped byte as the byte.\<close>

lemma parser_escape:
  "\<not> ps_escape p \<Longrightarrow> parser_run p (dict_escape b @ rest) = parser_run (parser_push p b) rest"
  by (cases p) (auto simp: dict_escape_def parser_step_def unescape_char_def parser_push_def Let_def)

lemma parser_push_simps [simp]:
  "ps_escape (parser_push p b) = ps_escape p" "ps_state (parser_push p b) = ps_state p"
  "ps_d (parser_push p b) = ps_d p"
  by (simp_all add: parser_push_def)

definition parser_add :: "parser \<Rightarrow> u8 list \<Rightarrow> parser" where
  "parser_add p bs = (if ps_state p = 0 then p\<lparr>ps_k := ps_k p @ bs\<rparr> else p\<lparr>ps_v := ps_v p @ bs\<rparr>)"

lemma parser_escaped:
  "\<not> ps_escape p \<Longrightarrow> parser_run p (concat (map dict_escape bs) @ rest) = parser_run (parser_add p bs) rest"
proof (induction bs arbitrary: p)
  case Nil
  then show ?case by (simp add: parser_add_def)
next
  case (Cons b bs)
  have "parser_add (parser_push p b) bs = parser_add p (b # bs)"
    by (simp add: parser_add_def parser_push_def)
  then show ?case
    using Cons parser_escape [of p b "concat (map dict_escape bs) @ rest"] by simp
qed

lemma parser_entry:
  assumes "utf8_valid k"
  shows "parser_run (parser_init d) (concat (entry_chunks (k, v)) @ rest)
    = parser_run (parser_init (if k = [] then d else bt_insert k v d)) rest"
proof -
  let ?p = "parser_add (parser_init d) k"
  have "parser_run (parser_init d) (concat (entry_chunks (k, v)) @ rest)
    = parser_run ?p (61 # concat (map dict_escape v) @ 10 # rest)"
    by (simp add: entry_chunks_def parser_escaped parser_init_def)
  also have "\<dots> = parser_run (?p\<lparr>ps_state := 1\<rparr>) (concat (map dict_escape v) @ 10 # rest)"
    by (simp add: parser_step_def parser_add_def parser_init_def)
  also have "\<dots> = parser_run (parser_add (?p\<lparr>ps_state := 1\<rparr>) v) (10 # rest)"
    by (rule parser_escaped) (simp add: parser_add_def parser_init_def)
  also have "\<dots> = parser_run (parser_init (if k = [] then d else bt_insert k v d)) rest"
    using assms by (auto simp: parser_step_def parser_add_def parser_init_def Let_def)
  finally show ?thesis .
qed

lemma parser_entries:
  "list_all (\<lambda>(k, v). utf8_valid k) es \<Longrightarrow>
   parser_run (parser_init d) (dict_to_bytes es @ rest)
   = parser_run (parser_init (bt.insert_all (filter (\<lambda>(k, v). k \<noteq> []) es) d)) rest"
proof (induction es arbitrary: d)
  case Nil
  then show ?case by (simp add: dict_to_bytes_chunks dict_chunks_def)
next
  case (Cons e es)
  obtain k v where e: "e = (k, v)" by (cases e)
  have "dict_to_bytes (e # es) @ rest = concat (entry_chunks (k, v)) @ dict_to_bytes es @ rest"
    by (simp add: dict_to_bytes_chunks dict_chunks_def e)
  then show ?case using Cons parser_entry [of k d v] by (simp add: e)
qed

lemma insert_all_sorted: "bt_inv (m @ es) \<Longrightarrow> bt.insert_all es m = m @ es"
proof (induction es arbitrary: m)
  case (Cons e es)
  obtain k v where e: "e = (k, v)" by (cases e)
  have "bt_insert k v m = m @ [(k, v)]"
    using Cons.prems by (intro bt_insert_last) (auto simp: bt_inv_append e)
  then show ?case using Cons by (simp add: e)
qed simp

lemma bt_inv_filter: "bt_inv m \<Longrightarrow> bt_inv (filter P m)"
  by (induction m) (auto simp: bt_inv_def)

lemma from_bytes_to_bytes:
  assumes "dict_inv d"
  shows "dict_from_bytes (dict_to_bytes d) = Some (filter (\<lambda>(k, v). k \<noteq> []) d)"
proof -
  have "bt.insert_all (filter (\<lambda>(k, v). k \<noteq> []) d) [] = filter (\<lambda>(k, v). k \<noteq> []) d"
    using assms by (simp add: insert_all_sorted [of "[]", simplified] bt_inv_filter dict_inv_def)
  then show ?thesis
    using parser_entries [of d "[]" "[]"] assms
    by (simp add: dict_from_bytes_def dict_inv_def dict_new_def parser_init_def)
qed

section \<open>Properties of the format\<close>

lemma set_bt_insert: "set (bt_insert k v m) \<subseteq> Set.insert (k, v) (set m)"
  by (induction k v m rule: bt_insert.induct) auto

lemma dict_inv_insert:
  "dict_inv d \<Longrightarrow> utf8_valid k \<Longrightarrow> dict_inv (bt_insert k v d)"
  using set_bt_insert [of k v d] by (auto simp: dict_inv_def bt_inv_insert list_all_iff)

lemma no_empty_key_insert:
  "no_empty_key d \<Longrightarrow> k \<noteq> [] \<Longrightarrow> no_empty_key (bt_insert k v d)"
  using set_bt_insert [of k v d] by (auto simp: no_empty_key_def list_all_iff)

lemma no_empty_key_filter: "no_empty_key d \<Longrightarrow> filter (\<lambda>(k, v). k \<noteq> []) d = d"
  by (simp add: no_empty_key_def list_all_iff filter_id_conv)

lemma parser_step_inv:
  "parser_step p c = Some p' \<Longrightarrow> dict_inv (ps_d p) \<and> no_empty_key (ps_d p) \<Longrightarrow>
   dict_inv (ps_d p') \<and> no_empty_key (ps_d p')"
  by (auto simp: parser_step_def Let_def dict_inv_insert no_empty_key_insert split: if_splits)

lemma parser_run_inv:
  "parser_run p b = Some p' \<Longrightarrow> dict_inv (ps_d p) \<and> no_empty_key (ps_d p) \<Longrightarrow>
   dict_inv (ps_d p') \<and> no_empty_key (ps_d p')"
proof (induction b arbitrary: p)
  case (Cons c b)
  then obtain q where "parser_step p c = Some q" "parser_run q b = Some p'" by (auto simp: bind_eq_Some_conv)
  then show ?case using Cons parser_step_inv by blast
qed simp

text \<open>
  C10: What \<open>to_bytes\<close> writes, \<open>from_bytes\<close> reads back, up to an entry with the empty key, which the
  reader skips. Keys and values may hold any byte, the separators and the escape included.
\<close>

theorem dict_roundtrip:
  assumes "dict_inv d"
  shows "dict_from_bytes (dict_to_bytes d) = Some (filter (\<lambda>(k, v). k \<noteq> []) d)"
  by (rule from_bytes_to_bytes [OF assms])

theorem dict_roundtrip_witness:
  "dict_from_bytes (dict_to_bytes [([], [1]), ([61, 97], [0, 10, 13, 92])]) = Some [([61, 97], [0, 10, 13, 92])]"
proof -
  have "dict_inv [([], [1]), ([61, 97], [0, 10, 13, 92])]"
    by (simp add: dict_inv_def del: utf8_valid.simps(2))
  from dict_roundtrip [OF this] show ?thesis by simp
qed

text \<open>
  C11: Whatever bytes \<open>from_bytes\<close> accepts, the result is well formed: valid UTF-8 keys, none empty, in
  strict order. Writing it gives a normal form of the input: it reads back as the same dictionary.
\<close>

theorem dict_from_bytes_normal:
  assumes "dict_from_bytes b = Some d"
  shows "dict_inv d \<and> no_empty_key d \<and> dict_from_bytes (dict_to_bytes d) = Some d"
proof -
  have "dict_inv d \<and> no_empty_key d"
    using assms parser_run_inv [of "parser_init dict_new" b]
    by (auto simp: dict_from_bytes_def parser_init_def dict_new_def dict_inv_def no_empty_key_def)
  then show ?thesis by (simp add: from_bytes_to_bytes no_empty_key_filter)
qed

theorem dict_from_bytes_normal_witness:
  "dict_from_bytes (dict_to_bytes [([97], [51]), ([98], [50])]) = Some [([97], [51]), ([98], [50])]"
proof -
  have "dict_from_bytes [98, 61, 49, 10, 97, 61, 51, 13, 10, 98, 61, 92, 50, 10] = Some [([97], [51]), ([98], [50])]"
    by (simp add: dict_from_bytes_def parser_init_def parser_step_def parser_push_def unescape_char_def
        dict_new_def del: utf8_valid.simps(2))
  from dict_from_bytes_normal [OF this] show ?thesis by blast
qed

text \<open>
  The bytes identify the contents: two dictionaries are written the same way exactly if they hold
  the same entries, in whatever order these were set.
\<close>

theorem dict_to_bytes_canonical:
  assumes "dict_inv d" and "dict_inv d'" and "no_empty_key d" and "no_empty_key d'"
  shows "dict_to_bytes d = dict_to_bytes d' \<longleftrightarrow> (\<forall>k. get_bytes d k = get_bytes d' k)"
proof
  assume "dict_to_bytes d = dict_to_bytes d'"
  moreover have "dict_from_bytes (dict_to_bytes d) = Some d" "dict_from_bytes (dict_to_bytes d') = Some d'"
    using assms by (simp_all add: from_bytes_to_bytes no_empty_key_filter)
  ultimately have "d = d'" by (metis option.inject)
  then show "\<forall>k. get_bytes d k = get_bytes d' k" by simp
next
  assume "\<forall>k. get_bytes d k = get_bytes d' k"
  then have "d = d'" using assms(1,2) by (intro bt.canonical) (simp_all add: dict_inv_def get_bytes_def)
  then show "dict_to_bytes d = dict_to_bytes d'" by simp
qed

theorem dict_to_bytes_canonical_witness:
  "dict_to_bytes (set_str (set_str dict_new [97] [49]) [98] [50])
   = dict_to_bytes (set_str (set_str dict_new [98] [50]) [97] [49])"
proof -
  let ?d = "set_str (set_str dict_new [97] [49]) [98] [50]"
  let ?d' = "set_str (set_str dict_new [98] [50]) [97] [49]"
  have d: "?d = [([97], [49]), ([98], [50])]" "?d' = [([97], [49]), ([98], [50])]"
    by (simp_all add: set_str_def dict_new_def)
  have "dict_inv [([97], [49]), ([98], [50])]" "no_empty_key [([97], [49]), ([98], [50])]"
    by (simp_all add: dict_inv_def no_empty_key_def del: utf8_valid.simps(2))
  then show ?thesis using dict_to_bytes_canonical [of ?d ?d'] by (simp add: d)
qed

text \<open>Two dictionaries written one after the other read back as one, the later entries winning.\<close>

theorem dict_concat:
  assumes "dict_inv d" and "dict_inv d'" and "k \<noteq> []"
  shows "\<exists>m. dict_from_bytes (dict_to_bytes d @ dict_to_bytes d') = Some m
    \<and> get_bytes m k = (case get_bytes d' k of Some v \<Rightarrow> Some v | None \<Rightarrow> get_bytes d k)"
proof -
  let ?f = "filter (\<lambda>(k, v). k \<noteq> [])"
  have get: "bt_get (?f m) k = bt_get m k" for m :: dict
    using assms(3) by (induction m) auto
  have rev: "map_of (rev (?f m)) k = bt_get m k" if "dict_inv m" for m
  proof -
    have "distinct (map fst (?f m))"
      using that bt_inv_filter [of m] by (simp add: dict_inv_def bt_inv_def strict_sorted_iff)
    then have "map_of (rev (?f m)) = map_of (?f m)"
      by (subst map_of_inject_set) (simp_all flip: rev_map)
    then show ?thesis using get [of m] by (simp add: bt_get_map_of)
  qed
  let ?m = "bt.insert_all (?f d') (bt.insert_all (?f d) [])"
  have "dict_from_bytes (dict_to_bytes d @ dict_to_bytes d') = Some ?m"
    using parser_entries [of d "[]" "dict_to_bytes d'"] parser_entries [of d' "bt.insert_all (?f d) []" "[]"] assms
    by (simp add: dict_from_bytes_def dict_inv_def dict_new_def parser_init_def)
  moreover have "bt_get ?m k = (case bt_get d' k of Some v \<Rightarrow> Some v | None \<Rightarrow> bt_get d k)"
    using rev [OF assms(1)] rev [OF assms(2)]
    by (simp add: bt.get_insert_all bt.inv_insert_all split: option.split)
  ultimately show ?thesis by (simp add: get_bytes_def split: option.split)
qed

section \<open>Typed values\<close>

lemma to_digit_hex: "to_digit 16 c = map_option unat (hex_digit c)"
proof -
  have "list_all (\<lambda>n. let c = of_nat n in to_digit 16 c = map_option unat (hex_digit c)) [0..<256]" by code_simp
  moreover have "unat c \<in> set [0..<256]" by simp
  ultimately have "let c = of_nat (unat c) in to_digit 16 c = map_option unat (hex_digit c)"
    unfolding list_all_iff by (rule bspec)
  then show ?thesis by (simp add: Let_def)
qed

lemma digits_val_hex:
  "list_all (\<lambda>c. hex_digit c \<noteq> None) s \<Longrightarrow>
   digits_val 16 acc s = acc * 16 ^ length s + digits_value (hex_digits s)"
proof (induction s arbitrary: acc)
  case (Cons c s)
  then obtain d where d: "hex_digit c = Some d" by auto
  have "length (hex_digits s) = length s" using Cons.prems by (induction s) auto
  then show ?case using Cons by (simp add: to_digit_hex d algebra_simps)
qed simp

lemma hex_digits_all: "length (hex_digits s) = length s \<Longrightarrow> list_all (\<lambda>c. hex_digit c \<noteq> None) s"
proof (induction s)
  case (Cons c s)
  have "length (hex_digits s) \<le> length s" by (induction s) (auto split: option.split)
  then show ?case using Cons by (auto split: option.splits)
qed simp

lemma hex_digit_ascii: "hex_digit c \<noteq> None \<Longrightarrow> c \<le> 0x7f"
  by (auto simp: hex_digit_def word_le_nat_alt split: if_splits)

lemma to_vec_u64_empty: "hex_to_vec_u64 v True = [] \<longleftrightarrow> v = 0"
proof
  assume "hex_to_vec_u64 v True = []"
  then show "v = 0" using to_string_u64_digits [of v True] by (simp add: to_vec_u64_eq unsigned_eq_0_iff)
next
  assume "v = 0"
  then show "hex_to_vec_u64 v True = []" by (simp only:) code_simp
qed

text \<open>
  C28: \<open>get_u64\<close> returns what \<open>set_u64\<close> stored, except for zero: its digits are all leading zeros, so
  it is stored as the empty string, which does not parse.
\<close>

theorem dict_get_set_u64:
  "get_u64 (set_u64 d k v) k = (if v = 0 then None else Some (uint v))"
proof (cases "v = 0")
  case True
  then have "hex_to_vec_u64 v True = []" by (simp add: to_vec_u64_empty)
  then show ?thesis
    by (simp add: get_u64_def get_str_def set_u64_def bt_get_insert True from_str_radix_def)
next
  case False
  let ?s = "hex_to_vec_u64 v True"
  have dg: "list_all (\<lambda>c. hex_digit c \<noteq> None) ?s" "digits_value (hex_digits ?s) = unat v"
    using to_string_u64_digits [of v True] hex_digits_all [of ?s] by (simp_all add: to_vec_u64_eq)
  have "list_all (\<lambda>c. c \<le> 0x7f) ?s" using dg(1) hex_digit_ascii by (auto simp: list_all_iff)
  then have u: "utf8_valid ?s" by (rule utf8_valid_ascii)
  have "from_str_radix 16 0 (2 ^ 64 - 1) ?s = Some (int (digits_val 16 0 ?s))"
  proof (rule from_str_radix_digits)
    show "all_digits 16 ?s" using dg(1) by (simp add: all_digits_def to_digit_hex)
    show "?s \<noteq> []" using False by (simp add: to_vec_u64_empty)
    have "int (unat v) \<le> 2 ^ 64 - 1" using unsigned_less [where ?'a = int, of v] by simp
    then show "int (digits_val 16 0 ?s) \<le> 2 ^ 64 - 1" using dg by (simp add: digits_val_hex)
  qed simp_all
  also have "\<dots> = Some (uint v)" using dg by (simp add: digits_val_hex)
  finally show ?thesis
    using u False by (simp add: get_u64_def get_str_def set_u64_def bt_get_insert)
qed

text \<open>Setting a value changes its own key alone, and a boolean or a string reads back as it was set.\<close>

theorem dict_get_set:
  "get_bool (set_bool d k b) k = Some b
   \<and> get_str (set_str d k v) k = (if utf8_valid v then Some v else None)
   \<and> get_bytes (set_bytes d k v) k' = (if k = k' then Some v else get_bytes d k')"
  by (simp add: get_bool_def set_bool_def get_str_def set_str_def get_bytes_def set_bytes_def bt_get_insert
      BOOL_TRUTH_def)

text \<open>The printed form is text, whatever the values hold.\<close>

lemma push_latin1_all: "list_all (\<lambda>n. utf8_valid (push_latin1 (of_nat n))) [0..<256]"
  by code_simp

lemma push_latin1_valid: "utf8_valid (push_latin1 c)"
proof -
  have "unat c \<in> set [0..<256]" by simp
  with push_latin1_all have "utf8_valid (push_latin1 (of_nat (unat c)))"
    unfolding list_all_iff by (rule bspec)
  then show ?thesis by simp
qed

lemma HEX_CHARS_ascii: "n < 16 \<Longrightarrow> HEX_CHARS ! n \<le> 0x7f"
proof -
  have "\<forall>n<16. HEX_CHARS ! n \<le> 0x7f" unfolding all_less_16 by (simp add: HEX_CHARS_def upt_rec)
  then show "n < 16 \<Longrightarrow> HEX_CHARS ! n \<le> 0x7f" by blast
qed

lemma unat_nibbles: "unat (drop_bit 4 c) < 16" "unat (c AND 15) < 16" for c :: u8
proof -
  have "unat c < 16 * 16" by simp
  then have "unat c div 16 < 16" by (rule less_mult_imp_div_less)
  then show "unat (drop_bit 4 c) < 16" by (simp add: drop_bit_eq_div unat_div_distrib)
  have "(15 :: u8) = mask 4" by (simp add: mask_eq_exp_minus_1)
  then have "unat (c AND 15) = take_bit 4 (unat c)" by (metis take_bit_eq_mask unsigned_take_bit_eq)
  then show "unat (c AND 15) < 16" using take_bit_nat_less_exp [of 4 "unat c"] by simp
qed

lemma append_printable_valid: "utf8_valid s \<Longrightarrow> utf8_valid (append_printable s cs)"
proof (induction cs arbitrary: s)
  case (Cons c cs)
  have "utf8_valid [92, 120, HEX_CHARS ! unat (drop_bit 4 c), HEX_CHARS ! unat (c AND 15)]"
    using HEX_CHARS_ascii [of "unat (drop_bit 4 c)"] HEX_CHARS_ascii [of "unat (c AND 15)"] unat_nibbles [of c]
    by (simp del: utf8_valid.simps(2))
  then show ?case
    using Cons push_latin1_valid [of c] by (simp add: utf8_valid_append del: utf8_valid.simps(2))
qed simp

text \<open>The printed form is text, whatever bytes the values hold.\<close>

theorem dict_to_string_text: "utf8_valid (dict_to_string d)"
proof -
  have "utf8_valid s \<Longrightarrow> utf8_valid (dict_to_string_loop s d)" for s
    by (induction d arbitrary: s rule: list.induct) (auto simp: append_printable_valid utf8_valid_append simp del: utf8_valid.simps(2))
  then show ?thesis by (simp add: dict_to_string_def)
qed

end
