(* ===== verification/Dict_Grammar.thy ===== *)
theory Dict_Grammar
  imports Dictionary
begin

text \<open>
  A second definition of the format that \<open>Dictionary::from_bytes\<close> accepts, by its grammar: bytes
  are read as characters and separators, these are cut into lines, and every complete line is an
  entry. The state machine of the code, which does all of this in one pass, is shown to compute the
  same result on every input.
\<close>

section \<open>The grammar\<close>

text \<open>An escaped byte is a character, whatever it is; carriage returns are dropped, and so is a
  backslash at the end of the input.\<close>

datatype token = Chr u8 | Sep | End

fun tokens :: "u8 list \<Rightarrow> token list" where
  "tokens [] = []"
| "tokens (b # bs) =
     (if b = 92 then (case bs of [] \<Rightarrow> [] | c # cs \<Rightarrow> Chr (unescape_char c) # tokens cs)
      else if b = 61 then Sep # tokens bs
      else if b = 10 then End # tokens bs
      else if b = 13 then tokens bs
      else Chr b # tokens bs)"

text \<open>The complete lines, and what follows the last of them.\<close>

fun lines :: "token list \<Rightarrow> token list list \<times> token list" where
  "lines [] = ([], [])"
| "lines (t # ts) =
     (let (ls, r) = lines ts in
      if t = End then ([] # ls, r)
      else case ls of [] \<Rightarrow> ([], t # r) | l # ls' \<Rightarrow> ((t # l) # ls', r))"

text \<open>A line is an entry if it has exactly one separator.\<close>

primrec chars :: "token list \<Rightarrow> u8 list" where
  "chars [] = []"
| "chars (t # ts) = (case t of Chr c \<Rightarrow> c # chars ts | _ \<Rightarrow> chars ts)"

definition separators :: "token list \<Rightarrow> nat" where
  "separators l = length (filter (\<lambda>t. t = Sep) l)"

definition line_key :: "token list \<Rightarrow> u8 list" where
  "line_key l = chars (takeWhile (\<lambda>t. t \<noteq> Sep) l)"

definition line_value :: "token list \<Rightarrow> u8 list" where
  "line_value l = chars (tl (dropWhile (\<lambda>t. t \<noteq> Sep) l))"

text \<open>Every line must be an entry with text for its key, and the unfinished line must not have two
  separators. Entries without a key are skipped; of several with the same key the last one counts.\<close>

definition dict_parse :: "dict \<Rightarrow> token list \<Rightarrow> dict option" where
  "dict_parse d ts =
     (let (ls, r) = lines ts in
      if list_all (\<lambda>l. separators l = 1 \<and> utf8_valid (line_key l)) ls \<and> separators r \<le> 1
      then Some (bt.insert_all (filter (\<lambda>(k, v). k \<noteq> []) (map (\<lambda>l. (line_key l, line_value l)) ls)) d)
      else None)"

definition dict_reference :: "u8 list \<Rightarrow> dict option" where
  "dict_reference b = dict_parse dict_new (tokens b)"

section \<open>The state machine on tokens\<close>

fun token_step :: "parser \<Rightarrow> token \<Rightarrow> parser option" where
  "token_step p (Chr c) = Some (parser_push p c)"
| "token_step p Sep = parser_step p 61"
| "token_step p End = parser_step p 10"

fun token_run :: "parser \<Rightarrow> token list \<Rightarrow> parser option" where
  "token_run p [] = Some p"
| "token_run p (t # ts) = Option.bind (token_step p t) (\<lambda>p. token_run p ts)"

lemma parser_step_escape:
  "\<not> ps_escape p \<Longrightarrow> parser_step p b = Some p' \<Longrightarrow> b \<noteq> 92 \<Longrightarrow> \<not> ps_escape p'"
  by (auto simp: parser_step_def Let_def parser_push_def split: if_splits)

lemma parser_escaped_char:
  "\<not> ps_escape p \<Longrightarrow> parser_run p (92 # c # cs) = parser_run (parser_push p (unescape_char c)) cs"
  by (cases p) (simp add: parser_step_def parser_push_def)

lemma parser_run_tokens:
  "\<not> ps_escape p \<Longrightarrow> map_option ps_d (parser_run p bs) = map_option ps_d (token_run p (tokens bs))"
proof (induction bs arbitrary: p rule: tokens.induct)
  case (2 b bs)
  consider (esc) "b = 92" | (sep) "b = 61" | (nl) "b = 10" | (cr) "b = 13"
    | (chr) "b \<noteq> 92" "b \<noteq> 61" "b \<noteq> 10" "b \<noteq> 13" by blast
  then show ?case
  proof cases
    case esc
    show ?thesis
    proof (cases bs)
      case Nil
      then show ?thesis using esc 2 by (simp add: parser_step_def)
    next
      case (Cons c cs)
      have "map_option ps_d (parser_run (parser_push p (unescape_char c)) cs)
          = map_option ps_d (token_run (parser_push p (unescape_char c)) (tokens cs))"
        using "2.IH"(1) [OF esc Cons] 2(6) by simp
      then show ?thesis using esc Cons parser_escaped_char [OF 2(6), of c cs] by (simp del: parser_run.simps(2))
    qed
  next
    case sep
    then show ?thesis using 2(2) parser_step_escape [OF 2(6), of 61] 2(6) by (cases "parser_step p 61") auto
  next
    case nl
    then show ?thesis using 2(3) parser_step_escape [OF 2(6), of 10] 2(6) by (cases "parser_step p 10") auto
  next
    case cr
    then have "parser_step p b = Some p" using 2(6) by (simp add: parser_step_def)
    then show ?thesis using cr 2 by simp
  next
    case chr
    then have "parser_step p b = Some (parser_push p b)" using 2(6) by (simp add: parser_step_def)
    then show ?thesis using chr 2 by simp
  qed
qed simp

section \<open>Lines\<close>

lemma separators_simps [simp]:
  "separators [] = 0" "separators (t # l) = (if t = Sep then Suc (separators l) else separators l)"
  "separators (l @ l') = separators l + separators l'" "separators (map Chr cs) = 0"
  by (simp_all add: separators_def)

lemma chars_Chr [simp]: "chars (map Chr cs) = cs"
  by (induction cs) simp_all

lemma entry_line:
  "line_key (map Chr k @ Sep # map Chr v) = k" "line_value (map Chr k @ Sep # map Chr v) = v"
proof -
  have "takeWhile (\<lambda>t. t \<noteq> Sep) (map Chr k @ Sep # map Chr v) = map Chr k"
    and "dropWhile (\<lambda>t. t \<noteq> Sep) (map Chr k @ Sep # map Chr v) = Sep # map Chr v"
    by (induction k) simp_all
  then show "line_key (map Chr k @ Sep # map Chr v) = k" "line_value (map Chr k @ Sep # map Chr v) = v"
    by (simp_all add: line_key_def line_value_def)
qed

text \<open>A prefix without a line end joins the first line.\<close>

lemma lines_prefix:
  "End \<notin> set pre \<Longrightarrow> lines (pre @ ts) = (case lines ts of (ls, r) \<Rightarrow>
     case ls of [] \<Rightarrow> ([], pre @ r) | l # ls' \<Rightarrow> ((pre @ l) # ls', r))"
  by (induction pre) (auto split: prod.splits list.splits)

lemma dict_parse_two_separators:
  "End \<notin> set pre \<Longrightarrow> 2 \<le> separators pre \<Longrightarrow> dict_parse d (pre @ ts) = None"
  by (auto simp: dict_parse_def lines_prefix split: prod.splits list.splits)

lemma dict_parse_line:
  assumes "End \<notin> set l"
  shows "dict_parse d (l @ End # ts) =
    (if separators l = 1 \<and> utf8_valid (line_key l)
     then dict_parse (if line_key l = [] then d else bt_insert (line_key l) (line_value l) d) ts else None)"
  using assms by (auto simp: dict_parse_def lines_prefix split: prod.splits)

text \<open>What the state machine has read of the current line.\<close>

definition pending_line :: "parser \<Rightarrow> token list" where
  "pending_line p = map Chr (ps_k p) @ (if ps_state p = 0 then [] else Sep # map Chr (ps_v p))"

definition parser_ok :: "parser \<Rightarrow> bool" where
  "parser_ok p \<longleftrightarrow> \<not> ps_escape p \<and> ps_state p \<le> 1 \<and> (ps_state p = 0 \<longrightarrow> ps_v p = [])"

lemma pending_line_End: "End \<notin> set (pending_line p)"
  by (auto simp: pending_line_def)

lemma token_run_parse:
  "parser_ok p \<Longrightarrow> map_option ps_d (token_run p ts) = dict_parse (ps_d p) (pending_line p @ ts)"
proof (induction ts arbitrary: p)
  case Nil
  then show ?case
    using pending_line_End [of p] lines_prefix [of "pending_line p" "[]"]
    by (auto simp: dict_parse_def pending_line_def)
next
  case (Cons t ts)
  consider (chr) c where "t = Chr c" | (sep0) "t = Sep" "ps_state p = 0" | (sep1) "t = Sep" "ps_state p = 1"
    | (end0) "t = End" "ps_state p = 0" | (end1) "t = End" "ps_state p = 1"
    using Cons.prems by (cases t) (auto simp: parser_ok_def le_Suc_eq)
  then show ?case
  proof cases
    case chr
    have "parser_ok (parser_push p c)" and "pending_line (parser_push p c) = pending_line p @ [Chr c]"
      using Cons.prems by (auto simp: parser_ok_def parser_push_def pending_line_def)
    then show ?thesis using Cons.IH [of "parser_push p c"] chr by simp
  next
    case sep0
    let ?p = "p\<lparr>ps_state := 1\<rparr>"
    have "parser_ok ?p" "pending_line ?p = pending_line p @ [Sep]" "token_step p t = Some ?p"
      using Cons.prems sep0 by (auto simp: parser_ok_def pending_line_def parser_step_def)
    then show ?thesis using Cons.IH [of ?p] sep0 by simp
  next
    case sep1
    then have "token_step p t = None" using Cons.prems by (simp add: parser_ok_def parser_step_def)
    moreover have "dict_parse (ps_d p) ((pending_line p @ [Sep]) @ ts) = None"
      using sep1 pending_line_End [of p] by (intro dict_parse_two_separators) (auto simp: pending_line_def)
    ultimately show ?thesis using sep1 by simp
  next
    case end0
    then have "token_step p t = None" using Cons.prems by (simp add: parser_ok_def parser_step_def)
    then show ?thesis using end0 pending_line_End [of p] by (simp add: dict_parse_line pending_line_def)
  next
    case end1
    let ?d = "if ps_k p = [] then ps_d p else bt_insert (ps_k p) (ps_v p) (ps_d p)"
    let ?p = "\<lparr>ps_d = ?d, ps_k = [], ps_v = [], ps_state = 0, ps_escape = False\<rparr>"
    have "token_step p t = (if utf8_valid (ps_k p) then Some ?p else None)"
      using Cons.prems end1 by (cases p) (auto simp: parser_ok_def parser_step_def)
    moreover have "parser_ok ?p" "pending_line ?p = []" by (simp_all add: parser_ok_def pending_line_def)
    ultimately show ?thesis
      using Cons.IH [of ?p] end1 dict_parse_line [OF pending_line_End, of "ps_d p" p ts]
      by (simp add: pending_line_def entry_line)
  qed
qed

text \<open>
  C12: \<open>from_bytes\<close> accepts exactly the inputs the grammar accepts, and returns the entries of their
  lines: a line without a separator or with two, a key that is not text, and a second separator in
  an unfinished last line are the only errors; an unfinished line is otherwise dropped.
\<close>

theorem dict_from_bytes_reference: "dict_from_bytes b = dict_reference b"
proof -
  have "parser_ok (parser_init dict_new)" "pending_line (parser_init dict_new) = []"
    by (simp_all add: parser_ok_def pending_line_def parser_init_def)
  then show ?thesis
    using parser_run_tokens [of "parser_init dict_new" b] token_run_parse [of "parser_init dict_new" "tokens b"]
    by (simp add: dict_from_bytes_def dict_reference_def parser_init_def)
qed

end
