(* ===== verification/Errors.thy ===== *)
theory Errors
  imports Main
begin

text \<open>The error types of \<open>src/error.rs\<close> with what \<open>Display\<close> and \<open>Debug\<close> print for them.\<close>

datatype crate_error =
    InvalidStateError
  | InvalidFormatError
  | InvalidParameterError string

primrec error_display :: "crate_error \<Rightarrow> string" where
  "error_display InvalidStateError = ''InvalidStateError''"
| "error_display InvalidFormatError = ''InvalidFormatError''"
| "error_display (InvalidParameterError s) = ''InvalidParameterError: '' @ s"

definition error_debug :: "crate_error \<Rightarrow> string" where
  "error_debug e = error_display e"

text \<open>The printed forms tell the errors apart.\<close>

lemma error_display_inj: "error_display e = error_display e' \<longleftrightarrow> e = e'"
  by (cases e; cases e') simp_all

end
