(* ===== verification/Sockaddr.thy ===== *)
theory Sockaddr
  imports Prelude Errors
begin

text \<open>
  The socket address of \<open>src/inetaddress.rs\<close>: a union of the C socket address structures, which
  is a block of 128 bytes. Every function is modelled on these bytes, with the layout of Linux and
  the byte order of the host as a parameter. This theory holds the layout, the constructors, the
  accessors and the conversions from and to the address types of the standard library.
\<close>

section \<open>Layout\<close>

type_synonym inet = "u8 list"

definition SS_SIZE :: nat where "SS_SIZE = 128"
definition SIN_SIZE :: nat where "SIN_SIZE = 16"
definition SIN6_SIZE :: nat where "SIN6_SIZE = 28"
definition FAMILY_OFF :: nat where "FAMILY_OFF = 0"
definition PORT_OFF :: nat where "PORT_OFF = 2"
definition SIN_ADDR_OFF :: nat where "SIN_ADDR_OFF = 4"
definition SIN6_ADDR_OFF :: nat where "SIN6_ADDR_OFF = 8"

lemmas layout_defs = SS_SIZE_def SIN_SIZE_def SIN6_SIZE_def FAMILY_OFF_def PORT_OFF_def SIN_ADDR_OFF_def SIN6_ADDR_OFF_def

definition AF_INET :: u16 where "AF_INET = 2"
definition AF_INET6 :: u16 where "AF_INET6 = 10"

lemma AF_simps [simp]: "AF_INET \<noteq> AF_INET6" "AF_INET6 \<noteq> AF_INET" "AF_INET \<noteq> 0" "AF_INET6 \<noteq> 0" "0 \<noteq> AF_INET" "0 \<noteq> AF_INET6"
  by (simp_all add: AF_INET_def AF_INET6_def)

text \<open>Loads and stores of integer fields in the byte order of the host, and \<open>to_be\<close>, which is also
  \<open>from_be\<close>.\<close>

definition load16 :: "endian \<Rightarrow> nat \<Rightarrow> inet \<Rightarrow> u16" where
  "load16 e off a = of_nat (of_ne_bytes e (get_region off 2 a))"

definition load32 :: "endian \<Rightarrow> nat \<Rightarrow> inet \<Rightarrow> u32" where
  "load32 e off a = of_nat (of_ne_bytes e (get_region off 4 a))"

definition store16 :: "endian \<Rightarrow> nat \<Rightarrow> u16 \<Rightarrow> inet \<Rightarrow> inet" where
  "store16 e off w a = put_region off (ne_bytes e 2 (unat w)) a"

definition store32 :: "endian \<Rightarrow> nat \<Rightarrow> u32 \<Rightarrow> inet \<Rightarrow> inet" where
  "store32 e off w a = put_region off (ne_bytes e 4 (unat w)) a"

definition to_be16 :: "endian \<Rightarrow> u16 \<Rightarrow> u16" where
  "to_be16 e w = of_nat (swap_be e 2 (unat w))"

definition to_be32 :: "endian \<Rightarrow> u32 \<Rightarrow> u32" where
  "to_be32 e w = of_nat (swap_be e 4 (unat w))"

definition sa_family :: "endian \<Rightarrow> inet \<Rightarrow> u16" where
  "sa_family e a = load16 e FAMILY_OFF a"

definition sin_port :: "endian \<Rightarrow> inet \<Rightarrow> u16" where
  "sin_port e a = load16 e PORT_OFF a"

definition get_s_addr :: "endian \<Rightarrow> inet \<Rightarrow> u32" where
  "get_s_addr e a = load32 e SIN_ADDR_OFF a"

definition sin6_addr :: "inet \<Rightarrow> u8 list" where
  "sin6_addr a = get_region SIN6_ADDR_OFF 16 a"

text \<open>
  \<open>get_s6_addr(&sa: &sockaddr_in6)\<close> takes its argument by a pattern that copies the structure into
  a local variable, and returns a reference into that variable. By the rules of the language a read
  through the returned reference is undefined. \<open>copy_live\<close> says whether the memory of the
  variable still holds the copy when it is read, which is what compilers do in practice.
\<close>

definition get_s6_addr :: "bool \<Rightarrow> inet \<Rightarrow> u8 list outcome" where
  "get_s6_addr copy_live a = (if copy_live then Returns (sin6_addr a) else Undefined)"

section \<open>Constructors\<close>

definition inet_new :: inet where
  "inet_new = replicate SS_SIZE 0"

definition inet_zero :: "inet \<Rightarrow> inet" where
  "inet_zero self = replicate SS_SIZE 0"

definition inet_set :: "endian \<Rightarrow> inet \<Rightarrow> u8 list \<Rightarrow> u16 \<Rightarrow> u16 \<times> inet" where
  "inet_set e self ip port =
     (let self = inet_zero self; port = to_be16 e port in
      if length ip = 4
      then (AF_INET, put_region SIN_ADDR_OFF ip (store16 e PORT_OFF port (store16 e FAMILY_OFF AF_INET self)))
      else if length ip = 16
      then (AF_INET6, put_region SIN6_ADDR_OFF ip (store16 e PORT_OFF port (store16 e FAMILY_OFF AF_INET6 self)))
      else (0, self))"

text \<open>\<open>from_ip_port\<close> calls \<open>set\<close> on uninitialised memory, which \<open>set\<close> overwrites with zeros first.\<close>

definition inet_from_ip_port :: "endian \<Rightarrow> u8 list \<Rightarrow> u16 \<Rightarrow> inet" where
  "inet_from_ip_port e ip port = snd (inet_set e inet_new ip port)"

definition inet_ipv4_loopback :: "endian \<Rightarrow> u16 \<Rightarrow> inet" where
  "inet_ipv4_loopback e port =
     (let addr = store16 e FAMILY_OFF AF_INET inet_new;
          addr = store16 e PORT_OFF (to_be16 e port) addr
      in store32 e SIN_ADDR_OFF (to_be32 e 0x7f000001) addr)"

definition inet_ipv4_any :: "endian \<Rightarrow> inet" where
  "inet_ipv4_any e = store16 e FAMILY_OFF AF_INET inet_new"

definition inet_ipv6_loopback :: "endian \<Rightarrow> u16 \<Rightarrow> inet" where
  "inet_ipv6_loopback e port =
     (let addr = store16 e FAMILY_OFF AF_INET6 inet_new;
          addr = store16 e PORT_OFF (to_be16 e port) addr
      in put_region (SIN6_ADDR_OFF + 15) [1] addr)"

definition inet_ipv6_any :: "endian \<Rightarrow> inet" where
  "inet_ipv6_any e = store16 e FAMILY_OFF AF_INET6 inet_new"

definition inet_clone :: "inet \<Rightarrow> inet" where
  "inet_clone self = self"

definition inet_default :: inet where
  "inet_default = inet_new"

section \<open>Accessors\<close>

definition inet_is_nil :: "endian \<Rightarrow> inet \<Rightarrow> bool" where
  "inet_is_nil e self = (sa_family e self = 0)"

definition inet_is_ipv4 :: "endian \<Rightarrow> inet \<Rightarrow> bool" where
  "inet_is_ipv4 e self = (sa_family e self = AF_INET)"

definition inet_is_ipv6 :: "endian \<Rightarrow> inet \<Rightarrow> bool" where
  "inet_is_ipv6 e self = (sa_family e self = AF_INET6)"

definition inet_is_ip :: "endian \<Rightarrow> inet \<Rightarrow> bool" where
  "inet_is_ip e self = (let family = sa_family e self in family = AF_INET \<or> family = AF_INET6)"

definition inet_family :: "endian \<Rightarrow> inet \<Rightarrow> u16" where
  "inet_family e self = sa_family e self"

text \<open>The structure a C function sees behind the pointer; \<open>None\<close> is the null pointer.\<close>

definition inet_c_sockaddr :: "endian \<Rightarrow> inet \<Rightarrow> u8 list option \<times> nat" where
  "inet_c_sockaddr e self =
     (let f = sa_family e self in
      if f = AF_INET then (Some (get_region 0 SIN_SIZE self), SIN_SIZE)
      else if f = AF_INET6 then (Some (get_region 0 SIN6_SIZE self), SIN6_SIZE)
      else (None, 0))"

definition inet_ip_bytes :: "endian \<Rightarrow> inet \<Rightarrow> u8 list" where
  "inet_ip_bytes e self =
     (let f = sa_family e self in
      if f = AF_INET then get_region SIN_ADDR_OFF 4 self
      else if f = AF_INET6 then sin6_addr self
      else [])"

definition inet_key :: "endian \<Rightarrow> inet \<Rightarrow> u128 \<times> u16" where
  "inet_key e self =
     (let f = sa_family e self in
      if f = AF_INET then (ucast (get_s_addr e self), sin_port e self)
      else if f = AF_INET6 then (of_nat (of_ne_bytes e (sin6_addr self)), sin_port e self)
      else (0, 0))"

definition inet_port :: "endian \<Rightarrow> inet \<Rightarrow> u16" where
  "inet_port e self =
     (let f = sa_family e self in
      to_be16 e (if f = AF_INET then sin_port e self else if f = AF_INET6 then sin_port e self else 0))"

definition inet_set_port :: "endian \<Rightarrow> inet \<Rightarrow> u16 \<Rightarrow> inet" where
  "inet_set_port e self port =
     (let port = to_be16 e port; f = sa_family e self in
      if f = AF_INET then store16 e PORT_OFF port self
      else if f = AF_INET6 then store16 e PORT_OFF port self
      else self)"

section \<open>Standard library address types\<close>

text \<open>\<open>IpAddr\<close> and \<open>SocketAddr\<close> of \<open>std::net\<close>: octets, port, and flow information and scope of IPv6.\<close>

datatype ip_addr = Ipv4Addr "u8 list" | Ipv6Addr "u8 list"

datatype socket_addr = SocketAddrV4 "u8 list" u16 | SocketAddrV6 "u8 list" u16 u32 u32

definition s_addr_octets :: "endian \<Rightarrow> inet \<Rightarrow> u8 list" where
  "s_addr_octets e self = ne_bytes e 4 (unat (get_s_addr e self))"

definition try_into_ip_addr :: "bool \<Rightarrow> endian \<Rightarrow> inet \<Rightarrow> (crate_error + ip_addr) outcome" where
  "try_into_ip_addr copy_live e self =
     (let f = sa_family e self in
      if f = AF_INET then Returns (Inr (Ipv4Addr (s_addr_octets e self)))
      else if f = AF_INET6 then obind (get_s6_addr copy_live self) (\<lambda>ip. Returns (Inr (Ipv6Addr ip)))
      else Returns (Inl (InvalidParameterError ''not an IP address'')))"

definition try_into_ipv4 :: "endian \<Rightarrow> inet \<Rightarrow> crate_error + u8 list" where
  "try_into_ipv4 e self =
     (if sa_family e self = AF_INET then Inr (s_addr_octets e self)
      else Inl (InvalidParameterError ''not an IPv4 address''))"

definition try_into_ipv6 :: "bool \<Rightarrow> endian \<Rightarrow> inet \<Rightarrow> (crate_error + u8 list) outcome" where
  "try_into_ipv6 copy_live e self =
     (if sa_family e self = AF_INET6 then obind (get_s6_addr copy_live self) (\<lambda>ip. Returns (Inr ip))
      else Returns (Inl (InvalidParameterError ''not an IPv6 address'')))"

definition try_into_socket_addr :: "bool \<Rightarrow> endian \<Rightarrow> inet \<Rightarrow> (crate_error + socket_addr) outcome" where
  "try_into_socket_addr copy_live e self =
     (let f = sa_family e self in
      if f = AF_INET
      then Returns (Inr (SocketAddrV4 (s_addr_octets e self) (to_be16 e (sin_port e self))))
      else if f = AF_INET6
      then obind (get_s6_addr copy_live self) (\<lambda>ip.
             Returns (Inr (SocketAddrV6 ip (to_be16 e (sin_port e self)) 0 0)))
      else Returns (Inl (InvalidParameterError ''not an IP address'')))"

definition try_into_socket_addr_v4 :: "endian \<Rightarrow> inet \<Rightarrow> crate_error + (u8 list \<times> u16)" where
  "try_into_socket_addr_v4 e self =
     (if sa_family e self = AF_INET then Inr (s_addr_octets e self, to_be16 e (sin_port e self))
      else Inl (InvalidParameterError ''not an IPv4 address''))"

definition try_into_socket_addr_v6 :: "bool \<Rightarrow> endian \<Rightarrow> inet \<Rightarrow> (crate_error + (u8 list \<times> u16 \<times> u32 \<times> u32)) outcome" where
  "try_into_socket_addr_v6 copy_live e self =
     (if sa_family e self = AF_INET6
      then obind (get_s6_addr copy_live self) (\<lambda>ip. Returns (Inr (ip, to_be16 e (sin_port e self), 0, 0)))
      else Returns (Inl (InvalidParameterError ''not an IPv6 address'')))"

definition inet_to_socketaddr :: "bool \<Rightarrow> endian \<Rightarrow> inet \<Rightarrow> socket_addr option outcome" where
  "inet_to_socketaddr copy_live e self =
     (let f = sa_family e self in
      if f = AF_INET
      then Returns (Some (SocketAddrV4 (s_addr_octets e self) (to_be16 e (sin_port e self))))
      else if f = AF_INET6
      then obind (get_s6_addr copy_live self) (\<lambda>ip.
             Returns (Some (SocketAddrV6 ip (to_be16 e (sin_port e self)) 0 0)))
      else Returns None)"

text \<open>\<open>to_socket_addrs\<close>: an iterator over the one address, or an error.\<close>

definition inet_to_socket_addrs :: "bool \<Rightarrow> endian \<Rightarrow> inet \<Rightarrow> (string + socket_addr list) outcome" where
  "inet_to_socket_addrs copy_live e self =
     obind (try_into_socket_addr copy_live e self)
       (\<lambda>r. Returns (case r of Inl _ \<Rightarrow> Inl ''not an IP address'' | Inr sa \<Rightarrow> Inr [sa]))"

definition inet_from_ipv4 :: "endian \<Rightarrow> u8 list \<Rightarrow> inet" where
  "inet_from_ipv4 e ip4 = inet_from_ip_port e ip4 0"

definition inet_from_ipv6 :: "endian \<Rightarrow> u8 list \<Rightarrow> inet" where
  "inet_from_ipv6 e ip6 = inet_from_ip_port e ip6 0"

definition inet_from_ip_addr :: "endian \<Rightarrow> ip_addr \<Rightarrow> inet" where
  "inet_from_ip_addr e ip =
     (case ip of Ipv4Addr ip4 \<Rightarrow> inet_from_ipv4 e ip4 | Ipv6Addr ip6 \<Rightarrow> inet_from_ipv6 e ip6)"

definition inet_from_socket_addr_v4 :: "endian \<Rightarrow> u8 list \<Rightarrow> u16 \<Rightarrow> inet" where
  "inet_from_socket_addr_v4 e ip port = inet_from_ip_port e ip port"

definition inet_from_socket_addr_v6 :: "endian \<Rightarrow> u8 list \<Rightarrow> u16 \<Rightarrow> u32 \<Rightarrow> u32 \<Rightarrow> inet" where
  "inet_from_socket_addr_v6 e ip port flowinfo scope_id = inet_from_ip_port e ip port"

definition inet_from_socket_addr :: "endian \<Rightarrow> socket_addr \<Rightarrow> inet" where
  "inet_from_socket_addr e sa =
     (case sa of
        SocketAddrV4 ip port \<Rightarrow> inet_from_socket_addr_v4 e ip port
      | SocketAddrV6 ip port flowinfo scope_id \<Rightarrow> inet_from_socket_addr_v6 e ip port flowinfo scope_id)"

lemmas inet_from_defs = inet_from_ipv4_def inet_from_ipv6_def inet_from_ip_addr_def
  inet_from_socket_addr_v4_def inet_from_socket_addr_v6_def inet_from_socket_addr_def

section \<open>Fields\<close>

lemma of_nat_inj16: "m < 65536 \<Longrightarrow> unat (of_nat m :: u16) = m"
  and of_nat_inj32: "m < 4294967296 \<Longrightarrow> unat (of_nat m :: u32) = m"
  by (simp_all add: unat_of_nat)

lemma unat_u16: "unat (w :: u16) < 65536" and unat_u32: "unat (v :: u32) < 4294967296"
  using unsigned_less [where ?'a = nat, of w] unsigned_less [where ?'a = nat, of v] by simp_all

lemma unat_to_be16: "unat (to_be16 e w) = swap_be e 2 (unat w)"
  using swap_be_bound [of e 2 "unat w"] by (simp add: to_be16_def of_nat_inj16)

lemma unat_to_be32: "unat (to_be32 e w) = swap_be e 4 (unat w)"
  using swap_be_bound [of e 4 "unat w"] by (simp add: to_be32_def of_nat_inj32)

lemma to_be16_twice [simp]: "to_be16 e (to_be16 e w) = w"
  using unat_u16 [of w] by (simp add: to_be16_def [of e "to_be16 e w"] unat_to_be16 byte_simps)

lemma to_be16_inj: "to_be16 e v = to_be16 e w \<longleftrightarrow> v = w"
  by (metis to_be16_twice)

lemma to_be16_0 [simp]: "to_be16 e 0 = 0"
  by (cases e) (simp_all add: to_be16_def swap_be_def be_bytes_def of_ne_bytes_def numeral_2_eq_2)

lemma load16_bytes: "off + 2 \<le> length a \<Longrightarrow> ne_bytes e 2 (unat (load16 e off a)) = get_region off 2 a"
  using of_ne_bytes_bound [of e "get_region off 2 a"] by (simp add: load16_def of_nat_inj16 byte_simps)

lemma load32_bytes: "off + 4 \<le> length a \<Longrightarrow> ne_bytes e 4 (unat (load32 e off a)) = get_region off 4 a"
  using of_ne_bytes_bound [of e "get_region off 4 a"] by (simp add: load32_def of_nat_inj32 byte_simps)

text \<open>What a load converted by \<open>from_be\<close> reads, and what a store converted by \<open>to_be\<close> writes.\<close>

lemma from_be_load16: "off + 2 \<le> length a \<Longrightarrow> to_be16 e (load16 e off a) = of_nat (nat_of_be (get_region off 2 a))"
  using of_ne_bytes_bound [of e "get_region off 2 a"]
  by (simp add: to_be16_def load16_def of_nat_inj16 byte_simps)

lemma from_be_load32: "off + 4 \<le> length a \<Longrightarrow> to_be32 e (load32 e off a) = of_nat (nat_of_be (get_region off 4 a))"
  using of_ne_bytes_bound [of e "get_region off 4 a"]
  by (simp add: to_be32_def load32_def of_nat_inj32 byte_simps)

lemma store_be16: "store16 e off (to_be16 e w) a = put_region off (be_bytes 2 (unat w)) a"
  by (simp add: store16_def unat_to_be16 byte_simps)

lemma store_be32: "store32 e off (to_be32 e w) a = put_region off (be_bytes 4 (unat w)) a"
  by (simp add: store32_def unat_to_be32 byte_simps)

lemma load16_ne_bytes [simp]: "of_nat (of_ne_bytes e (ne_bytes e 2 (unat (w :: u16)))) = w"
  using unat_u16 [of w] by (simp add: byte_simps)

lemma of_nat_be_bytes16 [simp]: "of_nat (nat_of_be (be_bytes 2 (unat (w :: u16)))) = w"
  using unat_u16 [of w] by (simp add: byte_simps)

lemma length_store16 [simp]: "off + 2 \<le> length a \<Longrightarrow> length (store16 e off w a) = length a"
  by (simp add: store16_def)

section \<open>The address a socket address stands for\<close>

definition inet_inv :: "inet \<Rightarrow> bool" where
  "inet_inv a \<longleftrightarrow> length a = SS_SIZE"

text \<open>Family, address octets and port, as the accessors of the code return them.\<close>

datatype endpoint = Endpoint u16 "u8 list" u16

definition inet_view :: "endian \<Rightarrow> inet \<Rightarrow> endpoint" where
  "inet_view e a = Endpoint (inet_family e a) (inet_ip_bytes e a) (inet_port e a)"

text \<open>What the accessors return when the family, the port bytes and the address bytes are known.\<close>

lemma view_v4:
  assumes "inet_inv a" and "sa_family e a = AF_INET"
  shows "inet_view e a = Endpoint AF_INET (get_region 4 4 a) (of_nat (nat_of_be (get_region 2 2 a)))"
  using assms
  by (simp add: inet_view_def inet_family_def inet_ip_bytes_def inet_port_def sin_port_def inet_inv_def
      layout_defs from_be_load16)

lemma view_v6:
  assumes "inet_inv a" and "sa_family e a = AF_INET6"
  shows "inet_view e a = Endpoint AF_INET6 (get_region 8 16 a) (of_nat (nat_of_be (get_region 2 2 a)))"
  using assms
  by (simp add: inet_view_def inet_family_def inet_ip_bytes_def inet_port_def sin_port_def inet_inv_def
      layout_defs from_be_load16 sin6_addr_def)

lemma view_other:
  assumes "sa_family e a \<noteq> AF_INET" and "sa_family e a \<noteq> AF_INET6"
  shows "inet_view e a = Endpoint (sa_family e a) [] 0"
  using assms by (simp add: inet_view_def inet_family_def inet_ip_bytes_def inet_port_def)

lemma family_bytes: "of_nat (of_ne_bytes e (ne_bytes e 2 (unat AF_INET))) = AF_INET"
  "of_nat (of_ne_bytes e (ne_bytes e 2 (unat AF_INET6))) = AF_INET6"
  by simp_all

text \<open>The three fields of a freshly built address.\<close>

lemma set_fields:
  assumes "a = put_region off ip (put_region 2 p (store16 e 0 f inet_new))"
    and "off + length ip \<le> 128" and "4 \<le> off" and "length p = 2"
  shows "sa_family e a = f" and "get_region 2 2 a = p" and "get_region off (length ip) a = ip" and "inet_inv a"
  using assms
  by (simp_all add: sa_family_def load16_def store16_def inet_new_def inet_inv_def layout_defs region_simps)

lemma set_view_v4:
  assumes "a = put_region 4 ip (put_region 2 (be_bytes 2 (unat port)) (store16 e 0 AF_INET inet_new))" and "length ip = 4"
  shows "inet_inv a" and "inet_view e a = Endpoint AF_INET ip port"
  using set_fields [OF assms(1)] assms(2) by (simp_all add: view_v4)

lemma set_view_v6:
  assumes "a = put_region 8 ip (put_region 2 (be_bytes 2 (unat port)) (store16 e 0 AF_INET6 inet_new))" and "length ip = 16"
  shows "inet_inv a" and "inet_view e a = Endpoint AF_INET6 ip port"
  using set_fields [OF assms(1)] assms(2) by (simp_all add: view_v6)

lemma inet_new_view: "inet_inv inet_new" "inet_view e inet_new = Endpoint 0 [] 0"
proof -
  have "sa_family e inet_new = 0"
    by (cases e) (simp_all add: sa_family_def load16_def inet_new_def layout_defs get_region_def of_ne_bytes_def numeral_2_eq_2)
  then show "inet_inv inet_new" "inet_view e inet_new = Endpoint 0 [] 0"
    by (simp_all add: view_other) (simp add: inet_inv_def inet_new_def)
qed

lemma inet_set_eq:
  "inet_set e self ip port =
    (if length ip = 4
     then (AF_INET, put_region 4 ip (put_region 2 (be_bytes 2 (unat port)) (store16 e 0 AF_INET inet_new)))
     else if length ip = 16
     then (AF_INET6, put_region 8 ip (put_region 2 (be_bytes 2 (unat port)) (store16 e 0 AF_INET6 inet_new)))
     else (0, inet_new))"
  unfolding inet_set_def inet_zero_def inet_new_def [symmetric] Let_def layout_defs(4-7) store_be16 ..

lemma from_ip_port_view:
  "inet_inv (inet_from_ip_port e ip port)"
  "length ip = 4 \<Longrightarrow> inet_view e (inet_from_ip_port e ip port) = Endpoint AF_INET ip port"
  "length ip = 16 \<Longrightarrow> inet_view e (inet_from_ip_port e ip port) = Endpoint AF_INET6 ip port"
  "length ip \<noteq> 4 \<Longrightarrow> length ip \<noteq> 16 \<Longrightarrow> inet_from_ip_port e ip port = inet_new"
  by (simp_all add: inet_from_ip_port_def inet_set_eq set_view_v4 set_view_v6 inet_new_view)

text \<open>
  \<open>set\<close> determines every byte: whatever the address held before, the family follows from the length
  of the octets and the accessors return the octets and the port given; octets of any other length
  make it the nil address, with zero returned.
\<close>

theorem inet_set_spec:
  "inet_inv (snd (inet_set e self ip port)) \<and> snd (inet_set e self ip port) = inet_from_ip_port e ip port
   \<and> (if length ip = 4
      then fst (inet_set e self ip port) = AF_INET \<and> inet_view e (inet_from_ip_port e ip port) = Endpoint AF_INET ip port
      else if length ip = 16
      then fst (inet_set e self ip port) = AF_INET6 \<and> inet_view e (inet_from_ip_port e ip port) = Endpoint AF_INET6 ip port
      else fst (inet_set e self ip port) = 0 \<and> inet_is_nil e (inet_from_ip_port e ip port))"
proof -
  have "snd (inet_set e self ip port) = inet_from_ip_port e ip port"
    by (simp add: inet_from_ip_port_def inet_set_eq)
  moreover have "inet_is_nil e inet_new"
    using inet_new_view(2) [of e] by (simp add: inet_view_def inet_is_nil_def inet_family_def)
  ultimately show ?thesis
    using from_ip_port_view [where e = e and ip = ip and port = port] by (simp add: inet_set_eq)
qed

lemma put_region_split:
  "put_region (off + length xs) ys (put_region off xs a) = put_region off (xs @ ys) a" if "off + length (xs @ ys) \<le> length a"
  using that by (simp add: put_region_def ac_simps)

lemma put_get_region: "off + n \<le> length a \<Longrightarrow> put_region off (get_region off n a) a = a"
  by (simp add: put_region_def get_region_def min_def)
    (metis append_assoc append_take_drop_id take_add)

lemma le_bytes_4: "le_bytes 4 k = [of_nat k, of_nat (k div 256), of_nat (k div 256 div 256), of_nat (k div 256 div 256 div 256)]"
proof -
  have "(4 :: nat) = Suc (Suc (Suc (Suc 0)))" by simp
  then show ?thesis by (simp only: le_bytes.simps)
qed

text \<open>The named addresses.\<close>

lemma ipv4_loopback_eq: "inet_ipv4_loopback e port = inet_from_ip_port e [127, 0, 0, 1] port"
proof -
  have "be_bytes 4 (unat (0x7f000001 :: u32)) = [127, 0, 0, 1]"
    by (simp add: be_bytes_def le_bytes_4)
  then show ?thesis
    by (simp add: inet_ipv4_loopback_def inet_from_ip_port_def inet_set_eq store_be16 store_be32 layout_defs)
qed

lemma ipv6_loopback_eq: "inet_ipv6_loopback e port = inet_from_ip_port e (replicate 15 0 @ [1]) port"
proof -
  let ?a = "put_region 2 (be_bytes 2 (unat port)) (store16 e 0 AF_INET6 inet_new)"
  have len: "length ?a = 128" by (simp add: inet_new_def layout_defs)
  have "get_region 8 15 ?a = replicate 15 0"
    by (simp add: store16_def inet_new_def layout_defs region_simps)
  then have "put_region 8 (replicate 15 0) ?a = ?a" using put_get_region [of 8 15 ?a] len by simp
  then have "put_region 23 [1] ?a = put_region 8 (replicate 15 0 @ [1]) ?a"
    using put_region_split [of 8 "replicate 15 0" "[1]" ?a] len by simp
  then show ?thesis
    by (simp add: inet_ipv6_loopback_def inet_from_ip_port_def inet_set_eq store_be16 layout_defs)
qed

lemma ipv4_any_eq: "inet_ipv4_any e = inet_from_ip_port e [0, 0, 0, 0] 0"
proof -
  let ?a = "store16 e 0 AF_INET inet_new"
  have "get_region 2 (length (replicate 6 (0 :: u8))) ?a = replicate 6 0"
    by (simp add: store16_def inet_new_def layout_defs region_simps)
  moreover have len: "length ?a = 128" by (simp add: inet_new_def layout_defs)
  ultimately have "put_region 2 (replicate 6 0) ?a = ?a" using put_get_region [of 2 6 ?a] by simp
  moreover have "be_bytes 2 (unat (0 :: u16)) = replicate 2 0" by (simp add: be_bytes_def numeral_2_eq_2)
  ultimately show ?thesis
    using put_region_split [of 2 "replicate 2 0" "replicate 4 0" ?a] len
    by (simp add: inet_ipv4_any_def inet_from_ip_port_def inet_set_eq layout_defs numeral_eq_Suc)
qed

lemma ipv6_any_eq: "inet_ipv6_any e = inet_from_ip_port e (replicate 16 0) 0"
proof -
  let ?a = "store16 e 0 AF_INET6 inet_new"
  have "get_region 2 2 ?a = replicate 2 0" "get_region 8 16 ?a = replicate 16 0"
    by (simp_all add: store16_def inet_new_def layout_defs region_simps)
  moreover have len: "length ?a = 128" by (simp add: inet_new_def layout_defs)
  ultimately have "put_region 2 (replicate 2 0) ?a = ?a" "put_region 8 (replicate 16 0) ?a = ?a"
    using put_get_region [of 2 2 ?a] put_get_region [of 8 16 ?a] by simp_all
  moreover have "be_bytes 2 (unat (0 :: u16)) = replicate 2 0" by (simp add: be_bytes_def numeral_2_eq_2)
  ultimately show ?thesis
    by (simp add: inet_ipv6_any_def inet_from_ip_port_def inet_set_eq layout_defs)
qed

text \<open>The constructors of named addresses give what their comments say.\<close>

theorem inet_named_addresses:
  "inet_view e (inet_ipv4_loopback e port) = Endpoint AF_INET [127, 0, 0, 1] port
   \<and> inet_view e (inet_ipv6_loopback e port) = Endpoint AF_INET6 (replicate 15 0 @ [1]) port
   \<and> inet_view e (inet_ipv4_any e) = Endpoint AF_INET [0, 0, 0, 0] 0
   \<and> inet_view e (inet_ipv6_any e) = Endpoint AF_INET6 (replicate 16 0) 0
   \<and> inet_view e inet_default = Endpoint 0 [] 0"
  by (simp add: ipv4_loopback_eq ipv6_loopback_eq ipv4_any_eq ipv6_any_eq from_ip_port_view
      inet_default_def inet_new_view)

text \<open>\<open>set_port\<close> changes the port of an IP address and nothing else; other addresses stay as they are.\<close>

lemma set_port_fields:
  assumes "inet_inv a"
  shows "sa_family e (store16 e 2 w a) = sa_family e a" and "get_region 4 4 (store16 e 2 w a) = get_region 4 4 a"
    and "get_region 8 16 (store16 e 2 w a) = get_region 8 16 a"
    and "get_region 2 2 (store16 e 2 (to_be16 e p) a) = be_bytes 2 (unat p)"
    and "inet_inv (store16 e 2 w a)"
  using assms unfolding store_be16
  by (simp_all add: sa_family_def load16_def store16_def inet_inv_def layout_defs region_simps)

theorem inet_set_port_spec:
  assumes "inet_inv a"
  shows "inet_inv (inet_set_port e a port)
    \<and> (if inet_is_ip e a
       then inet_view e (inet_set_port e a port)
         = (case inet_view e a of Endpoint f ip _ \<Rightarrow> Endpoint f ip port)
       else inet_set_port e a port = a)"
proof -
  let ?b = "store16 e 2 (to_be16 e port) a"
  have inv: "inet_inv ?b" using set_port_fields(5) [OF assms] .
  consider (v4) "sa_family e a = AF_INET" | (v6) "sa_family e a = AF_INET6"
    | (other) "sa_family e a \<noteq> AF_INET" "sa_family e a \<noteq> AF_INET6" by blast
  then show ?thesis
  proof cases
    case v4
    then have "inet_set_port e a port = ?b" by (simp add: inet_set_port_def PORT_OFF_def)
    moreover have "sa_family e ?b = AF_INET" using set_port_fields(1) [OF assms] v4 by simp
    ultimately show ?thesis
      using view_v4 [OF assms v4] view_v4 [OF inv] set_port_fields(2,4) [OF assms] v4 inv
      by (simp add: inet_is_ip_def)
  next
    case v6
    then have "inet_set_port e a port = ?b" by (simp add: inet_set_port_def PORT_OFF_def)
    moreover have "sa_family e ?b = AF_INET6" using set_port_fields(1) [OF assms] v6 by simp
    ultimately show ?thesis
      using view_v6 [OF assms v6] view_v6 [OF inv] set_port_fields(3,4) [OF assms] v6 inv
      by (simp add: inet_is_ip_def)
  next
    case other
    then show ?thesis using assms by (simp add: inet_set_port_def inet_is_ip_def)
  qed
qed

theorem inet_set_port_spec_witness:
  "inet_view LE (inet_set_port LE (inet_ipv4_loopback LE 80) 443) = Endpoint AF_INET [127, 0, 0, 1] 443"
proof -
  let ?a = "inet_ipv4_loopback LE 80"
  have "inet_inv ?a" "inet_view LE ?a = Endpoint AF_INET [127, 0, 0, 1] 80"
    by (simp_all add: ipv4_loopback_eq from_ip_port_view)
  moreover have "inet_is_ip LE ?a" using calculation(2) by (simp add: inet_view_def inet_is_ip_def inet_family_def)
  ultimately show ?thesis using inet_set_port_spec [of ?a LE 443] by simp
qed

section \<open>Conversions\<close>

lemma s_addr_octets_bytes: "inet_inv a \<Longrightarrow> s_addr_octets e a = get_region 4 4 a"
  by (simp add: s_addr_octets_def get_s_addr_def layout_defs load32_bytes inet_inv_def)

lemma from_be_port: "inet_inv a \<Longrightarrow> to_be16 e (sin_port e a) = of_nat (nat_of_be (get_region 2 2 a))"
  by (simp add: sin_port_def layout_defs from_be_load16 inet_inv_def)

text \<open>What the conversions return, by the address that is viewed.\<close>

lemma try_into_socket_addr_view:
  assumes "inet_inv a"
  shows "try_into_socket_addr copy_live e a =
    (case inet_view e a of Endpoint f ip port \<Rightarrow>
       if f = AF_INET then Returns (Inr (SocketAddrV4 ip port))
       else if f = AF_INET6 then (if copy_live then Returns (Inr (SocketAddrV6 ip port 0 0)) else Undefined)
       else Returns (Inl (InvalidParameterError ''not an IP address'')))"
  using view_v4 [OF assms, of e] view_v6 [OF assms, of e] view_other [of e a]
  by (simp add: try_into_socket_addr_def Let_def s_addr_octets_bytes [OF assms] from_be_port [OF assms]
      get_s6_addr_def sin6_addr_def SIN6_ADDR_OFF_def)

text \<open>The conversions agree with each other.\<close>

theorem inet_conversions_agree:
  "inet_to_socketaddr copy_live e a =
     obind (try_into_socket_addr copy_live e a) (\<lambda>r. Returns (case r of Inl _ \<Rightarrow> None | Inr sa \<Rightarrow> Some sa))
   \<and> try_into_ip_addr copy_live e a =
     obind (try_into_socket_addr copy_live e a) (\<lambda>r. Returns (case r of Inl err \<Rightarrow> Inl err
       | Inr (SocketAddrV4 ip _) \<Rightarrow> Inr (Ipv4Addr ip) | Inr (SocketAddrV6 ip _ _ _) \<Rightarrow> Inr (Ipv6Addr ip)))
   \<and> try_into_socket_addr_v4 e a =
     (if inet_is_ipv4 e a then map_sum id (\<lambda>ip. (ip, inet_port e a)) (try_into_ipv4 e a)
      else Inl (InvalidParameterError ''not an IPv4 address''))
   \<and> try_into_socket_addr_v6 copy_live e a =
     obind (try_into_ipv6 copy_live e a) (\<lambda>r. Returns (map_sum id (\<lambda>ip. (ip, inet_port e a, 0, 0)) r))"
  by (cases copy_live)
    (simp_all add: inet_to_socketaddr_def try_into_ip_addr_def try_into_socket_addr_def try_into_socket_addr_v4_def
      try_into_socket_addr_v6_def try_into_ipv6_def try_into_ipv4_def inet_is_ipv4_def inet_port_def get_s6_addr_def Let_def)

definition octets_ok :: "socket_addr \<Rightarrow> bool" where
  "octets_ok sa = (case sa of SocketAddrV4 ip _ \<Rightarrow> length ip = 4 | SocketAddrV6 ip _ _ _ \<Rightarrow> length ip = 16)"



end
