(* ===== verification/To_From_Bytes.thy ===== *)
theory To_From_Bytes
  imports Stream ArrayVec
begin

text \<open>
  The trait \<open>ToFromBytes\<close> of \<open>src/tofrombytes.rs\<close>: an implementor provides \<open>read_bytes\<close> and
  \<open>write_bytes\<close> over any stream, the trait derives the conversions from and to byte slices,
  vectors and fixed size vectors. The locale states what an implementor promises: it writes one
  encoding to every writer, and reads back what it wrote, leaving the rest of the stream.
\<close>

text \<open>\<open>expect\<close> on the result of a write.\<close>

definition expect_written :: "'w write_result \<Rightarrow> 'w outcome" where
  "expect_written m = obind m (\<lambda>(r, w). case r of Inl _ \<Rightarrow> Panics | Inr _ \<Rightarrow> Returns w)"

definition tfb_from_bytes :: "(u8 list \<Rightarrow> (io_error + 'a) \<times> u8 list) \<Rightarrow> u8 list \<Rightarrow> io_error + 'a" where
  "tfb_from_bytes read_bytes b = fst (read_bytes b)"

definition tfb_to_bytes :: "(u8 list \<Rightarrow> u8 list write_result) \<Rightarrow> u8 list outcome" where
  "tfb_to_bytes write_bytes = expect_written (write_bytes [])"

definition tfb_to_bytes_on_stack :: "nat \<Rightarrow> (u8 arrayvec \<Rightarrow> u8 arrayvec write_result) \<Rightarrow> u8 arrayvec outcome" where
  "tfb_to_bytes_on_stack BUF_SIZE write_bytes = expect_written (write_bytes (av_new BUF_SIZE))"

lemma expect_written_simps [simp]:
  "expect_written (Returns (Inl e, w)) = Panics" "expect_written (Returns (Inr u, w)) = Returns w"
  by (simp_all add: expect_written_def)

text \<open>
  \<open>rd\<close> reads from a byte slice, \<open>wr_vec\<close> and \<open>wr_av\<close> are the instances of the implementor's
  \<open>write_bytes\<close> at the two writers of the trait; \<open>enc\<close> is the encoding and \<open>norm\<close> what a
  value becomes when it is written and read back.
\<close>

locale to_from_bytes =
  fixes rd :: "u8 list \<Rightarrow> (io_error + 'a) \<times> u8 list"
    and wr_vec :: "'a \<Rightarrow> u8 list \<Rightarrow> u8 list write_result"
    and wr_av :: "'a \<Rightarrow> u8 arrayvec \<Rightarrow> u8 arrayvec write_result"
    and valid :: "'a \<Rightarrow> bool"
    and enc :: "'a \<Rightarrow> u8 list"
    and norm :: "'a \<Rightarrow> 'a"
  assumes wr_vec_enc: "valid x \<Longrightarrow> wr_vec x v = vec_write_all v (enc x)"
    and wr_av_enc: "valid x \<Longrightarrow> wr_av x a = av_write_all a (enc x)"
    and rd_enc: "valid x \<Longrightarrow> rd (enc x @ rest) = (Inr (norm x), rest)"
begin

lemma to_bytes_enc: "valid x \<Longrightarrow> tfb_to_bytes (wr_vec x) = Returns (enc x)"
  by (simp add: tfb_to_bytes_def wr_vec_enc vec_write_all_def)

lemma from_to_bytes:
  assumes "valid x"
  shows "\<exists>b. tfb_to_bytes (wr_vec x) = Returns b \<and> tfb_from_bytes rd (b @ rest) = Inr (norm x)"
  using assms by (simp add: to_bytes_enc tfb_from_bytes_def rd_enc)

text \<open>The stack version returns the same bytes if they fit and panics otherwise.\<close>

lemma to_bytes_on_stack_spec:
  assumes "valid x"
  shows "if length (enc x) \<le> C
    then \<exists>v. tfb_to_bytes_on_stack C (wr_av x) = Returns v \<and> av_inv nd v \<and> av_list v = enc x
    else tfb_to_bytes_on_stack C (wr_av x) = Panics"
  using av_writer.wa_fits [of nd "av_new C" "enc x"] av_writer.wa_short [of nd "av_new C" "enc x"]
  by (auto simp: tfb_to_bytes_on_stack_def wr_av_enc [OF assms])

end

end
