(* ===== verification/InetAddress.thy ===== *)
theory InetAddress
  imports Sockaddr To_From_Bytes "HOL-Library.List_Lexorder"
begin

text \<open>
  The operations of \<open>InetAddress\<close> in \<open>src/inetaddress.rs\<close> that compute with addresses: the CIDR test,
  the scope, equality, order and hash, and the binary encoding.
\<close>

section \<open>Operations\<close>

text \<open>\<open>wrapping_shr\<close> takes the distance modulo the width.\<close>

definition wrapping_shr_u32 :: "u32 \<Rightarrow> nat \<Rightarrow> u32" where
  "wrapping_shr_u32 w n = drop_bit (n mod 32) w"

definition wrapping_shr_u8 :: "u8 \<Rightarrow> nat \<Rightarrow> u8" where
  "wrapping_shr_u8 w n = drop_bit (n mod 8) w"

text \<open>The loop over whole bytes and the comparison of the last one; indexing past the end panics.\<close>

function within_v6 :: "u8 list \<Rightarrow> u8 list \<Rightarrow> nat \<Rightarrow> nat \<Rightarrow> bool outcome" where
  "within_v6 a b cidr_bits p =
     (if cidr_bits \<ge> 8
      then obind (index a p) (\<lambda>x. obind (index b p) (\<lambda>y.
             if x \<noteq> y then Returns False else within_v6 a b (cidr_bits - 8) (p + 1)))
      else let discard_bits = 8 - cidr_bits in
           obind (index a p) (\<lambda>x. obind (index b p) (\<lambda>y.
             Returns (wrapping_shr_u8 x discard_bits = wrapping_shr_u8 y discard_bits))))"
  by pat_completeness auto
termination
  by (relation "measure (\<lambda>(a, b, cidr_bits, p). cidr_bits)") auto

declare within_v6.simps [simp del]

definition inet_is_within :: "bool \<Rightarrow> endian \<Rightarrow> inet \<Rightarrow> inet \<Rightarrow> bool outcome" where
  "inet_is_within copy_live e self cidr =
     (if sa_family e self = sa_family e cidr
      then let cidr_bits = unat (inet_port e cidr); f = sa_family e self in
           if f = AF_INET
           then (if cidr_bits \<le> 32
                 then let discard_bits = 32 - cidr_bits in
                      Returns (wrapping_shr_u32 (to_be32 e (get_s_addr e self)) discard_bits
                             = wrapping_shr_u32 (to_be32 e (get_s_addr e cidr)) discard_bits)
                 else Returns False)
           else if f = AF_INET6
           then (if cidr_bits \<le> 128
                 then obind (get_s6_addr copy_live self) (\<lambda>a.
                      obind (get_s6_addr copy_live cidr) (\<lambda>b. within_v6 a b cidr_bits 0))
                 else Returns False)
           else Returns False
      else Returns False)"

datatype ip_scope = ScopeNone | Multicast | Loopback | PseudoPrivate | Global | LinkLocal | Shared | Private

text \<open>The enum is \<open>repr(u8)\<close>.\<close>

primrec ip_scope_repr :: "ip_scope \<Rightarrow> u8" where
  "ip_scope_repr ScopeNone = 0"
| "ip_scope_repr Multicast = 1"
| "ip_scope_repr Loopback = 2"
| "ip_scope_repr PseudoPrivate = 3"
| "ip_scope_repr Global = 4"
| "ip_scope_repr LinkLocal = 5"
| "ip_scope_repr Shared = 6"
| "ip_scope_repr Private = 7"

definition PSEUDO_PRIVATE_A :: "u8 list" where
  "PSEUDO_PRIVATE_A = [0x06, 0x15, 0x16, 0x19, 0x1a, 0x1c, 0x1d, 0x1e, 0x33, 0x37, 0x38]"

definition scope_v4 :: "u32 \<Rightarrow> ip_scope" where
  "scope_v4 ip =
     (let class_a = (ucast (drop_bit 24 ip) :: u8) in
      if class_a = 0x00 \<or> class_a = 0xff then ScopeNone
      else if class_a = 0x0a then Private
      else if class_a = 0x7f then Loopback
      else if class_a = 0x64 then
        (if ip AND 0xffc00000 = 0x64400000 then Private else Global)
      else if class_a = 0xa9 then
        (if ip AND 0xffff0000 = 0xa9fe0000 then LinkLocal else Global)
      else if class_a = 0xac then
        (if ip AND 0xfff00000 = 0xac100000 then Private else Global)
      else if class_a = 0xc0 then
        (if ip AND 0xffff0000 = 0xc0a80000 \<or> ip AND 0xffffff00 = 0xc0000200 then Private else Global)
      else if class_a = 0xc6 then
        (if ip AND 0xfffe0000 = 0xc6120000 \<or> ip AND 0xffffff00 = 0xc6336400 then Private else Global)
      else if class_a = 0xcb then
        (if ip AND 0xffffff00 = 0xcb007100 then Private else Global)
      else if class_a \<in> set PSEUDO_PRIVATE_A then PseudoPrivate
      else (let top = drop_bit 28 ip in
            if top = 0xe then Multicast else if top = 0xf then Private else Global))"

text \<open>The loops \<open>while ip[k] == 0 && k < 15\<close>; \<open>k\<close> never passes 15, the last index.\<close>

function skip_zeros :: "u8 list \<Rightarrow> nat \<Rightarrow> nat outcome" where
  "skip_zeros ip k =
     obind (index ip k) (\<lambda>x. if x = 0 \<and> k < 15 then skip_zeros ip (k + 1) else Returns k)"
  by pat_completeness auto
termination
  by (relation "measure (\<lambda>(ip, k). 15 - k)") auto

declare skip_zeros.simps [simp del]

definition scope_v6 :: "u8 list \<Rightarrow> ip_scope outcome" where
  "scope_v6 ip =
     obind (index ip 0) (\<lambda>ip0. obind (index ip 1) (\<lambda>ip1.
     if ip0 AND 0xf0 = 0xf0 \<and> ip0 = 0xff then Returns Multicast
     else if ip0 AND 0xf0 = 0xf0 \<and> ip0 = 0xfe \<and> ip1 AND 0xc0 = 0x80
     then obind (skip_zeros ip 2) (\<lambda>k. obind (index ip 15) (\<lambda>ip15.
            Returns (if k = 15 \<and> ip15 = 0x01 then Loopback else LinkLocal)))
     else if ip0 AND 0xf0 = 0xf0 \<and> ip0 AND 0xfe = 0xfc then Returns Private
     else obind (skip_zeros ip 0) (\<lambda>k. obind (index ip 15) (\<lambda>ip15.
            Returns (if k = 15 \<and> ip15 = 0x01 then Loopback
                     else if k = 15 \<and> ip15 = 0x00 then ScopeNone
                     else Global)))))"

definition inet_scope :: "endian \<Rightarrow> inet \<Rightarrow> ip_scope outcome" where
  "inet_scope e self =
     (let f = sa_family e self in
      if f = AF_INET then Returns (scope_v4 (get_s_addr e self))
      else if f = AF_INET6 then scope_v6 (sin6_addr self)
      else Returns ScopeNone)"

definition inet_eq :: "endian \<Rightarrow> inet \<Rightarrow> inet \<Rightarrow> bool" where
  "inet_eq e self other =
     (if sa_family e self = sa_family e other
      then let f = sa_family e self in
           if f = AF_INET then sin_port e self = sin_port e other \<and> get_s_addr e self = get_s_addr e other
           else if f = AF_INET6
           then (if sin_port e self = sin_port e other then sin6_addr self = sin6_addr other else False)
           else True
      else False)"

definition inet_cmp :: "endian \<Rightarrow> inet \<Rightarrow> inet \<Rightarrow> ordering" where
  "inet_cmp e self other =
     (let f = sa_family e self; g = sa_family e other in
      if f = g
      then if f = 0 then Equal
           else if f = AF_INET
           then let ip_ordering = prim_cmp (to_be32 e (get_s_addr e self)) (to_be32 e (get_s_addr e other)) in
                if ip_ordering = Equal
                then prim_cmp (to_be16 e (sin_port e self)) (to_be16 e (sin_port e other))
                else ip_ordering
           else if f = AF_INET6
           then let ip_ordering = iter_cmp (sin6_addr self) (sin6_addr other) in
                if ip_ordering = Equal
                then prim_cmp (to_be16 e (sin_port e self)) (to_be16 e (sin_port e other))
                else ip_ordering
           else iter_cmp self other
      else if f = 0 then Less
      else if f = AF_INET then (if g = AF_INET6 then Less else prim_cmp f g)
      else if f = AF_INET6 then (if g = AF_INET then Greater else prim_cmp f g)
      else prim_cmp f g)"

definition inet_partial_cmp :: "endian \<Rightarrow> inet \<Rightarrow> inet \<Rightarrow> ordering option" where
  "inet_partial_cmp e self other = Some (inet_cmp e self other)"

text \<open>The values that \<open>hash\<close> feeds to the hasher, in order.\<close>

datatype hash_item = HashU8 u8 | HashU16 u16 | HashU32 u32 | HashBytes "u8 list"

definition inet_hash :: "endian \<Rightarrow> inet \<Rightarrow> hash_item list" where
  "inet_hash e self =
     (let f = sa_family e self in
      HashU8 (ucast f) #
      (if f = AF_INET then [HashU16 (sin_port e self), HashU32 (get_s_addr e self)]
       else if f = AF_INET6 then [HashU16 (sin_port e self), HashBytes (sin6_addr self)]
       else []))"

text \<open>The binary encoding, on any reader and any writer.\<close>

definition inet_read_bytes :: "endian \<Rightarrow> 'r read_exact_fn \<Rightarrow> 'r \<Rightarrow> (io_error + inet) \<times> 'r" where
  "inet_read_bytes e rx r =
     (case rx r 1 of
        (Inl err, r) \<Rightarrow> (Inl err, r)
      | (Inr b, r) \<Rightarrow>
          if b ! 0 = 4
          then (case rx r 6 of
                  (Inl err, r) \<Rightarrow> (Inl err, r)
                | (Inr b, r) \<Rightarrow>
                    (Inr (inet_from_ip_port e (get_region 0 4 b) (of_nat (nat_of_be (get_region 4 2 b)))), r))
          else if b ! 0 = 6
          then (case rx r 18 of
                  (Inl err, r) \<Rightarrow> (Inl err, r)
                | (Inr b, r) \<Rightarrow>
                    (Inr (inet_from_ip_port e (get_region 0 16 b) (of_nat (nat_of_be (get_region 16 2 b)))), r))
          else (Inr inet_new, r))"

definition inet_write_bytes :: "endian \<Rightarrow> 'w write_all_fn \<Rightarrow> inet \<Rightarrow> 'w \<Rightarrow> 'w write_result" where
  "inet_write_bytes e wa self w =
     (let f = sa_family e self; port = get_region PORT_OFF 2 self in
      if f = AF_INET then wa w ([4] @ s_addr_octets e self @ [port ! 0, port ! 1])
      else if f = AF_INET6 then wa w ([6] @ sin6_addr self @ [port ! 0, port ! 1])
      else wa w [0])"

section \<open>The CIDR test\<close>

text \<open>The first \<open>n\<close> bits of two addresses of the same length agree.\<close>

definition same_prefix :: "nat \<Rightarrow> u8 list \<Rightarrow> u8 list \<Rightarrow> bool" where
  "same_prefix n a b \<longleftrightarrow> nat_of_be a div 2 ^ (8 * length a - n) = nat_of_be b div 2 ^ (8 * length b - n)"

lemma drop_bit_eq_iff: "drop_bit n v = drop_bit n w \<longleftrightarrow> unat v div 2 ^ n = unat w div 2 ^ n" for v w :: "'a::len word"
proof -
  have "unat (drop_bit n x) = unat x div 2 ^ n" for x :: "'a word"
    by (metis drop_bit_eq_div unat_drop_bit_eq)
  then show ?thesis by (metis word_eq_iff_unsigned)
qed

lemma s_addr_number: "inet_inv a \<Longrightarrow> unat (to_be32 e (get_s_addr e a)) = nat_of_be (get_region 4 4 a)"
  using nat_of_be_bound [of "get_region 4 4 a"]
  by (simp add: get_s_addr_def layout_defs from_be_load32 of_nat_inj32 inet_inv_def)

lemma get_region_length [simp]: "inet_inv a \<Longrightarrow> length (get_region 4 4 a) = 4"
  "inet_inv a \<Longrightarrow> length (get_region 8 16 a) = 16" "inet_inv a \<Longrightarrow> length (get_region 2 2 a) = 2"
  by (simp_all add: inet_inv_def layout_defs)

lemma is_within_v4:
  assumes "inet_inv a" and "inet_inv c" and "sa_family e a = AF_INET" and "sa_family e c = AF_INET"
  shows "inet_is_within copy_live e a c =
    (let n = unat (inet_port e c) in
     Returns (n \<le> 32 \<and> same_prefix (if n = 0 then 32 else n) (inet_ip_bytes e a) (inet_ip_bytes e c)))"
proof -
  let ?n = "unat (inet_port e c)"
  have ip: "inet_ip_bytes e x = get_region 4 4 x" if "sa_family e x = AF_INET" for x
    using that by (simp add: inet_ip_bytes_def layout_defs)
  have "(32 - ?n) mod 32 = 32 - (if ?n = 0 then 32 else ?n)" if "?n \<le> 32" using that by auto
  then show ?thesis
    using assms
    by (simp add: inet_is_within_def Let_def wrapping_shr_u32_def drop_bit_eq_iff s_addr_number ip same_prefix_def)
qed

lemma within_v6_loop:
  assumes "length a = 16" and "length b = 16" and "p + n div 8 \<le> 16"
  shows "within_v6 a b n p =
    (let q = n div 8; d = (8 - n mod 8) mod 8 in
     if take q (drop p a) \<noteq> take q (drop p b) then Returns False
     else if p + q < 16 then Returns (drop_bit d (a ! (p + q)) = drop_bit d (b ! (p + q)))
     else Panics)"
  using assms
proof (induction a b n p rule: within_v6.induct)
  case (1 a b n p)
  show ?case
  proof (cases "8 \<le> n")
    case False
    then show ?thesis
      using "1.prems" by (cases "p < 16") (simp_all add: within_v6.simps [of a b n p] within_v6.simps [of a b n 16] wrapping_shr_u8_def Let_def)
  next
    case True
    have d: "n div 8 = Suc ((n - 8) div 8)" "n mod 8 = (n - 8) mod 8" using True by (simp_all add: le_div_geq le_mod_geq)
    have p: "p < 16" using "1.prems"(3) d by simp
    have c: "drop p a = a ! p # drop (Suc p) a" "drop p b = b ! p # drop (Suc p) b"
      using p "1.prems"(1,2) by (simp_all add: Cons_nth_drop_Suc)
    have step: "within_v6 a b n p = (if a ! p \<noteq> b ! p then Returns False else within_v6 a b (n - 8) (p + 1))"
      using p True "1.prems"(1,2) by (simp add: within_v6.simps [of a b n p])
    show ?thesis
    proof (cases "a ! p = b ! p")
      case False
      then show ?thesis unfolding step Let_def d(1) c by simp
    next
      case eq: True
      have "within_v6 a b (n - 8) (p + 1) = (let q = (n - 8) div 8; d = (8 - (n - 8) mod 8) mod 8 in
         if take q (drop (p + 1) a) \<noteq> take q (drop (p + 1) b) then Returns False
         else if p + 1 + q < 16 then Returns (drop_bit d (a ! (p + 1 + q)) = drop_bit d (b ! (p + 1 + q)))
         else Panics)"
        using p True "1.prems" eq d(1) by (intro "1.IH") simp_all
      then show ?thesis unfolding step Let_def d c using eq by (simp del: take_drop)
    qed
  qed
qed

text \<open>The bits of an address up to a position inside one of its bytes.\<close>

lemma prefix_number:
  assumes "length a = 16" and "q < 16" and "0 < r" and "r \<le> 8"
  shows "nat_of_be a div 2 ^ (128 - (8 * q + r)) = nat_of_be (take q a) * 2 ^ r + unat (a ! q) div 2 ^ (8 - r)"
proof -
  let ?m = "15 - q"
  have split: "nat_of_be (xs @ ys) = nat_of_be xs * 256 ^ length ys + nat_of_be ys" for xs ys
    by (induction xs) (simp_all add: nat_of_be_Cons power_add algebra_simps)
  have a: "a = take q a @ a ! q # drop (Suc q) a" using assms(1,2) by (simp add: id_take_nth_drop)
  have len: "length (drop (Suc q) a) = ?m" using assms(1) by simp
  have "nat_of_be a = nat_of_be (take q a) * 256 ^ Suc ?m + (unat (a ! q) * 256 ^ ?m + nat_of_be (drop (Suc q) a))"
    by (subst a) (simp only: split nat_of_be_Cons list.size len add_Suc_right add_0_right)
  also have "\<dots> = (nat_of_be (take q a) * 256 + unat (a ! q)) * 256 ^ ?m + nat_of_be (drop (Suc q) a)"
    by (simp add: algebra_simps)
  finally have eq: "nat_of_be a = (nat_of_be (take q a) * 256 + unat (a ! q)) * 256 ^ ?m + nat_of_be (drop (Suc q) a)" .
  have "nat_of_be (drop (Suc q) a) < 256 ^ ?m" using nat_of_be_bound [of "drop (Suc q) a"] len by simp
  then have hi: "nat_of_be a div 256 ^ ?m = nat_of_be (take q a) * 256 + unat (a ! q)"
    unfolding eq by simp
  have "(2 :: nat) ^ (128 - (8 * q + r)) = 256 ^ ?m * 2 ^ (8 - r)"
  proof -
    have "128 - (8 * q + r) = 8 * ?m + (8 - r)" using assms by simp
    then show ?thesis by (simp only: power_add power_mult) simp
  qed
  moreover have "(256 :: nat) = 2 ^ r * 2 ^ (8 - r)"
    using assms(4) by (simp flip: power_add)
  moreover have "(n * (2 ^ r * 2 ^ (8 - r)) + k) div 2 ^ (8 - r) = n * 2 ^ r + k div 2 ^ (8 - r)" for n k :: nat
    by (simp flip: mult.assoc)
  ultimately show ?thesis using hi by (metis div_mult2_eq)
qed

lemma same_prefix_bytes:
  assumes "length a = 16" and "length b = 16" and "q < 16" and "0 < r" and "r \<le> 8"
  shows "same_prefix (8 * q + r) a b \<longleftrightarrow> take q a = take q b \<and> drop_bit (8 - r) (a ! q) = drop_bit (8 - r) (b ! q)"
proof -
  have lt: "unat x div 2 ^ (8 - r) < 2 ^ r" for x :: u8
  proof -
    have "unat x < 2 ^ r * 2 ^ (8 - r)" using assms(5) by (simp flip: power_add)
    then show ?thesis by (rule less_mult_imp_div_less)
  qed
  have "n * 2 ^ r + unat x div 2 ^ (8 - r) = m * 2 ^ r + unat y div 2 ^ (8 - r) \<longleftrightarrow> n = m \<and> unat x div 2 ^ (8 - r) = unat y div 2 ^ (8 - r)"
    for n m and x y :: u8
    using lt [of x] lt [of y] by (rule radix_eq_iff)
  moreover have "nat_of_be (take q a) = nat_of_be (take q b) \<longleftrightarrow> take q a = take q b"
    using assms(1,2) nat_of_le_inj [of "rev (take q a)" "rev (take q b)"] by (simp add: nat_of_be_def)
  ultimately show ?thesis
    using prefix_number [OF assms(1,3-5)] prefix_number [OF assms(2,3-5)] assms(1,2)
    by (simp add: same_prefix_def drop_bit_eq_iff)
qed

lemma same_prefix_whole: "length a = 16 \<Longrightarrow> length b = 16 \<Longrightarrow> same_prefix 128 a b \<longleftrightarrow> a = b"
  using nat_of_le_inj [of "rev a" "rev b"] by (simp add: same_prefix_def nat_of_be_def)

lemma within_v6_spec:
  assumes "length a = 16" and "length b = 16" and "n \<le> 128"
  shows "within_v6 a b n 0 =
    (if n = 128 then if a = b then Panics else Returns False
     else Returns (same_prefix (if 8 dvd n then n + 8 else n) a b))"
proof (cases "n = 128")
  case True
  then show ?thesis using within_v6_loop [of a b 0 n] assms by simp
next
  case False
  let ?q = "n div 8" and ?r = "if 8 dvd n then 8 else n mod 8"
  have q: "?q < 16" using assms(3) False by simp
  have n: "8 * ?q + ?r = (if 8 dvd n then n + 8 else n)" by auto
  have r: "0 < ?r" "?r \<le> 8" "(8 - n mod 8) mod 8 = 8 - ?r" by (auto simp: dvd_eq_mod_eq_0 intro: less_imp_le)
  have "within_v6 a b n 0 = Returns (take ?q a = take ?q b \<and> drop_bit (8 - ?r) (a ! ?q) = drop_bit (8 - ?r) (b ! ?q))"
    using within_v6_loop [of a b 0 n] assms q unfolding Let_def r(3) by simp
  then show ?thesis
    using same_prefix_bytes [OF assms(1,2) q r(1,2)] False unfolding n by simp
qed

text \<open>
  C16: What \<open>is_within\<close> computes: whether the first \<open>n\<close> bits of the address and of the range agree,
  \<open>n\<close> being the port of the range, but with three deviations from what its comment says. For
  IPv4 and \<open>n = 0\<close> all 32 bits are compared. For IPv6 and \<open>n\<close> a multiple of 8 one more byte is
  compared than should be. For IPv6 and \<open>n = 128\<close> it panics if the addresses are equal.
\<close>

theorem inet_is_within_spec:
  assumes "inet_inv a" and "inet_inv c"
  shows "inet_is_within copy_live e a c =
    (case inet_view e a of Endpoint f ip _ \<Rightarrow> case inet_view e c of Endpoint g net port \<Rightarrow>
     let n = unat port in
     if f \<noteq> g then Returns False
     else if f = AF_INET then Returns (n \<le> 32 \<and> same_prefix (if n = 0 then 32 else n) ip net)
     else if f = AF_INET6 then
       (if 128 < n then Returns False
        else if \<not> copy_live then Undefined
        else if n = 128 then if ip = net then Panics else Returns False
        else Returns (same_prefix (if 8 dvd n then n + 8 else n) ip net))
     else Returns False)"
proof -
  have fam: "sa_family e x = f" "inet_ip_bytes e x = ip" "inet_port e x = q" if "inet_view e x = Endpoint f ip q" for x f ip q
    using that by (simp_all add: inet_view_def inet_family_def)
  consider (differ) "sa_family e a \<noteq> sa_family e c"
    | (v4) "sa_family e a = AF_INET" "sa_family e c = AF_INET"
    | (v6) "sa_family e a = AF_INET6" "sa_family e c = AF_INET6"
    | (other) "sa_family e a = sa_family e c" "sa_family e a \<noteq> AF_INET" "sa_family e a \<noteq> AF_INET6"
    by fastforce
  then show ?thesis
  proof cases
    case differ
    then show ?thesis by (simp add: inet_is_within_def inet_view_def inet_family_def)
  next
    case v4
    then show ?thesis
      using is_within_v4 [OF assms v4] by (simp add: inet_view_def inet_family_def Let_def)
  next
    case v6
    have ip: "inet_ip_bytes e x = get_region 8 16 x" "sin6_addr x = get_region 8 16 x" if "sa_family e x = AF_INET6" for x
      using that by (simp_all add: inet_ip_bytes_def sin6_addr_def layout_defs)
    then show ?thesis
      using v6 assms within_v6_spec [of "get_region 8 16 a" "get_region 8 16 c"]
      by (simp add: inet_is_within_def inet_view_def inet_family_def Let_def get_s6_addr_def not_le)
  next
    case other
    then show ?thesis by (simp add: inet_is_within_def inet_view_def inet_family_def)
  qed
qed

text \<open>\<open>10.0.0.1\<close> is reported not to be within \<open>0.0.0.0/0\<close>, nor \<open>::1\<close> within \<open>::/120\<close>, and
  \<open>::1\<close> against \<open>::1/128\<close> panics.\<close>

theorem inet_is_within_spec_witness:
  "inet_is_within True LE (inet_from_ip_port LE [10, 0, 0, 1] 0) (inet_from_ip_port LE [0, 0, 0, 0] 0) = Returns False
   \<and> inet_is_within True LE (inet_from_ip_port LE (replicate 15 0 @ [1]) 0) (inet_from_ip_port LE (replicate 16 0) 120) = Returns False
   \<and> inet_is_within True LE (inet_from_ip_port LE (replicate 15 0 @ [1]) 0) (inet_from_ip_port LE (replicate 15 0 @ [1]) 128) = Panics"
proof -
  have v: "inet_view LE (inet_from_ip_port LE [10, 0, 0, 1] 0) = Endpoint AF_INET [10, 0, 0, 1] 0"
    "inet_view LE (inet_from_ip_port LE [0, 0, 0, 0] 0) = Endpoint AF_INET [0, 0, 0, 0] 0"
    "inet_view LE (inet_from_ip_port LE (replicate 15 0 @ [1]) p) = Endpoint AF_INET6 (replicate 15 0 @ [1]) p"
    "inet_view LE (inet_from_ip_port LE (replicate 16 0) p) = Endpoint AF_INET6 (replicate 16 0) p" for p
    by (simp_all add: from_ip_port_view)
  have p: "\<not> same_prefix 32 [10, 0, 0, 1] [0, 0, 0, 0]"
    by (simp add: same_prefix_def nat_of_be_Cons)
  have q: "\<not> same_prefix 128 (replicate 15 0 @ [1]) (replicate 16 0)"
    by (subst same_prefix_whole) (simp_all add: numeral_eq_Suc)
  show ?thesis
    using p q by (simp add: inet_is_within_spec v from_ip_port_view(1) Let_def)
qed

section \<open>Equality, order and hash\<close>

text \<open>Endpoints in the order of family, octets and port.\<close>

instantiation endpoint :: linorder
begin

fun less_eq_endpoint :: "endpoint \<Rightarrow> endpoint \<Rightarrow> bool" where
  "less_eq_endpoint (Endpoint f ip p) (Endpoint g jp q) \<longleftrightarrow>
     f < g \<or> f = g \<and> (ip < jp \<or> ip = jp \<and> p \<le> q)"

definition less_endpoint :: "endpoint \<Rightarrow> endpoint \<Rightarrow> bool" where
  "less_endpoint x y \<longleftrightarrow> x \<le> y \<and> \<not> y \<le> (x :: endpoint)"

instance
proof
  fix x y z :: endpoint
  obtain f ip p g jp q h kp r where e: "x = Endpoint f ip p" "y = Endpoint g jp q" "z = Endpoint h kp r"
    by (cases x; cases y; cases z) blast
  show "x < y \<longleftrightarrow> x \<le> y \<and> \<not> y \<le> x" by (simp add: less_endpoint_def)
  show "x \<le> x" by (simp add: e)
  show "x \<le> y \<Longrightarrow> y \<le> z \<Longrightarrow> x \<le> z" by (auto simp: e)
  show "x \<le> y \<Longrightarrow> y \<le> x \<Longrightarrow> x = y" by (auto simp: e)
  show "x \<le> y \<or> y \<le> x" by (auto simp: e)
qed

end

lemma less_endpoint [simp]:
  "Endpoint f ip p < Endpoint g jp q \<longleftrightarrow> f < g \<or> f = g \<and> (ip < jp \<or> ip = jp \<and> p < q)"
  by (auto simp: less_endpoint_def)

text \<open>The lexicographic comparison of slices is the order of byte lists.\<close>

lemma iter_cmp_prim_cmp: "iter_cmp xs ys = prim_cmp xs ys"
  by (induction xs ys rule: iter_cmp.induct) (auto simp: prim_cmp_def)

definition known_family :: "endian \<Rightarrow> inet \<Rightarrow> bool" where
  "known_family e a \<longleftrightarrow> inet_is_nil e a \<or> inet_is_ip e a"

lemma s_addr_eq_iff:
  assumes "inet_inv a" and "inet_inv b"
  shows "get_s_addr e a = get_s_addr e b \<longleftrightarrow> get_region 4 4 a = get_region 4 4 b"
proof
  assume "get_s_addr e a = get_s_addr e b"
  then have "s_addr_octets e a = s_addr_octets e b" by (simp add: s_addr_octets_def)
  then show "get_region 4 4 a = get_region 4 4 b" using assms by (simp add: s_addr_octets_bytes)
qed (simp add: get_s_addr_def load32_def layout_defs)

lemma s_addr_cmp:
  assumes "inet_inv a" and "inet_inv b"
  shows "prim_cmp (to_be32 e (get_s_addr e a)) (to_be32 e (get_s_addr e b))
    = prim_cmp (get_region 4 4 a) (get_region 4 4 b)"
proof -
  have "prim_cmp v w = prim_cmp (unat v) (unat w)" for v w :: u32
    by (simp add: prim_cmp_def word_less_nat_alt word_unat_eq_iff)
  then show ?thesis
    using assms iter_cmp_nat_of_be [of "get_region 4 4 a" "get_region 4 4 b"]
    by (simp add: s_addr_number flip: iter_cmp_prim_cmp)
qed

text \<open>The functions of the code by the viewed family, octets and port.\<close>

lemma view_fields:
  assumes "inet_view e a = Endpoint f ip p"
  shows "sa_family e a = f" "inet_ip_bytes e a = ip" "inet_port e a = p"
  using assms by (simp_all add: inet_view_def inet_family_def)

lemma ip_fields:
  "sa_family e a = AF_INET \<Longrightarrow> inet_ip_bytes e a = get_region 4 4 a \<and> inet_port e a = to_be16 e (sin_port e a)"
  "sa_family e a = AF_INET6 \<Longrightarrow> inet_ip_bytes e a = sin6_addr a \<and> inet_port e a = to_be16 e (sin_port e a)"
  by (simp_all add: inet_ip_bytes_def inet_port_def layout_defs)

lemma inet_eq_view:
  assumes "inet_inv a" and "inet_inv b"
  shows "inet_eq e a b \<longleftrightarrow> inet_view e a = inet_view e b"
  using ip_fields [of e a] ip_fields [of e b] s_addr_eq_iff [OF assms, of e] view_other [of e a] view_other [of e b]
  by (auto simp: inet_eq_def inet_view_def inet_family_def Let_def to_be16_inj)

text \<open>
  C15: On nil and IP addresses \<open>==\<close>, \<open>cmp\<close> and \<open>hash\<close> depend on family, octets and port alone,
  the order is the linear order of these, and equal addresses feed equal values to the hasher.
\<close>

theorem inet_cmp_linear:
  assumes "inet_inv a" and "inet_inv b" and "known_family e a" and "known_family e b"
  shows "inet_cmp e a b = prim_cmp (inet_view e a) (inet_view e b)
    \<and> (inet_eq e a b \<longleftrightarrow> inet_cmp e a b = Equal)
    \<and> (inet_eq e a b \<longleftrightarrow> inet_hash e a = inet_hash e b)"
proof -
  have cmp: "inet_cmp e a b = prim_cmp (inet_view e a) (inet_view e b)"
    using assms(3,4) ip_fields [of e a] ip_fields [of e b] view_other [of e a] view_other [of e b]
      s_addr_cmp [OF assms(1,2), of e]
    by (auto simp: inet_cmp_def inet_view_def inet_family_def Let_def known_family_def inet_is_nil_def inet_is_ip_def
        iter_cmp_prim_cmp prim_cmp_def AF_INET_def AF_INET6_def)
  have "inet_eq e a b \<longleftrightarrow> inet_hash e a = inet_hash e b"
    using assms(3,4)
    by (auto simp: inet_hash_def inet_eq_def known_family_def inet_is_nil_def inet_is_ip_def Let_def AF_INET_def AF_INET6_def)
  then show ?thesis
    using cmp by (simp add: inet_eq_view [OF assms(1,2)])
qed

theorem inet_cmp_linear_witness:
  "inet_cmp LE (inet_from_ip_port LE [10, 0, 0, 2] 1) (inet_from_ip_port LE [10, 0, 1, 1] 0) = Less"
proof -
  have v: "inet_view LE (inet_from_ip_port LE [10, 0, 0, 2] 1) = Endpoint AF_INET [10, 0, 0, 2] 1"
    "inet_view LE (inet_from_ip_port LE [10, 0, 1, 1] 0) = Endpoint AF_INET [10, 0, 1, 1] 0"
    by (simp_all add: from_ip_port_view)
  then have "known_family LE (inet_from_ip_port LE [10, 0, 0, 2] 1)" "known_family LE (inet_from_ip_port LE [10, 0, 1, 1] 0)"
    by (simp_all add: known_family_def inet_is_ip_def view_fields)
  then show ?thesis
    using inet_cmp_linear [of "inet_from_ip_port LE [10, 0, 0, 2] 1" "inet_from_ip_port LE [10, 0, 1, 1] 0" LE] v
    by (simp add: from_ip_port_view prim_cmp_def)
qed

text \<open>
  On any other family \<open>==\<close> and \<open>cmp\<close> disagree: two addresses of the same unknown family are equal
  for \<open>==\<close> whatever they hold, \<open>cmp\<close> compares their bytes.
\<close>

theorem inet_eq_cmp_disagree:
  assumes "\<not> known_family e a" and "sa_family e a = sa_family e b"
  shows "inet_eq e a b \<and> inet_hash e a = inet_hash e b \<and> inet_cmp e a b = iter_cmp a b"
  using assms
  by (auto simp: inet_eq_def inet_hash_def inet_cmp_def known_family_def inet_is_nil_def inet_is_ip_def Let_def)

theorem inet_eq_cmp_disagree_witness:
  "inet_eq LE ([1, 0] @ replicate 126 0) ([1, 0] @ replicate 126 5)
   \<and> inet_cmp LE ([1, 0] @ replicate 126 0) ([1, 0] @ replicate 126 5) = Less"
proof -
  let ?a = "[1, 0] @ replicate 126 0 :: u8 list" and ?b = "[1, 0] @ replicate 126 5 :: u8 list"
  have f: "sa_family LE ?a = 1" "sa_family LE ?b = 1"
    by (simp_all add: sa_family_def load16_def layout_defs get_region_def of_ne_bytes_def numeral_2_eq_2)
  then have "\<not> known_family LE ?a"
    by (simp add: known_family_def inet_is_nil_def inet_is_ip_def AF_INET_def AF_INET6_def)
  moreover have "iter_cmp ?a ?b = Less" by code_simp
  ultimately show ?thesis using inet_eq_cmp_disagree [of LE ?a ?b] f by simp
qed

section \<open>Lookup keys\<close>

lemma ucast_32_128: "(ucast v :: u128) = ucast w \<longleftrightarrow> v = w" for v w :: u32
proof
  assume "(ucast v :: u128) = ucast w"
  then have "(ucast (ucast v :: u128) :: u32) = ucast (ucast w :: u128)" by (rule arg_cong)
  then show "v = w" by (simp add: ucast_up_ucast_id is_up)
qed simp

lemma v6_number_inj:
  assumes "length xs = 16" and "length ys = 16"
  shows "(of_nat (of_ne_bytes e xs) :: u128) = of_nat (of_ne_bytes e ys) \<longleftrightarrow> xs = ys"
proof
  have number: "unat (of_nat (of_ne_bytes e zs) :: u128) = of_ne_bytes e zs" if "length zs = 16" for zs
  proof -
    have "of_ne_bytes e zs < 256 ^ 16" using of_ne_bytes_bound [of e zs] unfolding that .
    then have "of_ne_bytes e zs < 2 ^ LENGTH(128)" by simp
    then show ?thesis by (rule of_nat_inverse [rotated]) simp
  qed
  assume "(of_nat (of_ne_bytes e xs) :: u128) = of_nat (of_ne_bytes e ys)"
  then have "unat (of_nat (of_ne_bytes e xs) :: u128) = unat (of_nat (of_ne_bytes e ys) :: u128)" by (rule arg_cong)
  then have "of_ne_bytes e xs = of_ne_bytes e ys" unfolding number [OF assms(1)] number [OF assms(2)] .
  then have "ne_bytes e 16 (of_ne_bytes e xs) = ne_bytes e 16 (of_ne_bytes e ys)" by (rule arg_cong)
  then show "xs = ys" unfolding ne_bytes_of_ne_bytes [OF assms(1)] ne_bytes_of_ne_bytes [OF assms(2)] .
qed simp

text \<open>
  Two IP addresses of one family have the same key exactly if address and port are the same; an
  address that is not IP has the key zero. (Addresses of different families may share a key.)
\<close>

theorem inet_key_injective:
  assumes "inet_inv a" and "inet_inv b" and "inet_family e a = inet_family e b"
  shows "if inet_is_ip e a then inet_key e a = inet_key e b \<longleftrightarrow> inet_view e a = inet_view e b
    else inet_key e a = (0, 0)"
proof -
  have len: "length (sin6_addr x) = 16" if "inet_inv x" for x
    using that by (simp add: sin6_addr_def inet_inv_def layout_defs)
  have g: "sa_family e b = sa_family e a" using assms(3) by (simp add: inet_family_def)
  consider (v4) "sa_family e a = AF_INET" | (v6) "sa_family e a = AF_INET6"
    | (other) "sa_family e a \<noteq> AF_INET" "sa_family e a \<noteq> AF_INET6" by blast
  then show ?thesis
  proof cases
    case v4
    then have "inet_key e a = inet_key e b \<longleftrightarrow> get_s_addr e a = get_s_addr e b \<and> sin_port e a = sin_port e b"
      using g by (simp add: inet_key_def ucast_32_128)
    also have "\<dots> \<longleftrightarrow> inet_view e a = inet_view e b"
      using v4 g ip_fields(1) [of e a] ip_fields(1) [of e b] s_addr_eq_iff [OF assms(1,2), of e]
      by (simp add: inet_view_def inet_family_def to_be16_inj)
    finally show ?thesis using v4 by (simp add: inet_is_ip_def)
  next
    case v6
    then have "inet_key e a = inet_key e b \<longleftrightarrow> sin6_addr a = sin6_addr b \<and> sin_port e a = sin_port e b"
      using g v6_number_inj [OF len [OF assms(1)] len [OF assms(2)], of e] by (simp add: inet_key_def)
    also have "\<dots> \<longleftrightarrow> inet_view e a = inet_view e b"
      using v6 g ip_fields(2) [of e a] ip_fields(2) [of e b] by (simp add: inet_view_def inet_family_def to_be16_inj)
    finally show ?thesis using v6 by (simp add: inet_is_ip_def)
  next
    case other
    then show ?thesis by (simp add: inet_is_ip_def inet_key_def)
  qed
qed

theorem inet_key_injective_witness:
  "inet_key LE (inet_ipv4_loopback LE 80) \<noteq> inet_key LE (inet_ipv4_loopback LE 81)"
proof -
  have v: "inet_view LE (inet_ipv4_loopback LE p) = Endpoint AF_INET [127, 0, 0, 1] p" "inet_inv (inet_ipv4_loopback LE p)" for p
    by (simp_all add: ipv4_loopback_eq from_ip_port_view)
  then have "inet_is_ip LE (inet_ipv4_loopback LE 80)" "inet_family LE (inet_ipv4_loopback LE p) = AF_INET" for p
    using view_fields(1) [OF v(1)] by (simp_all add: inet_is_ip_def inet_family_def)
  then show ?thesis
    using inet_key_injective [OF v(2) v(2), of LE 80 81] v(1) by simp
qed

section \<open>The binary encoding\<close>

text \<open>The encoding of a viewed address, and the address that reading it back builds.\<close>

definition endpoint_bytes :: "endpoint \<Rightarrow> u8 list" where
  "endpoint_bytes x = (case x of Endpoint f ip p \<Rightarrow>
     if f = AF_INET then 4 # ip @ be_bytes 2 (unat p)
     else if f = AF_INET6 then 6 # ip @ be_bytes 2 (unat p)
     else [0])"

definition endpoint_inet :: "endian \<Rightarrow> endpoint \<Rightarrow> inet" where
  "endpoint_inet e x = (case x of Endpoint f ip p \<Rightarrow>
     if f = AF_INET \<or> f = AF_INET6 then inet_from_ip_port e ip p else inet_new)"

definition endpoint_ok :: "endpoint \<Rightarrow> bool" where
  "endpoint_ok x = (case x of Endpoint f ip p \<Rightarrow>
     if f = AF_INET then length ip = 4 else if f = AF_INET6 then length ip = 16 else ip = [] \<and> p = 0)"

lemma view_ok: "inet_inv a \<Longrightarrow> endpoint_ok (inet_view e a)"
  using view_v4 [of a e] view_v6 [of a e] view_other [of e a]
  by (cases "sa_family e a = AF_INET"; cases "sa_family e a = AF_INET6") (simp_all add: endpoint_ok_def)

lemma endpoint_inet_view:
  "endpoint_ok x \<Longrightarrow> inet_inv (endpoint_inet e x)
    \<and> inet_view e (endpoint_inet e x) = (case x of Endpoint f ip p \<Rightarrow>
        if f = AF_INET \<or> f = AF_INET6 then x else Endpoint 0 [] 0)"
  by (cases x) (auto simp: endpoint_ok_def endpoint_inet_def from_ip_port_view inet_new_view split: if_splits)

lemma nth_port: "length r = 2 \<Longrightarrow> [r ! 0, r ! 1] = r"
  by (cases r; cases "tl r") auto

lemma be_port: "length r = 2 \<Longrightarrow> be_bytes 2 (unat (of_nat (nat_of_be r) :: u16)) = r"
  using nat_of_be_bound [of r] by (simp add: of_nat_inj16 byte_simps)

lemma inet_write_bytes_view:
  assumes "inet_inv a"
  shows "inet_write_bytes e wa a w = wa w (endpoint_bytes (inet_view e a))"
  using view_v4 [OF assms, of e] view_v6 [OF assms, of e] view_other [of e a]
    nth_port [of "get_region 2 2 a"] be_port [of "get_region 2 2 a"] assms
  by (simp add: inet_write_bytes_def endpoint_bytes_def s_addr_octets_bytes sin6_addr_def layout_defs Let_def)

context reader begin

lemma inet_read_bytes_enc:
  assumes "endpoint_ok x" and "pending r = endpoint_bytes x @ rest"
  shows "\<exists>r'. inet_read_bytes e rx r = (Inr (endpoint_inet e x), r') \<and> pending r' = rest"
proof -
  obtain f ip p where x: "x = Endpoint f ip p" by (cases x)
  obtain c body where c: "endpoint_bytes x = c # body" by (cases "endpoint_bytes x") (auto simp: endpoint_bytes_def x split: if_splits)
  have "1 \<le> length (pending r)" using assms(2) c by simp
  from rx_enough [OF this] obtain r1 where r1: "rx r 1 = (Inr [c], r1)" "pending r1 = body @ rest"
    using assms(2) c by (cases "rx r 1") auto
  have regions: "get_region 0 (length ip) (ip @ be_bytes 2 (unat p)) = ip"
    "get_region (length ip) 2 (ip @ be_bytes 2 (unat p)) = be_bytes 2 (unat p)"
    by (simp_all add: get_region_def)
  have read: "\<exists>r2. rx r1 (length ip + 2) = (Inr (ip @ be_bytes 2 (unat p)), r2) \<and> pending r2 = rest"
    if "body = ip @ be_bytes 2 (unat p)"
    using rx_enough [of "length ip + 2" r1] that r1(2) by (cases "rx r1 (length ip + 2)") auto
  consider (v4) "f = AF_INET" | (v6) "f = AF_INET6" | (other) "f \<noteq> AF_INET" "f \<noteq> AF_INET6" by blast
  then show ?thesis
  proof cases
    case v4
    then have "length ip = 4" "c = 4" "body = ip @ be_bytes 2 (unat p)"
      using assms(1) c by (auto simp: endpoint_ok_def endpoint_bytes_def x)
    then show ?thesis
      using read regions v4 by (auto simp: inet_read_bytes_def r1(1) [unfolded One_nat_def] endpoint_inet_def x)
  next
    case v6
    then have "length ip = 16" "c = 6" "body = ip @ be_bytes 2 (unat p)"
      using assms(1) c by (auto simp: endpoint_ok_def endpoint_bytes_def x)
    then show ?thesis
      using read regions v6 by (auto simp: inet_read_bytes_def r1(1) [unfolded One_nat_def] endpoint_inet_def x)
  next
    case other
    then have "c = 0" "body = []" using c by (auto simp: endpoint_bytes_def x)
    then show ?thesis using other r1 by (simp add: inet_read_bytes_def r1(1) [unfolded One_nat_def] endpoint_inet_def x)
  qed
qed

end

interpretation inet_bytes: to_from_bytes
  "inet_read_bytes e slice_read_exact" "\<lambda>a v. inet_write_bytes e vec_write_all a v"
  "\<lambda>a v. inet_write_bytes e av_write_all a v" inet_inv
  "\<lambda>a. endpoint_bytes (inet_view e a)" "\<lambda>a. endpoint_inet e (inet_view e a)" for e
proof unfold_locales
  fix a :: inet and rest
  assume "inet_inv a"
  then show "inet_read_bytes e slice_read_exact (endpoint_bytes (inet_view e a) @ rest)
      = (Inr (endpoint_inet e (inet_view e a)), rest)"
    using slice.inet_read_bytes_enc [OF view_ok, of a "endpoint_bytes (inet_view e a) @ rest" e rest] by auto
qed (simp_all add: inet_write_bytes_view)

text \<open>
  C13: What \<open>to_bytes\<close> gives on one host, \<open>from_bytes\<close> reads as the same address on any host: family,
  octets and port, whatever the byte orders; a foreign family becomes the nil address. The encoding
  takes 1, 7 or 19 bytes, so \<open>to_bytes_on_stack\<close> with the 32 bytes that serialization uses cannot
  panic.
\<close>

theorem inet_bytes_portable:
  assumes "inet_inv a"
  shows "\<exists>b a' v. tfb_to_bytes (\<lambda>v. inet_write_bytes e vec_write_all a v) = Returns b
    \<and> tfb_from_bytes (inet_read_bytes e' slice_read_exact) (b @ rest) = Inr a'
    \<and> inet_inv a'
    \<and> inet_view e' a' = (if inet_is_ip e a then inet_view e a else Endpoint 0 [] 0)
    \<and> tfb_to_bytes_on_stack 32 (\<lambda>v. inet_write_bytes e av_write_all a v) = Returns v \<and> av_list v = b
    \<and> length b = (if inet_is_ipv4 e a then 7 else if inet_is_ipv6 e a then 19 else 1)"
proof -
  let ?x = "inet_view e a"
  note ok = view_ok [OF assms, of e]
  obtain f ip p where x: "?x = Endpoint f ip p" by (cases ?x)
  note f = view_fields [OF x]
  have len: "length (endpoint_bytes ?x) = (if inet_is_ipv4 e a then 7 else if inet_is_ipv6 e a then 19 else 1)"
    using ok f by (auto simp: x endpoint_ok_def endpoint_bytes_def inet_is_ipv4_def inet_is_ipv6_def)
  then have "length (endpoint_bytes ?x) \<le> 32" by simp
  then obtain v where v: "tfb_to_bytes_on_stack 32 (\<lambda>v. inet_write_bytes e av_write_all a v) = Returns v"
    "av_list v = endpoint_bytes ?x"
    using inet_bytes.to_bytes_on_stack_spec [OF assms, of e 32] by auto
  have view: "inet_inv (endpoint_inet e' ?x)"
    "inet_view e' (endpoint_inet e' ?x) = (if inet_is_ip e a then ?x else Endpoint 0 [] 0)"
    using endpoint_inet_view [OF ok, of e'] f by (simp_all add: x inet_is_ip_def)
  have "tfb_from_bytes (inet_read_bytes e' slice_read_exact) (endpoint_bytes ?x @ rest) = Inr (endpoint_inet e' ?x)"
    using slice.inet_read_bytes_enc [OF ok, of "endpoint_bytes ?x @ rest" rest e'] by (auto simp: tfb_from_bytes_def)
  with inet_bytes.to_bytes_enc [OF assms, of e] v view len show ?thesis by blast
qed

theorem inet_bytes_portable_witness:
  "\<exists>b a'. tfb_to_bytes (\<lambda>v. inet_write_bytes LE vec_write_all (inet_ipv4_loopback LE 9993) v) = Returns b
    \<and> tfb_from_bytes (inet_read_bytes BE slice_read_exact) (b @ [1, 2]) = Inr a'
    \<and> inet_view BE a' = Endpoint AF_INET [127, 0, 0, 1] 9993"
proof -
  let ?a = "inet_ipv4_loopback LE 9993"
  have a: "inet_inv ?a" "inet_view LE ?a = Endpoint AF_INET [127, 0, 0, 1] 9993"
    by (simp_all add: ipv4_loopback_eq from_ip_port_view)
  then have "inet_is_ip LE ?a" by (simp add: inet_is_ip_def view_fields)
  then show ?thesis using inet_bytes_portable [OF a(1), of LE BE "[1, 2]"] a(2) by auto
qed

text \<open>\<open>from_bytes\<close> on every input: it returns a valid nil or IP address, or reports that bytes are
  missing; a first byte other than 4 and 6 gives the nil address.\<close>

theorem inet_from_bytes_spec:
  "tfb_from_bytes (inet_read_bytes e slice_read_exact) b =
    (case b of
       [] \<Rightarrow> Inl UnexpectedEof
     | c # r \<Rightarrow>
         if c = 4 then
           (if length r < 6 then Inl UnexpectedEof
            else Inr (inet_from_ip_port e (take 4 r) (of_nat (nat_of_be (get_region 4 2 r)))))
         else if c = 6 then
           (if length r < 18 then Inl UnexpectedEof
            else Inr (inet_from_ip_port e (take 16 r) (of_nat (nat_of_be (get_region 16 2 r)))))
         else Inr inet_new)"
proof (cases b)
  case (Cons c r)
  have t: "get_region 4 2 (take 6 r) = get_region 4 2 r" "get_region 16 2 (take 18 r) = get_region 16 2 r"
    "get_region 0 4 (take 6 r) = take 4 r" "get_region 0 16 (take 18 r) = take 16 r"
    by (simp_all add: get_region_def drop_take min_def)
  show ?thesis
    using t by (simp add: Cons tfb_from_bytes_def inet_read_bytes_def slice_read_exact_def)
qed (simp add: tfb_from_bytes_def inet_read_bytes_def slice_read_exact_def)

section \<open>Scope\<close>

text \<open>
  The IPv4 scopes as a table of ranges, first match first: value, number of bits, scope.
\<close>

definition scope_table :: "(nat \<times> nat \<times> ip_scope) list" where
  "scope_table =
     [(0x00, 8, ScopeNone), (0xff, 8, ScopeNone), (0x0a, 8, Private), (0x7f, 8, Loopback),
      (0x191, 10, Private), (0xa9fe, 16, LinkLocal), (0xac1, 12, Private),
      (0xc0a8, 16, Private), (0xc00002, 24, Private), (0x6309, 15, Private), (0xc63364, 24, Private),
      (0xcb0071, 24, Private)]
     @ map (\<lambda>a. (a, 8, PseudoPrivate)) [0x06, 0x15, 0x16, 0x19, 0x1a, 0x1c, 0x1d, 0x1e, 0x33, 0x37, 0x38]
     @ [(0xe, 4, Multicast), (0xf, 4, Private)]"

fun scope_lookup :: "(nat \<times> nat \<times> ip_scope) list \<Rightarrow> nat \<Rightarrow> ip_scope" where
  "scope_lookup [] n = Global"
| "scope_lookup ((v, bits, s) # t) n = (if n div 2 ^ (32 - bits) = v then s else scope_lookup t n)"

text \<open>A mask test is a test on the high bits.\<close>

lemma mask_test:
  fixes ip :: u32
  assumes "k \<le> 32" and "w < 2 ^ (32 - k)"
  shows "ip AND NOT (mask k) = of_nat (w * 2 ^ k) \<longleftrightarrow> unat ip div 2 ^ k = w"
proof -
  have "ip AND NOT (mask k) = push_bit k (drop_bit k ip)"
    by (rule bit_word_eqI) (auto simp: bit_simps)
  moreover have "unat (push_bit k (drop_bit k ip)) = unat ip div 2 ^ k * 2 ^ k"
  proof -
    have "unat ip div 2 ^ k * 2 ^ k \<le> unat ip" by simp
    moreover have "unat ip < 2 ^ 32" using unat_u32 [of ip] by simp
    ultimately have "unat ip div 2 ^ k * 2 ^ k < 2 ^ 32" by (rule le_less_trans)
    then show ?thesis
      by (simp add: unsigned_push_bit_eq unat_drop_bit_eq) (simp add: drop_bit_eq_div push_bit_eq_mult take_bit_eq_mod)
  qed
  moreover have "unat (of_nat (w * 2 ^ k) :: u32) = w * 2 ^ k"
  proof -
    have "w * 2 ^ k < 2 ^ (32 - k) * 2 ^ k" using assms(2) by simp
    then have "w * 2 ^ k < 2 ^ 32" using assms(1) by (simp flip: power_add)
    then show ?thesis by (simp add: unat_of_nat del: of_nat_mult of_nat_power)
  qed
  ultimately show ?thesis by (metis mult_cancel2 power_not_zero zero_neq_numeral word_eq_iff_unsigned)
qed

lemma scope_lookup_map:
  "scope_lookup (map (\<lambda>a. (a, 8, s)) vs @ t) n = (if n div 2 ^ 24 \<in> set vs then s else scope_lookup t n)"
  by (induction vs) auto

lemma class_a_test: "(ucast (drop_bit 24 ip) :: u8) = c \<longleftrightarrow> unat ip div 2 ^ 24 = unat c" for ip :: u32
proof -
  have "unat ip div 2 ^ 24 < 256" using unat_u32 [of ip] by (simp add: less_mult_imp_div_less)
  then have "unat (ucast (drop_bit 24 ip) :: u8) = unat ip div 2 ^ 24"
    by (simp add: unsigned_ucast_eq unat_drop_bit_eq) (simp add: drop_bit_eq_div take_bit_eq_mod)
  then show ?thesis by (metis word_eq_iff_unsigned)
qed

lemma top_test: "drop_bit 28 ip = c \<longleftrightarrow> unat ip div 2 ^ 28 = unat c" for ip :: u32
  by (metis drop_bit_eq_div unat_drop_bit_eq word_eq_iff_unsigned)

lemma scope_v4_table: "scope_v4 ip = scope_lookup scope_table (unat ip)"
proof -
  let ?n = "unat ip" and ?A = "unat ip div 2 ^ 24"
  have masks: "(0xffc00000 :: u32) = NOT (mask 22)" "(0xffff0000 :: u32) = NOT (mask 16)" "(0xfff00000 :: u32) = NOT (mask 20)"
    "(0xffffff00 :: u32) = NOT (mask 8)" "(0xfffe0000 :: u32) = NOT (mask 17)"
    by (simp_all add: mask_eq_exp_minus_1)
  have v: "(0x64400000 :: u32) = of_nat (0x191 * 2 ^ 22)" "(0xa9fe0000 :: u32) = of_nat (0xa9fe * 2 ^ 16)"
    "(0xac100000 :: u32) = of_nat (0xac1 * 2 ^ 20)" "(0xc0a80000 :: u32) = of_nat (0xc0a8 * 2 ^ 16)"
    "(0xc0000200 :: u32) = of_nat (0xc00002 * 2 ^ 8)" "(0xc6120000 :: u32) = of_nat (0x6309 * 2 ^ 17)"
    "(0xc6336400 :: u32) = of_nat (0xc63364 * 2 ^ 8)" "(0xcb007100 :: u32) = of_nat (0xcb0071 * 2 ^ 8)"
    by simp_all
  have d: "?n div 2 ^ 24 = ?n div 2 ^ 22 div 4" "?n div 2 ^ 24 = ?n div 2 ^ 16 div 256" "?n div 2 ^ 24 = ?n div 2 ^ 20 div 16"
    "?n div 2 ^ 24 = ?n div 2 ^ 8 div 65536" "?n div 2 ^ 24 = ?n div 2 ^ 17 div 128" "?n div 2 ^ 28 = ?A div 16"
    by (simp_all flip: div_mult2_eq)
  have t: "ip AND 0xffc00000 = 0x64400000 \<longleftrightarrow> ?n div 2 ^ 22 = 0x191" "ip AND 0xffff0000 = 0xa9fe0000 \<longleftrightarrow> ?n div 2 ^ 16 = 0xa9fe"
    "ip AND 0xfff00000 = 0xac100000 \<longleftrightarrow> ?n div 2 ^ 20 = 0xac1" "ip AND 0xffff0000 = 0xc0a80000 \<longleftrightarrow> ?n div 2 ^ 16 = 0xc0a8"
    "ip AND 0xffffff00 = 0xc0000200 \<longleftrightarrow> ?n div 2 ^ 8 = 0xc00002" "ip AND 0xfffe0000 = 0xc6120000 \<longleftrightarrow> ?n div 2 ^ 17 = 0x6309"
    "ip AND 0xffffff00 = 0xc6336400 \<longleftrightarrow> ?n div 2 ^ 8 = 0xc63364" "ip AND 0xffffff00 = 0xcb007100 \<longleftrightarrow> ?n div 2 ^ 8 = 0xcb0071"
    unfolding masks v by (rule mask_test; simp)+
  define A p10 p16 q16 p12 p24 p15 q24 r24 where abbrev: "A = ?A" "p10 = (?n div 2 ^ 22 = 0x191)"
    "p16 = (?n div 2 ^ 16 = 0xa9fe)" "q16 = (?n div 2 ^ 16 = 0xc0a8)" "p12 = (?n div 2 ^ 20 = 0xac1)"
    "p24 = (?n div 2 ^ 8 = 0xc00002)" "p15 = (?n div 2 ^ 17 = 0x6309)"
    "q24 = (?n div 2 ^ 8 = 0xc63364)" "r24 = (?n div 2 ^ 8 = 0xcb0071)"
  have imp: "p10 \<Longrightarrow> A = 0x64" "p16 \<Longrightarrow> A = 0xa9" "q16 \<Longrightarrow> A = 0xc0" "p12 \<Longrightarrow> A = 0xac" "p24 \<Longrightarrow> A = 0xc0"
    "p15 \<Longrightarrow> A = 0xc6" "q24 \<Longrightarrow> A = 0xc6" "r24 \<Longrightarrow> A = 0xcb"
    unfolding abbrev by (simp add: d(1), simp add: d(2), simp add: d(2), simp add: d(3), simp add: d(4), simp add: d(5), simp add: d(4), simp add: d(4))
  have "scope_v4 ip = (if A = 0x00 \<or> A = 0xff then ScopeNone else if A = 0x0a then Private else if A = 0x7f then Loopback
      else if A = 0x64 then (if p10 then Private else Global) else if A = 0xa9 then (if p16 then LinkLocal else Global)
      else if A = 0xac then (if p12 then Private else Global) else if A = 0xc0 then (if q16 \<or> p24 then Private else Global)
      else if A = 0xc6 then (if p15 \<or> q24 then Private else Global) else if A = 0xcb then (if r24 then Private else Global)
      else if A \<in> {0x06, 0x15, 0x16, 0x19, 0x1a, 0x1c, 0x1d, 0x1e, 0x33, 0x37, 0x38} then PseudoPrivate
      else if A div 16 = 0xe then Multicast else if A div 16 = 0xf then Private else Global)"
    unfolding abbrev scope_v4_def Let_def t PSEUDO_PRIVATE_A_def list.set insert_iff empty_iff class_a_test top_test d(6)
    by simp
  also have "\<dots> = scope_lookup scope_table ?n"
  proof -
    have e: "32 - 8 = (24 :: nat)" "32 - 10 = (22 :: nat)" "32 - 16 = (16 :: nat)" "32 - 12 = (20 :: nat)"
      "32 - 24 = (8 :: nat)" "32 - 15 = (17 :: nat)" "32 - 4 = (28 :: nat)" by simp_all
    have lk: "scope_lookup scope_table ?n = (if A = 0x00 then ScopeNone else if A = 0xff then ScopeNone else if A = 0x0a then Private
      else if A = 0x7f then Loopback else if p10 then Private else if p16 then LinkLocal else if p12 then Private
      else if q16 then Private else if p24 then Private else if p15 then Private else if q24 then Private else if r24 then Private
      else if A \<in> {0x06, 0x15, 0x16, 0x19, 0x1a, 0x1c, 0x1d, 0x1e, 0x33, 0x37, 0x38} then PseudoPrivate
      else if A div 16 = 0xe then Multicast else if A div 16 = 0xf then Private else Global)"
      unfolding abbrev d(6) [symmetric]
      by (simp only: scope_table_def append.simps scope_lookup.simps scope_lookup_map list.set e)
    have np: "A \<noteq> 0x64 \<Longrightarrow> \<not> p10" "A \<noteq> 0xa9 \<Longrightarrow> \<not> p16" "A \<noteq> 0xc0 \<Longrightarrow> \<not> q16" "A \<noteq> 0xac \<Longrightarrow> \<not> p12"
      "A \<noteq> 0xc0 \<Longrightarrow> \<not> p24" "A \<noteq> 0xc6 \<Longrightarrow> \<not> p15" "A \<noteq> 0xc6 \<Longrightarrow> \<not> q24" "A \<noteq> 0xcb \<Longrightarrow> \<not> r24"
      using imp by blast+
    consider "A = 0x64" | "A = 0xa9" | "A = 0xc0" | "A = 0xac" | "A = 0xc6" | "A = 0xcb"
      | "A \<noteq> 0x64" "A \<noteq> 0xa9" "A \<noteq> 0xc0" "A \<noteq> 0xac" "A \<noteq> 0xc6" "A \<noteq> 0xcb" by blast
    then show ?thesis unfolding lk by cases (simp_all add: np)
  qed
  finally show ?thesis .
qed

text \<open>
  C17: \<open>scope\<close> of an IPv4 address is the table entry of its octets in network order on a big-endian
  host. On a little-endian host the field is used without \<open>from_be\<close>, and it is the entry of the
  octets in reverse: \<open>127.0.0.1\<close> is \<open>Global\<close>, \<open>1.2.3.10\<close> is \<open>Private\<close>.
\<close>

theorem inet_scope_v4:
  assumes "inet_inv a" and "inet_is_ipv4 e a"
  shows "inet_scope e a = Returns (scope_lookup scope_table
    (nat_of_be (case e of BE \<Rightarrow> inet_ip_bytes e a | LE \<Rightarrow> rev (inet_ip_bytes e a))))"
proof -
  have f: "sa_family e a = AF_INET" using assms(2) by (simp add: inet_is_ipv4_def)
  have ip: "inet_ip_bytes e a = get_region 4 4 a" using f by (simp add: inet_ip_bytes_def layout_defs)
  have "unat (get_s_addr e a) = of_ne_bytes e (get_region 4 4 a)"
    using of_ne_bytes_bound [of e "get_region 4 4 a"] assms(1)
    by (simp add: get_s_addr_def load32_def of_nat_inj32 layout_defs)
  also have "\<dots> = nat_of_be (case e of BE \<Rightarrow> get_region 4 4 a | LE \<Rightarrow> rev (get_region 4 4 a))"
    by (cases e) (simp_all add: of_ne_bytes_def nat_of_be_def)
  finally show ?thesis using f unfolding ip by (simp add: inet_scope_def scope_v4_table)
qed

theorem inet_scope_v4_witness:
  "inet_scope BE (inet_ipv4_loopback BE 0) = Returns Loopback \<and> inet_scope LE (inet_ipv4_loopback LE 0) = Returns Global"
proof -
  have "inet_inv (inet_ipv4_loopback e 0)" "inet_ip_bytes e (inet_ipv4_loopback e 0) = [127, 0, 0, 1]"
    "inet_is_ipv4 e (inet_ipv4_loopback e 0)" for e
    using view_fields [OF from_ip_port_view(2), of "[127, 0, 0, 1]" e 0]
    by (simp_all add: ipv4_loopback_eq from_ip_port_view inet_is_ipv4_def)
  then show ?thesis
    using inet_scope_v4 [of "inet_ipv4_loopback BE 0" BE] inet_scope_v4 [of "inet_ipv4_loopback LE 0" LE]
    by (simp add: nat_of_be_Cons scope_table_def)
qed

text \<open>The loops over zero bytes end at the last byte exactly if all before it are zero.\<close>

lemma skip_zeros_spec:
  "length ip = 16 \<Longrightarrow> k \<le> 15 \<Longrightarrow>
   \<exists>j. skip_zeros ip k = Returns j \<and> j \<le> 15 \<and> (j = 15 \<longleftrightarrow> list_all (\<lambda>x. x = 0) (drop k (take 15 ip)))"
proof (induction ip k rule: skip_zeros.induct)
  case (1 ip k)
  show ?case
  proof (cases "ip ! k = 0 \<and> k < 15")
    case True
    then have "drop k (take 15 ip) = 0 # drop (Suc k) (take 15 ip)"
      using "1.prems"(1) Cons_nth_drop_Suc [of k "take 15 ip"] by simp
    moreover obtain j where "skip_zeros ip (k + 1) = Returns j" "j \<le> 15"
      "j = 15 \<longleftrightarrow> list_all (\<lambda>x. x = 0) (drop (k + 1) (take 15 ip))"
      using "1.IH" [of "ip ! k"] "1.prems" True by auto
    ultimately show ?thesis using True "1.prems" by (simp add: skip_zeros.simps [of ip k])
  next
    case False
    have "k = 15 \<longleftrightarrow> list_all (\<lambda>x. x = 0) (drop k (take 15 ip))"
    proof (cases "k = 15")
      case k: False
      then have "drop k (take 15 ip) = ip ! k # drop (Suc k) (take 15 ip)"
        using "1.prems" Cons_nth_drop_Suc [of k "take 15 ip"] by simp
      then show ?thesis using False k "1.prems" by simp
    qed simp
    then show ?thesis using False "1.prems" by (auto simp: skip_zeros.simps [of ip k])
  qed
qed

text \<open>
  \<open>scope\<close> of an IPv6 address always returns: multicast \<open>ff00::/8\<close>, link-local \<open>fe80::/10\<close>
  (an address in it that is zero but for the last bit counts as loopback), private \<open>fc00::/7\<close>,
  the loopback and the unspecified address, and global for everything else.
\<close>

definition scope_v6_ref :: "u8 list \<Rightarrow> ip_scope" where
  "scope_v6_ref ip =
     (if ip ! 0 = 0xff then Multicast
      else if ip ! 0 = 0xfe \<and> ip ! 1 AND 0xc0 = 0x80
      then (if drop 2 ip = replicate 13 0 @ [1] then Loopback else LinkLocal)
      else if ip ! 0 = 0xfc \<or> ip ! 0 = 0xfd then Private
      else if ip = replicate 15 0 @ [1] then Loopback
      else if ip = replicate 16 0 then ScopeNone
      else Global)"

lemma zeros_then_last:
  fixes ip :: "u8 list"
  assumes "length ip = 16" and "k \<le> 15"
  shows "list_all (\<lambda>x. x = 0) (drop k (take 15 ip)) \<and> ip ! 15 = c \<longleftrightarrow> drop k ip = replicate (15 - k) 0 @ [c]"
proof -
  have "ip = take 15 ip @ [ip ! 15]" using assms(1) take_Suc_conv_app_nth [of 15 ip] by simp
  moreover have "drop k (take 15 ip @ [ip ! 15]) = drop k (take 15 ip) @ [ip ! 15]" using assms by simp
  ultimately have d: "drop k ip = drop k (take 15 ip) @ [ip ! 15]" by simp
  have "list_all (\<lambda>x. x = 0) xs \<longleftrightarrow> xs = replicate (length xs) 0" for xs :: "u8 list"
    by (induction xs) auto
  from this [of "drop k (take 15 ip)"] show ?thesis unfolding d using assms by simp
qed

lemma fc_test: "x AND 0xf0 = 0xf0 \<and> x AND 0xfe = 0xfc \<longleftrightarrow> x = 0xfc \<or> x = 0xfd" for x :: u8
proof -
  have "list_all (\<lambda>n. let x = of_nat n :: u8 in x AND 0xf0 = 0xf0 \<and> x AND 0xfe = 0xfc \<longleftrightarrow> x = 0xfc \<or> x = 0xfd) [0..<256]"
    by code_simp
  moreover have "unat x \<in> set [0..<256]" by simp
  ultimately have "let y = of_nat (unat x) :: u8 in y AND 0xf0 = 0xf0 \<and> y AND 0xfe = 0xfc \<longleftrightarrow> y = 0xfc \<or> y = 0xfd"
    unfolding list_all_iff by (rule bspec)
  then show ?thesis by (simp add: Let_def)
qed

lemma scope_v6_spec:
  assumes "length ip = 16"
  shows "scope_v6 ip = Returns (scope_v6_ref ip)"
proof -
  obtain j where j: "skip_zeros ip 0 = Returns j" "j = 15 \<longleftrightarrow> list_all (\<lambda>x. x = 0) (drop 0 (take 15 ip))"
    using skip_zeros_spec [OF assms, of 0] by auto
  obtain k where k: "skip_zeros ip 2 = Returns k" "k = 15 \<longleftrightarrow> list_all (\<lambda>x. x = 0) (drop 2 (take 15 ip))"
    using skip_zeros_spec [OF assms, of 2] by auto
  have last: "(k = 15 \<and> ip ! 15 = c) \<longleftrightarrow> drop 2 ip = replicate 13 0 @ [c]"
    "(j = 15 \<and> ip ! 15 = c) \<longleftrightarrow> ip = replicate 15 0 @ [c]" for c
    using zeros_then_last [OF assms, of 2 c] zeros_then_last [OF assms, of 0 c] j(2) k(2) by simp_all
  have zero: "replicate 15 0 @ [0] = (replicate 16 0 :: u8 list)" by (simp add: numeral_eq_Suc)
  have idx: "index ip 0 = Returns (ip ! 0)" "index ip 1 = Returns (ip ! 1)" "index ip 15 = Returns (ip ! 15)"
    using assms by simp_all
  have "scope_v6 ip = Returns
     (if ip ! 0 AND 0xf0 = 0xf0 \<and> ip ! 0 = 0xff then Multicast
      else if ip ! 0 AND 0xf0 = 0xf0 \<and> ip ! 0 = 0xfe \<and> ip ! 1 AND 0xc0 = 0x80
      then (if k = 15 \<and> ip ! 15 = 1 then Loopback else LinkLocal)
      else if ip ! 0 AND 0xf0 = 0xf0 \<and> ip ! 0 AND 0xfe = 0xfc then Private
      else if j = 15 \<and> ip ! 15 = 1 then Loopback
      else if j = 15 \<and> ip ! 15 = 0 then ScopeNone
      else Global)"
    unfolding scope_v6_def idx j(1) k(1) obind.simps by simp
  also have "\<dots> = Returns (scope_v6_ref ip)"
    unfolding scope_v6_ref_def last zero fc_test by auto
  finally show ?thesis .
qed

text \<open>
  C32: \<open>scope\<close> of an IPv6 address returns, on every host, multicast for \<open>ff00::/8\<close>, link-local for
  \<open>fe80::/10\<close> (where an address that is zero but for a last bit counts as loopback), private for
  \<open>fc00::/7\<close>, loopback for \<open>::1\<close>, none for \<open>::\<close>, and global for everything else.
\<close>

theorem inet_scope_v6:
  assumes "inet_inv a" and "inet_is_ipv6 e a"
  shows "inet_scope e a = Returns (scope_v6_ref (inet_ip_bytes e a))"
proof -
  have f: "sa_family e a = AF_INET6" using assms(2) by (simp add: inet_is_ipv6_def)
  have "length (sin6_addr a) = 16" using assms(1) by (simp add: sin6_addr_def inet_inv_def layout_defs)
  then show ?thesis using f by (simp add: inet_scope_def inet_ip_bytes_def scope_v6_spec)
qed

theorem inet_scope_v6_witness:
  "inet_scope LE (inet_ipv6_loopback LE 0) = Returns Loopback \<and> inet_scope BE (inet_ipv6_any BE) = Returns ScopeNone"
proof -
  have v: "inet_view LE (inet_ipv6_loopback LE 0) = Endpoint AF_INET6 (replicate 15 0 @ [1]) 0"
    "inet_view BE (inet_ipv6_any BE) = Endpoint AF_INET6 (replicate 16 0) 0"
    by (simp_all add: ipv6_loopback_eq ipv6_any_eq from_ip_port_view)
  then have "inet_is_ipv6 LE (inet_ipv6_loopback LE 0)" "inet_is_ipv6 BE (inet_ipv6_any BE)"
    by (simp_all add: inet_is_ipv6_def view_fields)
  moreover have "inet_inv (inet_ipv6_loopback LE 0)" "inet_inv (inet_ipv6_any BE)"
    by (simp_all add: ipv6_loopback_eq ipv6_any_eq from_ip_port_view)
  moreover have "scope_v6_ref (replicate 15 0 @ [1]) = Loopback" "scope_v6_ref (replicate 16 0) = ScopeNone"
    by (code_simp, code_simp)
  ultimately show ?thesis
    using inet_scope_v6 [of "inet_ipv6_loopback LE 0" LE] inet_scope_v6 [of "inet_ipv6_any BE" BE] view_fields(2) [OF v(1)] view_fields(2) [OF v(2)]
    by simp
qed

end
