(* ===== verification/Ip_Text.thy ===== *)
theory Ip_Text
  imports Std_Text Sockaddr
begin

text \<open>
  The text form of IP addresses in the standard library, \<open>Display\<close> and \<open>FromStr\<close> of \<open>std::net\<close>,
  which \<open>InetAddress\<close> prints and parses with; octets and groups of an address are numbers here.
  The result is that parsing a printed address gives it back, for both versions.
\<close>

section \<open>Printing\<close>

definition ipv4_display :: "u8 list \<Rightarrow> u8 list" where
  "ipv4_display ip =
     (case map (\<lambda>b. show_radix 10 (unat b)) ip of
        [] \<Rightarrow> []
      | s # ss \<Rightarrow> s @ concat (map (\<lambda>s. 46 # s) ss))"

fun segments :: "u8 list \<Rightarrow> nat list" where
  "segments (a # b # r) = (unat a * 256 + unat b) # segments r"
| "segments _ = []"

definition octets :: "nat list \<Rightarrow> u8 list" where
  "octets gs = concat (map (\<lambda>g. [of_nat (g div 256), of_nat (g mod 256)]) gs)"

text \<open>The search for the longest run of zero groups, the first one of several.\<close>

fun span_loop :: "nat \<Rightarrow> nat \<times> nat \<Rightarrow> nat \<times> nat \<Rightarrow> nat list \<Rightarrow> nat \<times> nat" where
  "span_loop i current longest [] = longest"
| "span_loop i (cs, cl) (ls, ll) (g # gs) =
     (if g = 0
      then let cs = (if cl = 0 then i else cs); cl = cl + 1;
               longest = (if cl > ll then (cs, cl) else (ls, ll))
           in span_loop (i + 1) (cs, cl) longest gs
      else span_loop (i + 1) (0, 0) (ls, ll) gs)"

fun fmt_subslice :: "nat list \<Rightarrow> u8 list" where
  "fmt_subslice [] = []"
| "fmt_subslice (g # gs) = show_radix 16 g @ concat (map (\<lambda>g. 58 # show_radix 16 g) gs)"

definition ipv6_display :: "u8 list \<Rightarrow> u8 list" where
  "ipv6_display ip =
     (let gs = segments ip in
      if take 6 gs = [0, 0, 0, 0, 0, 0xffff]
      then [58, 58, 102, 102, 102, 102, 58] @ ipv4_display (drop 12 ip)
      else let (start, len) = span_loop 0 (0, 0) (0, 0) gs in
           if len > 1
           then fmt_subslice (take start gs) @ [58, 58] @ fmt_subslice (drop (start + len) gs)
           else fmt_subslice gs)"

section \<open>Parsing\<close>

text \<open>A parser returns \<open>None\<close> and leaves the input alone, or a value and the rest of the input.\<close>

definition read_given_char :: "u8 \<Rightarrow> u8 list \<Rightarrow> u8 list option" where
  "read_given_char c s = (case s of [] \<Rightarrow> None | x # r \<Rightarrow> if x = c then Some r else None)"

definition read_separator :: "u8 \<Rightarrow> nat \<Rightarrow> (u8 list \<Rightarrow> ('a \<times> u8 list) option) \<Rightarrow> u8 list \<Rightarrow> ('a \<times> u8 list) option" where
  "read_separator sep i inner s =
     (if i > 0 then Option.bind (read_given_char sep s) inner else inner s)"

fun number_loop :: "nat \<Rightarrow> nat \<Rightarrow> nat \<Rightarrow> nat \<Rightarrow> u8 list \<Rightarrow> (nat \<times> nat \<times> u8 list) option" where
  "number_loop radix max_digits result count [] = Some (result, count, [])"
| "number_loop radix max_digits result count (c # cs) =
     (case to_digit radix c of
        None \<Rightarrow> Some (result, count, c # cs)
      | Some d \<Rightarrow>
          if count + 1 > max_digits then None
          else number_loop radix max_digits (result * radix + d) (count + 1) cs)"

text \<open>\<open>bound\<close> is one more than the largest value of the integer type.\<close>

definition read_number :: "nat \<Rightarrow> nat \<Rightarrow> bool \<Rightarrow> nat \<Rightarrow> u8 list \<Rightarrow> (nat \<times> u8 list) option" where
  "read_number radix max_digits allow_zero_prefix bound s =
     (let has_leading_zero = (s \<noteq> [] \<and> hd s = 48) in
      case number_loop radix max_digits 0 0 s of
        None \<Rightarrow> None
      | Some (result, count, r) \<Rightarrow>
          if count = 0 then None
          else if \<not> allow_zero_prefix \<and> has_leading_zero \<and> count > 1 then None
          else if result < bound then Some (result, r) else None)"

fun ipv4_loop :: "nat \<Rightarrow> nat \<Rightarrow> u8 list \<Rightarrow> (nat list \<times> u8 list) option" where
  "ipv4_loop 0 i s = Some ([], s)"
| "ipv4_loop (Suc n) i s =
     (case read_separator 46 i (read_number 10 3 False 256) s of
        None \<Rightarrow> None
      | Some (x, r) \<Rightarrow> map_option (\<lambda>(xs, t). (x # xs, t)) (ipv4_loop n (i + 1) r))"

definition read_ipv4_addr :: "u8 list \<Rightarrow> (nat list \<times> u8 list) option" where
  "read_ipv4_addr s = ipv4_loop 4 0 s"

text \<open>The groups read, whether the last two are an IPv4 address, and the rest of the input.\<close>

function read_groups :: "nat \<Rightarrow> nat \<Rightarrow> u8 list \<Rightarrow> nat list \<times> bool \<times> u8 list" where
  "read_groups limit i s =
     (if i \<ge> limit then ([], False, s)
      else
        case (if i < limit - 1 then read_separator 58 i read_ipv4_addr s else None) of
          Some (v4, r) \<Rightarrow> ([v4 ! 0 * 256 + v4 ! 1, v4 ! 2 * 256 + v4 ! 3], True, r)
        | None \<Rightarrow>
            case read_separator 58 i (read_number 16 4 True 65536) s of
              Some (g, r) \<Rightarrow> (case read_groups limit (i + 1) r of (gs, v4, t) \<Rightarrow> (g # gs, v4, t))
            | None \<Rightarrow> ([], False, s))"
  by pat_completeness auto
termination
  by (relation "measure (\<lambda>(limit, i, s). limit - i)") auto

declare read_groups.simps [simp del]

definition read_ipv6_addr :: "u8 list \<Rightarrow> (nat list \<times> u8 list) option" where
  "read_ipv6_addr s =
     (case read_groups 8 0 s of (head, head_ipv4, s1) \<Rightarrow>
      if length head = 8 then Some (head, s1)
      else if head_ipv4 then None
      else Option.bind (read_given_char 58 s1) (\<lambda>s2. Option.bind (read_given_char 58 s2) (\<lambda>s3.
        let limit = 8 - (length head + 1) in
        case read_groups limit 0 s3 of (tail, _, s4) \<Rightarrow>
          Some (head @ replicate (8 - length head - length tail) 0 @ tail, s4))))"

definition ip_from_str :: "u8 list \<Rightarrow> ip_addr option" where
  "ip_from_str s =
     (case read_ipv4_addr s of
        Some (ip, r) \<Rightarrow> if r = [] then Some (Ipv4Addr (map of_nat ip)) else None
      | None \<Rightarrow>
          (case read_ipv6_addr s of
             Some (gs, r) \<Rightarrow> if r = [] then Some (Ipv6Addr (octets gs)) else None
           | None \<Rightarrow> None))"

section \<open>Numbers\<close>

definition no_digit :: "nat \<Rightarrow> u8 list \<Rightarrow> bool" where
  "no_digit radix s \<longleftrightarrow> s = [] \<or> to_digit radix (hd s) = None"

lemma number_loop_digits:
  "all_digits radix ds \<Longrightarrow> no_digit radix rest \<Longrightarrow> n + length ds \<le> m \<Longrightarrow>
   number_loop radix m acc n (ds @ rest) = Some (digits_val radix acc ds, n + length ds, rest)"
proof (induction ds arbitrary: acc n)
  case Nil
  then show ?case by (cases rest) (simp_all add: no_digit_def)
next
  case (Cons c ds)
  then show ?case by (auto simp: all_digits_def)
qed

lemma read_number_show:
  assumes "2 \<le> radix" and "radix \<le> 36" and "v < bound" and "bound \<le> radix ^ m" and "0 < m" and "no_digit radix rest"
  shows "read_number radix m allow bound (show_radix radix v @ rest) = Some (v, rest)"
proof -
  let ?s = "show_radix radix v"
  note d = show_radix_digits [OF assms(1,2), of v]
  have len: "length ?s \<le> m" using length_show_radix [of radix v m] assms by simp
  have "length ?s = 1" if "hd (?s @ rest) = 48"
    using that d show_radix_leading_zero [OF assms(1,2), of v] show_radix_0 [OF assms(1)] by auto
  moreover have "number_loop radix m 0 0 (?s @ rest) = Some (v, length ?s, rest)"
    using number_loop_digits [of radix ?s rest 0 m 0] d assms(6) len by simp
  ultimately show ?thesis using d assms(3) by (simp add: read_number_def)
qed

lemma number_loop_prefix:
  "number_loop radix m acc n s = Some (v, k, r) \<Longrightarrow> \<exists>p. s = p @ r \<and> all_digits radix p"
proof (induction s arbitrary: acc n)
  case (Cons c cs)
  show ?case
  proof (cases "to_digit radix c")
    case None
    then show ?thesis using Cons.prems by (intro exI [of _ "[]"]) (simp add: all_digits_def)
  next
    case (Some d)
    then obtain p where "cs = p @ r" "all_digits radix p" using Cons by (auto split: if_splits)
    then show ?thesis using Some by (intro exI [of _ "c # p"]) (simp add: all_digits_def)
  qed
qed (simp add: all_digits_def)

lemma digit_not_colon: "to_digit radix 58 = None" "to_digit radix 46 = None" "to_digit radix 47 = None" if "radix \<le> 36"
  using that by (simp_all add: to_digit_def)

text \<open>Where no dot comes before the first colon there is no IPv4 address.\<close>

lemma no_ipv4:
  assumes "46 \<notin> set (takeWhile (\<lambda>c. c \<noteq> 58) s)"
  shows "read_ipv4_addr s = None"
proof (rule ccontr)
  assume "read_ipv4_addr s \<noteq> None"
  then obtain x r where r: "read_number 10 3 False 256 s = Some (x, r)"
    and sep: "read_separator 46 1 (read_number 10 3 False 256) r \<noteq> None"
    by (auto simp: read_ipv4_addr_def eval_nat_numeral read_separator_def split: option.splits)
  obtain k where "number_loop 10 3 0 0 s = Some (x, k, r)"
    using r by (auto simp: read_number_def Let_def split: option.splits if_splits)
  then obtain p where p: "s = p @ r" "all_digits 10 p" using number_loop_prefix by blast
  obtain r' where "r = 46 # r'" using sep
    by (cases r) (auto simp: read_separator_def read_given_char_def split: if_splits)
  moreover have "\<forall>c \<in> set p. c \<noteq> 58" using p(2) digit_not_colon(1) [of 10] by (auto simp: all_digits_def list_all_iff)
  ultimately have "46 \<in> set (takeWhile (\<lambda>c. c \<noteq> 58) s)" using p(1) by (simp add: takeWhile_append2)
  then show False using assms by simp
qed

section \<open>Round trip of IPv4\<close>

lemma ipv4_loop_display:
  "list_all (\<lambda>n. n < 256) ns \<Longrightarrow> no_digit 10 rest \<Longrightarrow> 0 < i \<Longrightarrow>
   ipv4_loop (length ns) i (concat (map (\<lambda>n. 46 # show_radix 10 n) ns) @ rest) = Some (ns, rest)"
proof (induction ns arbitrary: i)
  case (Cons n ns)
  have "no_digit 10 (concat (map (\<lambda>n. 46 # show_radix 10 n) ns) @ rest)"
    using Cons.prems(2) digit_not_colon(2) [of 10] by (cases ns) (simp_all add: no_digit_def)
  then have "read_number 10 3 False 256 (show_radix 10 n @ concat (map (\<lambda>n. 46 # show_radix 10 n) ns) @ rest)
    = Some (n, concat (map (\<lambda>n. 46 # show_radix 10 n) ns) @ rest)"
    using Cons.prems(1) by (intro read_number_show) simp_all
  then show ?case
    using Cons by (simp add: read_separator_def read_given_char_def)
qed simp

lemma read_ipv4_display:
  assumes "length ip = 4" and "no_digit 10 rest"
  shows "read_ipv4_addr (ipv4_display ip @ rest) = Some (map unat ip, rest)"
proof -
  obtain b bs where ip: "ip = b # bs" using assms(1) by (cases ip) auto
  let ?ns = "map unat bs"
  let ?t = "concat (map (\<lambda>n. 46 # show_radix 10 n) ?ns) @ rest"
  have "no_digit 10 ?t"
    using assms(2) digit_not_colon(2) [of 10] by (cases bs) (simp_all add: no_digit_def)
  then have num: "read_number 10 3 False 256 (show_radix 10 (unat b) @ ?t) = Some (unat b, ?t)"
    by (intro read_number_show) simp_all
  have tail: "ipv4_loop (length ?ns) 1 ?t = Some (?ns, rest)"
    using assms(2) by (intro ipv4_loop_display) (simp_all add: list_all_iff)
  have "read_ipv4_addr (ipv4_display ip @ rest) = ipv4_loop (Suc (length ?ns)) 0 (show_radix 10 (unat b) @ ?t)"
    using assms(1) by (simp add: read_ipv4_addr_def ipv4_display_def ip comp_def del: ipv4_loop.simps)
  then show ?thesis using num tail by (simp add: read_separator_def ip)
qed

section \<open>Round trip of IPv6\<close>

text \<open>What may follow a list of groups: nothing, or the two colons.\<close>

definition group_end :: "u8 list \<Rightarrow> bool" where
  "group_end rest \<longleftrightarrow> rest = [] \<or> (\<exists>r. rest = 58 # 58 # r)"

lemma show16_plain: "58 \<notin> set (show_radix 16 n) \<and> 46 \<notin> set (show_radix 16 n)"
  using show_radix_digits [of 16 n] digit_not_colon [of 16] by (auto simp: all_digits_def list_all_iff)

lemma no_ipv4_group:
  assumes "rest = [] \<or> hd rest = 58"
  shows "read_ipv4_addr (show_radix 16 g @ rest) = None"
proof -
  have "takeWhile (\<lambda>c. c \<noteq> 58) (show_radix 16 g @ rest) = show_radix 16 g"
    using assms show16_plain [of g] by (subst takeWhile_append2) (auto, cases rest, auto)
  then show ?thesis using show16_plain [of g] by (intro no_ipv4) simp
qed

lemma read_number_colon [simp]: "read_number 16 4 True 65536 (58 # r) = None"
  using digit_not_colon(1) [of 16] by (simp add: read_number_def)

lemma read_number_Nil [simp]: "read_number 16 4 True 65536 [] = None"
  by (simp add: read_number_def)

lemma no_ipv4_simps [simp]: "read_ipv4_addr [] = None" "read_ipv4_addr (58 # r) = None"
  by (simp_all add: no_ipv4)

lemma read_groups_end: "group_end rest \<Longrightarrow> 0 < i \<Longrightarrow> read_groups limit i rest = ([], False, rest)"
  by (auto simp: read_groups.simps [of limit i] group_end_def read_separator_def read_given_char_def)

lemma read_groups_none: "s = [] \<or> hd s = 58 \<Longrightarrow> read_groups limit 0 s = ([], False, s)"
  by (cases s) (auto simp: read_groups.simps [of limit 0] read_separator_def)

definition groups_ok :: "nat list \<Rightarrow> bool" where
  "groups_ok gs \<longleftrightarrow> list_all (\<lambda>g. g < 65536) gs"

lemma read_groups_tail:
  "groups_ok gs \<Longrightarrow> group_end rest \<Longrightarrow> 0 < i \<Longrightarrow> i + length gs \<le> limit \<Longrightarrow>
   read_groups limit i (concat (map (\<lambda>g. 58 # show_radix 16 g) gs) @ rest) = (gs, False, rest)"
proof (induction gs arbitrary: i)
  case Nil
  then show ?case by (simp add: read_groups_end)
next
  case (Cons g gs)
  let ?t = "concat (map (\<lambda>g. 58 # show_radix 16 g) gs) @ rest"
  have t: "?t = [] \<or> hd ?t = 58" using Cons.prems(2) by (cases gs) (auto simp: group_end_def)
  then have "no_digit 16 ?t" using digit_not_colon(1) [of 16] by (auto simp: no_digit_def)
  then have num: "read_number 16 4 True 65536 (show_radix 16 g @ ?t) = Some (g, ?t)"
    using Cons.prems(1) by (intro read_number_show) (simp_all add: groups_ok_def)
  have IH: "read_groups limit (i + 1) ?t = (gs, False, rest)"
    using Cons by (intro Cons.IH) (simp_all add: groups_ok_def)
  show ?case
    using num IH no_ipv4_group [OF t, of g] Cons.prems
    by (simp add: read_groups.simps [of limit i] read_separator_def read_given_char_def)
qed

lemma read_groups_fmt:
  assumes "groups_ok gs" and "group_end rest" and "length gs \<le> limit"
  shows "read_groups limit 0 (fmt_subslice gs @ rest) = (gs, False, rest)"
proof (cases gs)
  case Nil
  then show ?thesis using assms(2) by (auto simp: read_groups_none group_end_def)
next
  case (Cons g gs')
  let ?t = "concat (map (\<lambda>g. 58 # show_radix 16 g) gs') @ rest"
  have t: "?t = [] \<or> hd ?t = 58" using assms(2) by (cases gs') (auto simp: group_end_def)
  then have "no_digit 16 ?t" using digit_not_colon(1) [of 16] by (auto simp: no_digit_def)
  then have num: "read_number 16 4 True 65536 (show_radix 16 g @ ?t) = Some (g, ?t)"
    using assms(1) by (intro read_number_show) (simp_all add: groups_ok_def Cons)
  have "read_groups limit 1 ?t = (gs', False, rest)"
    using assms read_groups_tail [of gs' rest 1 limit] by (simp add: groups_ok_def Cons)
  then show ?thesis
    using num no_ipv4_group [OF t, of g] assms(3)
    by (simp add: read_groups.simps [of limit 0] read_separator_def Cons)
qed

text \<open>The run of zeros that is found lies inside the groups.\<close>

definition zero_run :: "nat list \<Rightarrow> nat \<times> nat \<Rightarrow> bool" where
  "zero_run gs r \<longleftrightarrow> (case r of (s, l) \<Rightarrow> l = 0 \<or> s + l \<le> length gs \<and> take l (drop s gs) = replicate l 0)"

lemma span_loop_run:
  "zero_run (pre @ gs) longest \<Longrightarrow> (cl = 0 \<or> cs + cl = length pre \<and> drop cs pre = replicate cl 0) \<Longrightarrow>
   zero_run (pre @ gs) (span_loop (length pre) (cs, cl) longest gs)"
proof (induction gs arbitrary: pre cs cl longest)
  case (Cons g gs)
  obtain ls ll where l: "longest = (ls, ll)" by (cases longest)
  show ?case
  proof (cases "g = 0")
    case False
    then show ?thesis using Cons.IH [of "pre @ [g]" longest 0 0] Cons.prems(1) by (simp add: l)
  next
    case True
    define k where "k = (if cl = 0 then length pre else cs)"
    define q where "q = pre @ [g]"
    have run: "k + (cl + 1) = length q" "drop k q = replicate (cl + 1) 0"
      using Cons.prems(2) True by (auto simp: k_def q_def replicate_append_same)
    have "drop k (q @ gs) = drop k q @ gs" using run(1) by simp
    then have new: "zero_run (q @ gs) (k, cl + 1)" using run by (simp add: zero_run_def)
    have "zero_run (q @ gs) (if cl + 1 > ll then (k, cl + 1) else (ls, ll))"
      using new Cons.prems(1) by (simp add: l q_def)
    from Cons.IH [of q, OF this, of "cl + 1" k] run show ?thesis
      using True by (cases "cl = 0"; cases "ll < Suc cl") (simp_all add: l Let_def k_def q_def)
  qed
qed simp

lemma read_ipv6_fmt:
  assumes "length gs = 8" and "groups_ok gs"
  shows "read_ipv6_addr (fmt_subslice gs) = Some (gs, [])"
  using read_groups_fmt [OF assms(2), of "[]" 8] assms(1)
  by (simp add: read_ipv6_addr_def group_end_def)

lemma groups_ok_sub: "groups_ok gs \<Longrightarrow> groups_ok (take k gs) \<and> groups_ok (drop k gs)"
  by (auto simp: groups_ok_def list_all_iff dest: in_set_takeD in_set_dropD)

lemma read_ipv6_run:
  assumes "length gs = 8" and "groups_ok gs" and "zero_run gs (st, l)" and "1 < l"
  shows "read_ipv6_addr (fmt_subslice (take st gs) @ [58, 58] @ fmt_subslice (drop (st + l) gs)) = Some (gs, [])"
proof -
  let ?h = "take st gs" and ?t = "drop (st + l) gs"
  have run: "st + l \<le> 8" "take l (drop st gs) = replicate l 0" using assms by (simp_all add: zero_run_def)
  have len: "length ?h = st" "length ?t = 8 - st - l" using run(1) assms(1) by simp_all
  have head: "read_groups 8 0 (fmt_subslice ?h @ 58 # 58 # fmt_subslice ?t) = (?h, False, 58 # 58 # fmt_subslice ?t)"
    using groups_ok_sub [OF assms(2)] run(1) len(1) by (intro read_groups_fmt) (auto simp: group_end_def)
  have tail: "read_groups (8 - (st + 1)) 0 (fmt_subslice ?t) = (?t, False, [])"
    using read_groups_fmt [of ?t "[]" "8 - (st + 1)"] groups_ok_sub [OF assms(2)] run(1) len(2) assms(4)
    by (simp add: group_end_def)
  have "gs = ?h @ take l (drop st gs) @ ?t" by (metis append_take_drop_id add.commute drop_drop)
  then have "?h @ replicate l 0 @ ?t = gs" using run(2) by simp
  moreover have "8 - st - (8 - st - l) = l" using run(1) by simp
  ultimately show ?thesis
    using head tail len run(1) assms(4) by (simp add: read_ipv6_addr_def read_given_char_def Let_def)
qed

lemma segment_bytes: "of_nat ((unat a * 256 + unat b) div 256) = (a :: u8)" "of_nat ((unat a * 256 + unat b) mod 256) = (b :: u8)"
  by simp_all

lemma segment_bound: "unat (a :: u8) * 256 + unat (b :: u8) < 65536"
proof -
  have "unat a < 256" "unat b < 256" by simp_all
  then show ?thesis by linarith
qed

lemma octets_segments_even:
  "even (length ip) \<Longrightarrow> length (segments ip) = length ip div 2 \<and> groups_ok (segments ip) \<and> octets (segments ip) = ip"
proof (induction ip rule: segments.induct)
  case (1 a b r)
  then show ?case
    using segment_bound [of a b] segment_bytes [of a b] by (simp add: groups_ok_def octets_def del: of_nat_add of_nat_mult)
qed (simp_all add: groups_ok_def octets_def)

lemma octets_segments:
  assumes "length ip = 16"
  shows "length (segments ip) = 8" and "groups_ok (segments ip)" and "octets (segments ip) = ip"
  using octets_segments_even [of ip] assms by simp_all

text \<open>The form \<open>::ffff:a.b.c.d\<close> of an address that maps an IPv4 one.\<close>

lemma segments_drop: "segments (drop (2 * k) ip) = drop k (segments ip)"
proof (induction k arbitrary: ip)
  case (Suc k)
  show ?case
  proof (cases ip rule: segments.cases)
    case (1 a b r)
    then show ?thesis using Suc [of r] by simp
  qed (simp_all add: Suc)
qed simp

lemma read_ipv6_mapped:
  assumes "length v4 = 4"
  shows "read_ipv6_addr ([58, 58, 102, 102, 102, 102, 58] @ ipv4_display v4)
    = Some ([0, 0, 0, 0, 0, 0xffff] @ segments v4, [])"
proof -
  obtain a b c d where v4: "v4 = [a, b, c, d]" using assms by (auto simp: length_Suc_conv numeral_eq_Suc)
  let ?s = "ipv4_display v4"
  have ffff: "show_radix 16 0xffff = [102, 102, 102, 102]" by (simp add: show_radix.simps digit_char_def)
  have "read_number 16 4 True 65536 (show_radix 16 0xffff @ 58 # ?s) = Some (0xffff, 58 # ?s)"
    using digit_not_colon(1) [of 16] by (intro read_number_show) (simp_all add: no_digit_def)
  moreover have "read_ipv4_addr (show_radix 16 0xffff @ 58 # ?s) = None" by (rule no_ipv4_group) simp
  moreover have "read_groups 7 (Suc 0) (58 # ?s) = (segments v4, True, [])"
    using read_ipv4_display [of v4 "[]"] assms
    by (simp add: read_groups.simps [of 7 "Suc 0"] read_separator_def read_given_char_def no_digit_def v4)
  ultimately have "read_groups 7 0 (102 # 102 # 102 # 102 # 58 # ?s) = (0xffff # segments v4, True, [])"
    unfolding ffff by (simp add: read_groups.simps [of 7 0] read_separator_def)
  moreover have "length (segments v4) = 2" by (simp add: v4)
  moreover have "replicate 5 (0 :: nat) = [0, 0, 0, 0, 0]" by (simp add: numeral_eq_Suc)
  ultimately show ?thesis
    by (simp add: read_ipv6_addr_def read_groups_none read_given_char_def)
qed

lemma ipv6_display_no_ipv4: "read_ipv4_addr (ipv6_display ip) = None"
proof -
  have fmt: "read_ipv4_addr (fmt_subslice gs @ rest) = None" if "rest = [] \<or> hd rest = 58" for gs rest
  proof (cases gs)
    case Nil
    then show ?thesis using that by (cases rest) auto
  next
    case (Cons g gs')
    then show ?thesis using no_ipv4_group [of "concat (map (\<lambda>g. 58 # show_radix 16 g) gs') @ rest" g] that
      by (cases gs') auto
  qed
  show ?thesis
    using fmt [of "[]"] fmt by (auto simp: ipv6_display_def Let_def split: prod.split)
qed

text \<open>Parsing a printed address gives it back.\<close>

lemma ip_from_str_ipv4: "length ip = 4 \<Longrightarrow> ip_from_str (ipv4_display ip) = Some (Ipv4Addr ip)"
  using read_ipv4_display [of ip "[]"] by (simp add: ip_from_str_def no_digit_def comp_def)

lemma ip_from_str_ipv6:
  assumes "length ip = 16"
  shows "ip_from_str (ipv6_display ip) = Some (Ipv6Addr ip)"
proof -
  let ?gs = "segments ip"
  note oct = octets_segments [OF assms]
  have "read_ipv6_addr (ipv6_display ip) = Some (?gs, [])"
  proof (cases "take 6 ?gs = [0, 0, 0, 0, 0, 0xffff]")
    case True
    have "segments (drop 12 ip) = drop 6 ?gs" using segments_drop [of 6 ip] by simp
    then show ?thesis
      using True read_ipv6_mapped [of "drop 12 ip"] assms append_take_drop_id [of 6 ?gs]
      by (simp add: ipv6_display_def)
  next
    case False
    obtain st l where r: "span_loop 0 (0, 0) (0, 0) ?gs = (st, l)" by (cases "span_loop 0 (0, 0) (0, 0) ?gs") auto
    have "zero_run ?gs (st, l)"
      using span_loop_run [of "[]" ?gs "(0, 0)" 0 0] r by (simp add: zero_run_def)
    then show ?thesis
      using False r read_ipv6_run [OF oct(1,2), of st l] read_ipv6_fmt [OF oct(1,2)]
      by (simp add: ipv6_display_def Let_def)
  qed
  then show ?thesis using ipv6_display_no_ipv4 oct(3) by (simp add: ip_from_str_def)
qed

end
