(* ===== verification/InetText.thy ===== *)
theory InetText
  imports InetAddress Ip_Text
begin

text \<open>
  The text form of \<open>InetAddress\<close> in \<open>src/inetaddress.rs\<close>, an address and a port behind a slash,
  and its serialization, which uses the text for human readable formats and the binary encoding
  for the others. Strings are their UTF-8 bytes.
\<close>

section \<open>Definitions\<close>

definition inet_to_ip_string :: "endian \<Rightarrow> inet \<Rightarrow> u8 list" where
  "inet_to_ip_string e self =
     (let f = sa_family e self in
      if f = AF_INET then ipv4_display (get_region SIN_ADDR_OFF 4 self)
      else if f = AF_INET6 then ipv6_display (sin6_addr self)
      else [40, 110, 117, 108, 108, 41])"

definition inet_to_string :: "endian \<Rightarrow> inet \<Rightarrow> u8 list" where
  "inet_to_string e self =
     (let s = inet_to_ip_string e self; f = sa_family e self in
      if f = AF_INET then s @ [47] @ show_radix 10 (unat (to_be16 e (sin_port e self)))
      else if f = AF_INET6 then s @ [47] @ show_radix 10 (unat (to_be16 e (sin_port e self)))
      else s)"

definition inet_debug :: "endian \<Rightarrow> inet \<Rightarrow> u8 list" where
  "inet_debug e self = inet_to_string e self"

text \<open>The address part and the port, which is stored in network order; a port that does not parse is 0.\<close>

definition split_port :: "endian \<Rightarrow> u8 list \<Rightarrow> u8 list \<times> u16" where
  "split_port e s =
     (if 47 \<in> set s
      then let port_str = dropWhile (\<lambda>c. c \<noteq> 47) s;
               port_str = (if take 1 port_str = [47] then drop 1 port_str else port_str)
           in (takeWhile (\<lambda>c. c \<noteq> 47) s,
               to_be16 e (case from_str_radix 10 0 65535 port_str of None \<Rightarrow> 0 | Some p \<Rightarrow> of_int p))
      else (s, 0))"

definition inet_from_str :: "endian \<Rightarrow> u8 list \<Rightarrow> crate_error + inet" where
  "inet_from_str e ip_string =
     (let addr = inet_new; s = str_trim ip_string in
      if s \<noteq> []
      then case split_port e s of (ip_str, port) \<Rightarrow>
        (case ip_from_str ip_str of
           None \<Rightarrow> Inl (InvalidParameterError ''invalid IP/CIDR'')
         | Some (Ipv4Addr v4) \<Rightarrow>
             Inr (put_region SIN_ADDR_OFF v4 (store16 e PORT_OFF port (store16 e FAMILY_OFF AF_INET addr)))
         | Some (Ipv6Addr v6) \<Rightarrow>
             Inr (put_region SIN6_ADDR_OFF v6 (store16 e PORT_OFF port (store16 e FAMILY_OFF AF_INET6 addr))))
      else Inr addr)"

text \<open>What the serializer is given, and the visitor's methods for the two forms; the message of a
  deserialization error is the text of the error it comes from.\<close>

datatype serialized = SerStr "u8 list" | SerBytes "u8 list"

datatype de_error = CustomIo io_error | Custom string

definition inet_serialize :: "bool \<Rightarrow> endian \<Rightarrow> inet \<Rightarrow> serialized outcome" where
  "inet_serialize is_human_readable e self =
     (if is_human_readable then Returns (SerStr (inet_to_string e self))
      else obind (tfb_to_bytes_on_stack 32 (\<lambda>w. inet_write_bytes e av_write_all self w)) (\<lambda>v.
           obind (av_as_bytes False v) (\<lambda>b. Returns (SerBytes b))))"

definition inet_visit_bytes :: "endian \<Rightarrow> u8 list \<Rightarrow> de_error + inet" where
  "inet_visit_bytes e v =
     (case fst (inet_read_bytes e slice_read_exact v) of Inl err \<Rightarrow> Inl (CustomIo err) | Inr a \<Rightarrow> Inr a)"

definition inet_visit_str :: "endian \<Rightarrow> u8 list \<Rightarrow> de_error + inet" where
  "inet_visit_str e v =
     (case inet_from_str e v of Inl err \<Rightarrow> Inl (Custom (error_display err)) | Inr a \<Rightarrow> Inr a)"

definition inet_visit :: "endian \<Rightarrow> serialized \<Rightarrow> de_error + inet" where
  "inet_visit e s = (case s of SerStr v \<Rightarrow> inet_visit_str e v | SerBytes v \<Rightarrow> inet_visit_bytes e v)"

section \<open>The characters of a printed address\<close>

definition ip_char :: "u8 \<Rightarrow> bool" where
  "ip_char c \<longleftrightarrow> c = 46 \<or> c = 58 \<or> to_digit 16 c \<noteq> None"

lemma ip_char_range: "ip_char c \<Longrightarrow> 33 \<le> c \<and> c \<le> 126 \<and> c \<noteq> 47"
  by (auto simp: ip_char_def to_digit_def word_le_nat_alt Let_def split: if_splits)

lemma to_digit_16: "to_digit 10 c \<noteq> None \<Longrightarrow> to_digit 16 c \<noteq> None"
  by (auto simp: to_digit_def Let_def split: if_splits)

lemma show_ip_char: "list_all ip_char (show_radix 10 n)" "list_all ip_char (show_radix 16 n)"
  using show_radix_digits [of 10 n] show_radix_digits [of 16 n] to_digit_16
  by (auto simp: all_digits_def list_all_iff ip_char_def)

lemma ip_char_seps [simp]: "ip_char 46" "ip_char 58"
  by (simp_all add: ip_char_def)

lemma ipv4_display_char: "list_all ip_char (ipv4_display ip)"
  using show_ip_char by (cases ip) (auto simp: ipv4_display_def list_all_iff)

lemma fmt_char: "list_all ip_char (fmt_subslice gs)"
  using show_ip_char by (cases gs) (auto simp: list_all_iff)

lemma ipv6_display_char: "list_all ip_char (ipv6_display ip)"
proof -
  have "ip_char 102" by (simp add: ip_char_def to_digit_def)
  then show ?thesis
    using fmt_char ipv4_display_char by (auto simp: ipv6_display_def Let_def split: prod.split)
qed

text \<open>Text of these characters, a slash and a port splits into the two, and nothing is trimmed.\<close>

lemma split_port_printed:
  assumes "list_all ip_char s" and "s \<noteq> []"
  shows "str_trim (s @ 47 # show_radix 10 (unat p)) = s @ 47 # show_radix 10 (unat p)"
    and "split_port e (s @ 47 # show_radix 10 (unat p)) = (s, to_be16 e p)"
proof -
  let ?p = "show_radix 10 (unat p)"
  note d = show_radix_digits [of 10 "unat p"]
  have "ip_char (hd s)" using assms by (cases s) simp_all
  moreover have "ip_char (last ?p)" using d show_ip_char(1) [of "unat p"] by (simp add: list_all_iff)
  ultimately show "str_trim (s @ 47 # ?p) = s @ 47 # ?p"
    using ip_char_range d assms(2) by (intro str_trim_id) simp_all
  have no: "\<forall>c \<in> set s. c \<noteq> 47" using assms(1) ip_char_range by (auto simp: list_all_iff)
  have "int (unat p) \<le> 65535" using unat_u16 [of p] by linarith
  from from_str_show [OF _ _ this, of 10] have "from_str_radix 10 0 65535 ?p = Some (int (unat p))" by simp
  then show "split_port e (s @ 47 # ?p) = (s, to_be16 e p)"
    using no by (simp add: split_port_def takeWhile_append2 dropWhile_append2)
qed

text \<open>Text that does not begin with a digit or a colon is no address.\<close>

lemma ip_from_str_none:
  assumes "no_digit 16 s" and "s = [] \<or> hd s \<noteq> 58"
  shows "ip_from_str s = None"
proof -
  have "no_digit 10 s" using assms(1) to_digit_16 [of "hd s"] by (auto simp: no_digit_def)
  then have "read_number 10 3 False 256 s = None" "read_number 16 4 True 65536 s = None"
    using assms(1) by (cases s; simp add: read_number_def no_digit_def)+
  moreover have "ipv4_loop (Suc 3) 0 s = None"
    by (subst ipv4_loop.simps) (simp add: read_separator_def calculation)
  ultimately have "read_ipv4_addr s = None" "read_groups 8 0 s = ([], False, s)"
    by (simp_all add: read_ipv4_addr_def read_separator_def read_groups.simps [of 8 0])
  moreover have "read_given_char 58 s = None" using assms(2) by (cases s) (simp_all add: read_given_char_def)
  ultimately show ?thesis by (simp add: ip_from_str_def read_ipv6_addr_def)
qed

lemma ip_from_str_null: "ip_from_str [40, 110, 117, 108, 108, 41] = None"
  by (rule ip_from_str_none) (simp_all add: no_digit_def to_digit_def)

lemma ip_from_str_Nil: "ip_from_str [] = None"
  by (rule ip_from_str_none) (simp_all add: no_digit_def)

lemma null_trim: "str_trim [40, 110, 117, 108, 108, 41] = [40, 110, 117, 108, 108, 41]"
  by (rule str_trim_id) simp_all

section \<open>Parsing\<close>

lemma inet_from_str_eq:
  assumes "str_trim s = t" and "t \<noteq> []" and "split_port e t = (ip_str, to_be16 e port)"
    and "ip_from_str ip_str = Some ip"
    and "case ip of Ipv4Addr v \<Rightarrow> length v = 4 | Ipv6Addr v \<Rightarrow> length v = 16"
  shows "inet_from_str e s = Inr (inet_from_ip_port e (case ip of Ipv4Addr v \<Rightarrow> v | Ipv6Addr v \<Rightarrow> v) port)"
  using assms
  by (cases ip) (simp_all add: inet_from_str_def inet_from_ip_port_def inet_set_eq layout_defs store_be16)

lemma inet_to_string_view:
  assumes "inet_view e a = Endpoint f ip p" and "f = AF_INET \<or> f = AF_INET6"
  shows "inet_to_string e a
    = (if f = AF_INET then ipv4_display ip else ipv6_display ip) @ 47 # show_radix 10 (unat p)"
  using assms(2) view_fields [OF assms(1)] ip_fields [of e a]
  by (auto simp: inet_to_string_def inet_to_ip_string_def layout_defs)

lemma inet_text_ip:
  assumes "inet_inv a" and "inet_view e a = Endpoint f ip p" and "f = AF_INET \<or> f = AF_INET6"
  shows "inet_from_str e' (inet_to_string e a) = Inr (inet_from_ip_port e' ip p)"
proof -
  note v = view_fields [OF assms(2)]
  have ok: "endpoint_ok (Endpoint f ip p)" using view_ok [OF assms(1), of e] assms(2) by simp
  define s where "s = (if f = AF_INET then ipv4_display ip else ipv6_display ip)"
  define x where "x = (if f = AF_INET then Ipv4Addr ip else Ipv6Addr ip)"
  have len: "f = AF_INET \<Longrightarrow> length ip = 4" "f = AF_INET6 \<Longrightarrow> length ip = 16"
    using ok by (simp_all add: endpoint_ok_def)
  have parse: "ip_from_str s = Some x"
    using len assms(3) ip_from_str_ipv4 [of ip] ip_from_str_ipv6 [of ip] by (auto simp: s_def x_def)
  then have "s \<noteq> []" using ip_from_str_Nil by auto
  moreover have "list_all ip_char s" by (simp add: s_def ipv4_display_char ipv6_display_char)
  ultimately have split: "str_trim (s @ 47 # show_radix 10 (unat p)) = s @ 47 # show_radix 10 (unat p)"
    "split_port e' (s @ 47 # show_radix 10 (unat p)) = (s, to_be16 e' p)"
    by (simp_all add: split_port_printed)
  have "inet_to_string e a = s @ 47 # show_radix 10 (unat p)"
    unfolding s_def by (rule inet_to_string_view [OF assms(2,3)])
  moreover have "inet_from_str e' (s @ 47 # show_radix 10 (unat p))
      = Inr (inet_from_ip_port e' (case x of Ipv4Addr v \<Rightarrow> v | Ipv6Addr v \<Rightarrow> v) p)"
    using inet_from_str_eq [OF split(1) _ split(2) parse] len assms(3) by (auto simp: x_def)
  ultimately show ?thesis by (simp add: x_def split: if_splits)
qed

lemma inet_text_other:
  assumes "\<not> inet_is_ip e a"
  shows "inet_from_str e' (inet_to_string e a) = Inl (InvalidParameterError ''invalid IP/CIDR'')"
proof -
  have "inet_to_string e a = [40, 110, 117, 108, 108, 41]"
    using assms by (simp add: inet_is_ip_def inet_to_string_def inet_to_ip_string_def Let_def)
  then show ?thesis by (simp add: inet_from_str_def null_trim split_port_def ip_from_str_null)
qed

lemma inet_text_again:
  assumes "inet_inv a" and "inet_is_ip e a"
  shows "\<exists>a'. inet_from_str e' (inet_to_string e a) = Inr a' \<and> inet_inv a' \<and> inet_view e' a' = inet_view e a"
proof -
  obtain f ip p where v: "inet_view e a = Endpoint f ip p" by (cases "inet_view e a")
  then have f: "f = AF_INET \<or> f = AF_INET6" using assms(2) view_fields by (auto simp: inet_is_ip_def)
  have "endpoint_ok (Endpoint f ip p)" using view_ok [OF assms(1), of e] v by simp
  then have "inet_view e' (inet_from_ip_port e' ip p) = Endpoint f ip p"
    using f by (auto simp: endpoint_ok_def from_ip_port_view)
  then show ?thesis using inet_text_ip [OF assms(1) v f] v by (simp add: from_ip_port_view)
qed

text \<open>
  C14: An IP address that is printed and parsed is the same address, on every host. The nil address
  and addresses of other families print as \<open>(null)\<close>, which does not parse.
\<close>

theorem inet_text_roundtrip:
  assumes "inet_inv a"
  shows "if inet_is_ip e a
    then \<exists>a'. inet_from_str e' (inet_to_string e a) = Inr a' \<and> inet_inv a' \<and> inet_view e' a' = inet_view e a
    else inet_from_str e' (inet_to_string e a) = Inl (InvalidParameterError ''invalid IP/CIDR'')"
  using inet_text_again [OF assms] inet_text_other by simp

theorem inet_text_roundtrip_witness:
  "\<exists>a'. inet_from_str BE (inet_to_string LE (inet_ipv6_loopback LE 9993)) = Inr a'
     \<and> inet_view BE a' = Endpoint AF_INET6 (replicate 15 0 @ [1]) 9993"
proof -
  let ?a = "inet_ipv6_loopback LE 9993"
  have a: "inet_inv ?a" "inet_view LE ?a = Endpoint AF_INET6 (replicate 15 0 @ [1]) 9993"
    by (simp_all add: ipv6_loopback_eq from_ip_port_view)
  then have "inet_is_ip LE ?a" by (simp add: inet_is_ip_def view_fields)
  then show ?thesis
    using inet_text_roundtrip [OF a(1), where e = LE and e' = BE] a(2) by auto
qed

lemma read_number_bound: "read_number radix m allow bound s = Some (v, r) \<Longrightarrow> v < bound"
  by (auto simp: read_number_def Let_def split: option.splits if_splits)

lemma ipv4_loop_length: "ipv4_loop n i s = Some (xs, r) \<Longrightarrow> length xs = n"
  by (induction n arbitrary: i s xs r) (auto split: option.splits)

lemma read_groups_length: "i \<le> limit \<Longrightarrow> read_groups limit i s = (gs, v4, t) \<Longrightarrow> i + length gs \<le> limit"
proof (induction limit i s arbitrary: gs v4 t rule: read_groups.induct)
  case (1 limit i s)
  show ?case
  proof (cases "i < limit")
    case True
    note p = "1.prems"(2) [unfolded read_groups.simps [of limit i]]
    show ?thesis
    proof (cases "if i < limit - 1 then read_separator 58 i read_ipv4_addr s else None")
      case (Some x)
      then show ?thesis using p True by (auto split: if_splits prod.splits)
    next
      case None
      then show ?thesis
        using p True "1.IH" [OF _ None] by (fastforce split: option.splits prod.splits if_splits)
    qed
  next
    case False
    then have "gs = []" using "1.prems"(2) by (simp add: read_groups.simps [of limit i])
    then show ?thesis using "1.prems"(1) by simp
  qed
qed

lemma octets_length: "length (octets gs) = 2 * length gs"
  by (induction gs) (simp_all add: octets_def)

lemma read_ipv6_length: "read_ipv6_addr s = Some (gs, r) \<Longrightarrow> length gs = 8"
proof -
  assume a: "read_ipv6_addr s = Some (gs, r)"
  obtain head v4 s1 where h: "read_groups 8 0 s = (head, v4, s1)" by (cases "read_groups 8 0 s")
  show ?thesis
  proof (cases "length head = 8")
    case True
    then show ?thesis using a h by (simp add: read_ipv6_addr_def)
  next
    case False
    then have l: "length head \<le> 7" using read_groups_length [OF _ h] by simp
    obtain s3 tail tv s4 where t: "read_groups (8 - (length head + 1)) 0 s3 = (tail, tv, s4)"
      and gs: "gs = head @ replicate (8 - length head - length tail) 0 @ tail"
      using a h False by (auto simp: read_ipv6_addr_def Let_def split: if_splits prod.splits option.splits bind_splits)
    show ?thesis using read_groups_length [OF _ t] l gs by simp
  qed
qed

lemma ip_from_str_length:
  "ip_from_str s = Some ip \<Longrightarrow> case ip of Ipv4Addr v \<Rightarrow> length v = 4 | Ipv6Addr v \<Rightarrow> length v = 16"
  by (auto simp: ip_from_str_def read_ipv4_addr_def octets_length split: option.splits if_splits
      dest!: ipv4_loop_length read_ipv6_length)

lemma split_port_be: "\<exists>t p. split_port e s = (t, to_be16 e p)"
proof (cases "47 \<in> set s")
  case False
  then show ?thesis by (intro exI [of _ s] exI [of _ 0]) (simp add: split_port_def)
qed (auto simp: split_port_def Let_def)


text \<open>
  C30: Serialization never panics, and deserializing gives the address back, on every host and in both
  forms; but a nil address in the text form is \<open>(null)\<close>, and deserializing that fails.
\<close>

theorem inet_serde_roundtrip:
  assumes "inet_inv a"
  shows "\<exists>s. inet_serialize h e a = Returns s \<and>
    (if inet_is_ip e a then \<exists>a'. inet_visit e' s = Inr a' \<and> inet_inv a' \<and> inet_view e' a' = inet_view e a
     else if h then inet_visit e' s = Inl (Custom ''InvalidParameterError: invalid IP/CIDR'')
     else inet_visit e' s = Inr inet_new)"
proof (cases h)
  case True
  then show ?thesis
    using inet_text_again [OF assms, where e = e and e' = e'] inet_text_other [where e = e and a = a and e' = e']
    by (auto simp: inet_serialize_def inet_visit_def inet_visit_str_def)
next
  case False
  let ?x = "inet_view e a"
  have ok: "endpoint_ok ?x" using view_ok [OF assms] .
  have "length (endpoint_bytes ?x) \<le> 32"
    using ok by (cases ?x) (auto simp: endpoint_bytes_def endpoint_ok_def split: if_splits)
  then obtain v where v: "tfb_to_bytes_on_stack 32 (\<lambda>w. inet_write_bytes e av_write_all a w) = Returns v"
    "av_inv False v" "av_list v = endpoint_bytes ?x"
    using inet_bytes.to_bytes_on_stack_spec [OF assms, where C = 32 and nd = False and e = e] by auto
  have ser: "inet_serialize h e a = Returns (SerBytes (endpoint_bytes ?x))"
    using v av_as_bytes_spec [of False v] False by (simp add: inet_serialize_def av_rep_iff)
  have "fst (inet_read_bytes e' slice_read_exact (endpoint_bytes ?x)) = Inr (endpoint_inet e' ?x)"
    using slice.inet_read_bytes_enc [OF ok, where r = "endpoint_bytes ?x" and rest = "[]" and e = e'] by auto
  then have vis: "inet_visit e' (SerBytes (endpoint_bytes ?x)) = Inr (endpoint_inet e' ?x)"
    by (simp add: inet_visit_def inet_visit_bytes_def)
  have "if inet_is_ip e a then inet_view e' (endpoint_inet e' ?x) = ?x else endpoint_inet e' ?x = inet_new"
    using endpoint_inet_view [OF ok, of e']
    by (cases ?x) (auto simp: inet_is_ip_def view_fields endpoint_inet_def)
  then show ?thesis using ser vis False endpoint_inet_view [OF ok, of e'] by auto
qed

theorem inet_serde_roundtrip_witness:
  "\<exists>s a'. inet_serialize False LE (inet_ipv4_loopback LE 9993) = Returns s \<and> inet_visit BE s = Inr a'
     \<and> inet_view BE a' = Endpoint AF_INET [127, 0, 0, 1] 9993"
proof -
  let ?a = "inet_ipv4_loopback LE 9993"
  have a: "inet_inv ?a" "inet_view LE ?a = Endpoint AF_INET [127, 0, 0, 1] 9993"
    by (simp_all add: ipv4_loopback_eq from_ip_port_view)
  then have "inet_is_ip LE ?a" by (simp add: inet_is_ip_def view_fields)
  then show ?thesis
    using inet_serde_roundtrip [OF a(1), where h = False and e = LE and e' = BE] a(2) by auto
qed

end
