(* ===== verification/Blob.thy ===== *)
theory Blob
  imports Hex Std_Text
begin

text \<open>
  The fixed size byte array of \<open>src/blob.rs\<close>, and the functions of \<open>src/base64.rs\<close> it is serialized
  with. A \<open>Blob<L>\<close> is a list of \<open>L\<close> bytes. The Base64 engine is not part of the program: its
  \<open>encode\<close> and \<open>decode\<close> are parameters, and the properties say what they need of it.
\<close>

section \<open>Operations\<close>

text \<open>\<open>base64.rs\<close>: \<open>decode\<close> returns an error or the bytes.\<close>

definition base64_to_string :: "(u8 list \<Rightarrow> u8 list) \<Rightarrow> u8 list \<Rightarrow> u8 list" where
  "base64_to_string encode b = encode b"

definition base64_from_string :: "(u8 list \<Rightarrow> 'e + u8 list) \<Rightarrow> u8 list \<Rightarrow> u8 list option" where
  "base64_from_string decode s = (case decode s of Inl _ \<Rightarrow> None | Inr b \<Rightarrow> Some b)"

type_synonym blob = "u8 list"

text \<open>A mutable reference to the bytes, as the store of a byte through it.\<close>

definition blob_as_bytes :: "blob \<Rightarrow> u8 list" where
  "blob_as_bytes self = self"

definition blob_len :: "nat \<Rightarrow> blob \<Rightarrow> nat" where
  "blob_len L self = L"

definition blob_deref_mut :: "blob \<Rightarrow> nat \<Rightarrow> u8 \<Rightarrow> blob outcome" where
  "blob_deref_mut self i x = index_set self i x"

definition blob_deref :: "blob \<Rightarrow> u8 list" where
  "blob_deref self = self"

definition blob_as_ref :: "blob \<Rightarrow> u8 list" where
  "blob_as_ref self = self"

definition blob_as_mut :: "blob \<Rightarrow> nat \<Rightarrow> u8 \<Rightarrow> blob outcome" where
  "blob_as_mut self i x = index_set self i x"

definition blob_into_array :: "blob \<Rightarrow> u8 list" where
  "blob_into_array value = value"

definition blob_from_array :: "u8 list \<Rightarrow> blob" where
  "blob_from_array a = a"

text \<open>The conversion of a slice to an array of \<open>L\<close> bytes; the error carries nothing.\<close>

definition slice_to_array :: "nat \<Rightarrow> u8 list \<Rightarrow> unit + u8 list" where
  "slice_to_array L s = (if length s = L then Inr s else Inl ())"

definition blob_try_from :: "nat \<Rightarrow> u8 list \<Rightarrow> unit + blob" where
  "blob_try_from L s = (case slice_to_array L s of Inl e \<Rightarrow> Inl e | Inr b \<Rightarrow> Inr b)"

definition blob_default :: "nat \<Rightarrow> blob" where
  "blob_default L = replicate L 0"

definition blob_to_string :: "blob \<Rightarrow> u8 list" where
  "blob_to_string self = hex_to_string self"

definition blob_debug :: "blob \<Rightarrow> u8 list" where
  "blob_debug self = blob_to_string self"

text \<open>The derived traits.\<close>

definition blob_eq :: "blob \<Rightarrow> blob \<Rightarrow> bool" where
  "blob_eq self other = (self = other)"

definition blob_cmp :: "blob \<Rightarrow> blob \<Rightarrow> ordering" where
  "blob_cmp self other = iter_cmp self other"

definition blob_clone :: "blob \<Rightarrow> blob" where
  "blob_clone self = self"

definition blob_zeroize :: "blob \<Rightarrow> blob" where
  "blob_zeroize self = replicate (length self) 0"

text \<open>What a serializer is given, and the errors of the visitor.\<close>

datatype blob_serialized = BlobStr "u8 list" | BlobBytes "u8 list"

datatype blob_error = InvalidBase64 | InvalidLength nat

definition blob_serialize :: "(u8 list \<Rightarrow> u8 list) \<Rightarrow> bool \<Rightarrow> blob \<Rightarrow> blob_serialized" where
  "blob_serialize encode is_human_readable self =
     (if is_human_readable then BlobStr (base64_to_string encode self) else BlobBytes self)"

definition blob_visit_str :: "(u8 list \<Rightarrow> 'e + u8 list) \<Rightarrow> nat \<Rightarrow> u8 list \<Rightarrow> blob_error + blob" where
  "blob_visit_str decode L v =
     (case base64_from_string decode (str_trim v) of
        None \<Rightarrow> Inl InvalidBase64
      | Some b \<Rightarrow> (case slice_to_array L b of Inr a \<Rightarrow> Inr a | Inl _ \<Rightarrow> Inl (InvalidLength (length b))))"

definition blob_visit_bytes :: "nat \<Rightarrow> u8 list \<Rightarrow> blob_error + blob" where
  "blob_visit_bytes L v =
     (case slice_to_array L v of Inr a \<Rightarrow> Inr a | Inl _ \<Rightarrow> Inl (InvalidLength (length v)))"

text \<open>A human readable deserializer calls \<open>visit_str\<close>, any other one \<open>visit_bytes\<close>.\<close>

definition blob_deserialize :: "(u8 list \<Rightarrow> 'e + u8 list) \<Rightarrow> nat \<Rightarrow> blob_serialized \<Rightarrow> blob_error + blob" where
  "blob_deserialize decode L s =
     (case s of BlobStr v \<Rightarrow> blob_visit_str decode L v | BlobBytes v \<Rightarrow> blob_visit_bytes L v)"

section \<open>Serialization\<close>

text \<open>What the crate \<open>base64\<close> documents of its URL-safe engine without padding.\<close>

definition url_safe :: "u8 \<Rightarrow> bool" where
  "url_safe c \<longleftrightarrow> 65 \<le> c \<and> c \<le> 90 \<or> 97 \<le> c \<and> c \<le> 122 \<or> 48 \<le> c \<and> c \<le> 57 \<or> c = 45 \<or> c = 95"

lemma str_trim_Nil [simp]: "str_trim [] = []"
  by (simp add: str_trim_def trim_prefix.simps WHITESPACE_def)

lemma str_trim_url_safe:
  assumes "list_all url_safe s"
  shows "str_trim s = s"
proof (cases "s = []")
  case False
  have "url_safe c \<Longrightarrow> 33 \<le> c \<and> c \<le> 126" for c by (auto simp: url_safe_def word_le_nat_alt)
  then show ?thesis using assms False by (intro str_trim_id) (auto simp: list_all_iff)
qed simp

text \<open>
  C37: With an engine that decodes what it encoded and encodes to the URL-safe alphabet, a blob of \<open>L\<close>
  bytes comes back from either form; read as a blob of any other length it is rejected with its
  length.
\<close>

theorem blob_serde_roundtrip:
  assumes "\<And>b. decode (encode b) = Inr b" and "\<And>b. list_all url_safe (encode b)"
  shows "blob_deserialize decode L (blob_serialize encode h b)
    = (if length b = L then Inr b else Inl (InvalidLength (length b)))"
  using assms
  by (simp add: blob_serialize_def blob_deserialize_def blob_visit_str_def blob_visit_bytes_def
      base64_to_string_def base64_from_string_def slice_to_array_def str_trim_url_safe)

text \<open>Two hexadecimal digits for each byte are such an encoding.\<close>

lemma hex_url_safe: "list_all url_safe (hex_to_string b)"
proof -
  have "\<forall>n<16. url_safe (HEX_CHARS ! n)"
    unfolding all_less_16 by (simp add: HEX_CHARS_def upt_rec url_safe_def)
  then have "n < 16 \<Longrightarrow> url_safe (HEX_CHARS ! n)" for n by blast
  moreover have "drop_bit 4 (unat c) < 16" "unat c AND 15 < 16" for c :: u8
  proof -
    have "unat c < 16 * 16" by simp
    then show "drop_bit 4 (unat c) < 16" by (simp add: drop_bit_eq_div less_mult_imp_div_less)
    have "unat c AND 15 = take_bit 4 (unat c)" by (simp add: take_bit_eq_mask mask_eq_exp_minus_1)
    then show "unat c AND 15 < 16" using take_bit_nat_less_exp [of 4 "unat c"] by simp
  qed
  ultimately have "list_all url_safe (hex_byte c)" for c by (simp add: hex_byte_def Let_def)
  then show ?thesis by (induction b) simp_all
qed

theorem blob_serde_roundtrip_witness:
  "blob_deserialize (\<lambda>s. Inr (hex_from_string s) :: unit + u8 list) 3 (blob_serialize hex_to_string True [1, 2, 255]) = Inr [1, 2, 255]
   \<and> blob_deserialize (\<lambda>s. Inr (hex_from_string s) :: unit + u8 list) 4 (blob_serialize hex_to_string True [1, 2, 255]) = Inl (InvalidLength 3)"
  using blob_serde_roundtrip [of "\<lambda>s. Inr (hex_from_string s) :: unit + u8 list" hex_to_string _ True "[1, 2, 255]"]
  by (simp add: hex_to_string_concat hex.roundtrip hex_url_safe [unfolded hex_to_string_concat])

text \<open>The order of blobs of one length is the order of the numbers they spell in network order.\<close>

lemma blob_cmp_number:
  "length a = length b \<Longrightarrow> blob_cmp a b = prim_cmp (nat_of_be a) (nat_of_be b)"
  by (simp add: blob_cmp_def iter_cmp_nat_of_be)

lemma blob_try_from_iff: "blob_try_from L s = Inr b \<longleftrightarrow> b = s \<and> length s = L"
  by (auto simp: blob_try_from_def slice_to_array_def)

end
