(* ===== verification/Gate.thy ===== *)
theory Gate
  imports Prelude
begin

text \<open>
  The rate limiter of \<open>src/gate.rs\<close> and the time stamp it starts from, \<open>NEVER_HAPPENED_TICKS\<close> of
  \<open>src/lib.rs\<close>. Time stamps are \<open>i64\<close> values; their difference can overflow, which panics in a
  debug build and wraps in a release build.
\<close>

section \<open>Operations\<close>

definition i64_sub :: "bool \<Rightarrow> i64 \<Rightarrow> i64 \<Rightarrow> i64 outcome" where
  "i64_sub debug a b =
     (let d = sint a - sint b in
      if - (2 ^ 63) \<le> d \<and> d < 2 ^ 63 then Returns (a - b) else if debug then Panics else Returns (a - b))"

definition NEVER_HAPPENED_TICKS :: i64 where
  "NEVER_HAPPENED_TICKS = word_of_int ((- (2 ^ 63)) div 2)"

type_synonym interval_gate = i64

definition gate_default :: interval_gate where
  "gate_default = NEVER_HAPPENED_TICKS"

definition gate_new :: "i64 \<Rightarrow> interval_gate" where
  "gate_new initial_ts = initial_ts"

definition gate :: "bool \<Rightarrow> i64 \<Rightarrow> interval_gate \<Rightarrow> i64 \<Rightarrow> (bool \<times> interval_gate) outcome" where
  "gate debug FREQ self time =
     obind (i64_sub debug time self) (\<lambda>d.
       if FREQ \<le>s d then Returns (True, time) else Returns (False, self))"

text \<open>The answers to a sequence of calls.\<close>

fun gate_run :: "bool \<Rightarrow> i64 \<Rightarrow> interval_gate \<Rightarrow> i64 list \<Rightarrow> (bool list \<times> interval_gate) outcome" where
  "gate_run debug FREQ g [] = Returns ([], g)"
| "gate_run debug FREQ g (t # ts) =
     obind (gate debug FREQ g t) (\<lambda>(b, g').
     obind (gate_run debug FREQ g' ts) (\<lambda>(bs, g''). Returns (b # bs, g'')))"

section \<open>One call\<close>

lemma sint_i64: "- (2 ^ 63) \<le> sint (w :: i64)" "sint (w :: i64) < 2 ^ 63"
  using sint_ge [of w] sint_lt [of w] by simp_all

lemma sint_diff:
  "sint (a - b) = (let d = sint a - sint b in if d < - (2 ^ 63) then d + 2 ^ 64 else if 2 ^ 63 \<le> d then d - 2 ^ 64 else d)"
  for a b :: i64
proof -
  let ?d = "sint a - sint b"
  have eq: "sint (a - b) = (?d + 2 ^ 63) mod 2 ^ 64 - 2 ^ 63"
    by (simp add: sint_word_ariths signed_take_bit_eq_take_bit_shift take_bit_eq_mod)
  have range: "- (2 ^ 64) < ?d" "?d < 2 ^ 64" using sint_i64 [of a] sint_i64 [of b] by simp_all
  consider "?d < - (2 ^ 63)" | "2 ^ 63 \<le> ?d" | "- (2 ^ 63) \<le> ?d" "?d < 2 ^ 63" by linarith
  then show ?thesis
  proof cases
    case 1
    have "(?d + 2 ^ 63 + 2 ^ 64) mod 2 ^ 64 = ?d + 2 ^ 63 + 2 ^ 64"
      using 1 range by (intro mod_pos_pos_trivial) simp_all
    then have "(?d + 2 ^ 63) mod 2 ^ 64 = ?d + 2 ^ 63 + 2 ^ 64" by (simp only: mod_add_self2)
    then show ?thesis using 1 by (simp add: eq Let_def)
  next
    case 2
    have "(?d + 2 ^ 63 - 2 ^ 64) mod 2 ^ 64 = ?d + 2 ^ 63 - 2 ^ 64"
      using 2 range by (intro mod_pos_pos_trivial) simp_all
    then have "(?d + 2 ^ 63) mod 2 ^ 64 = ?d + 2 ^ 63 - 2 ^ 64" by (simp only: minus_mod_self2)
    then show ?thesis using 2 by (simp add: eq Let_def)
  next
    case 3
    then have "(?d + 2 ^ 63) mod 2 ^ 64 = ?d + 2 ^ 63" by (intro mod_pos_pos_trivial) simp_all
    then show ?thesis using 3 by (simp add: eq Let_def)
  qed
qed

text \<open>
  A call on any gate, at any time. Where the difference to the last time stamp does not overflow,
  the gate opens exactly if that many ticks have passed, and then remembers the time. Where it
  overflows, a debug build panics and a release build decides on a difference that is off by
  \<open>2 ^ 64\<close>: a gate that never opened stays closed from time \<open>2 ^ 62\<close> on.
\<close>

lemma gate_call:
  "gate debug FREQ self time =
     (let d = sint time - sint self in
      if - (2 ^ 63) \<le> d \<and> d < 2 ^ 63
      then Returns (if sint FREQ \<le> d then (True, time) else (False, self))
      else if debug then Panics
      else Returns (if sint FREQ \<le> (if 0 < d then d - 2 ^ 64 else d + 2 ^ 64) then (True, time) else (False, self)))"
  by (auto simp: gate_def i64_sub_def word_sle_eq sint_diff Let_def)

section \<open>Sequences of calls\<close>

lemma gate_never: "sint NEVER_HAPPENED_TICKS = - (2 ^ 62)"
  by (simp add: NEVER_HAPPENED_TICKS_def)

text \<open>Time stamps for which no difference overflows.\<close>

definition tick_ok :: "i64 \<Rightarrow> bool" where
  "tick_ok t \<longleftrightarrow> - (2 ^ 62) \<le> sint t \<and> sint t < 2 ^ 62"

lemma gate_ok:
  assumes "tick_ok g" and "tick_ok t"
  shows "gate debug FREQ g t = Returns (if sint FREQ \<le> sint t - sint g then (True, t) else (False, g))"
  using assms by (simp add: gate_call tick_ok_def Let_def)

text \<open>The reference: the times that pass, each at least \<open>f\<close> after the one before it.\<close>

fun passes :: "int \<Rightarrow> i64 \<Rightarrow> i64 list \<Rightarrow> bool list" where
  "passes f l [] = []"
| "passes f l (t # ts) = (if sint l + f \<le> sint t then True # passes f t ts else False # passes f l ts)"

fun accepted :: "'a list \<Rightarrow> bool list \<Rightarrow> 'a list" where
  "accepted (t # ts) (b # bs) = (if b then t # accepted ts bs else accepted ts bs)"
| "accepted _ _ = []"

lemma gate_run_passes:
  "tick_ok g \<Longrightarrow> list_all tick_ok ts \<Longrightarrow>
   gate_run debug FREQ g ts = Returns (passes (sint FREQ) g ts, last (g # accepted ts (passes (sint FREQ) g ts)))"
proof (induction ts arbitrary: g)
  case (Cons t ts)
  have "sint FREQ \<le> sint t - sint g \<longleftrightarrow> sint g + sint FREQ \<le> sint t" by linarith
  then show ?case using Cons by (simp add: gate_ok)
qed simp

lemma length_passes: "length (passes f g ts) = length ts"
  by (induction ts arbitrary: g) simp_all

lemma successively_accepted: "successively (\<lambda>a b. sint a + f \<le> sint b) (g # accepted ts (passes f g ts))"
  by (induction ts arbitrary: g) simp_all

lemma passes_nth:
  "i < length ts \<Longrightarrow>
   passes f g ts ! i \<longleftrightarrow> sint (last (g # accepted (take i ts) (take i (passes f g ts)))) + f \<le> sint (ts ! i)"
proof (induction ts arbitrary: g i)
  case (Cons t ts)
  show ?case
  proof (cases i)
    case (Suc j)
    then show ?thesis using Cons.IH [of j t] Cons.IH [of j g] Cons.prems by (cases "sint g + f \<le> sint t") simp_all
  qed simp
qed simp

text \<open>
  C36: Calls with time stamps of less than \<open>2 ^ 62\<close> in magnitude, in any order: no build panics, all
  give the same answers, the times that pass are spaced by at least \<open>FREQ\<close> beginning with the
  initial one, the last of them is what the gate remembers, and a time is refused only if it is
  less than \<open>FREQ\<close> after the last one that passed.
\<close>

theorem gate_rate_limit:
  assumes "tick_ok g" and "list_all tick_ok ts"
  shows "\<exists>bs. gate_run debug FREQ g ts = Returns (bs, last (g # accepted ts bs))
    \<and> length bs = length ts
    \<and> successively (\<lambda>a b. sint a + sint FREQ \<le> sint b) (g # accepted ts bs)
    \<and> (\<forall>i < length ts. bs ! i \<longleftrightarrow>
        sint (last (g # accepted (take i ts) (take i bs))) + sint FREQ \<le> sint (ts ! i))"
  using gate_run_passes [OF assms] length_passes successively_accepted passes_nth by blast

theorem gate_rate_limit_witness:
  "\<exists>bs. gate_run True 10 gate_default [0, 9, 10, 5, 25] = Returns (bs, 25) \<and> bs = [True, False, True, False, True]"
proof -
  have ok: "tick_ok gate_default" "list_all tick_ok [0, 9, 10, 5, 25]"
    by (simp_all add: tick_ok_def gate_default_def gate_never)
  have "gate_run True 10 gate_default [0, 9, 10, 5, 25] = Returns ([True, False, True, False, True], 25)"
    unfolding gate_run_passes [OF ok] by (simp add: gate_default_def gate_never)
  with gate_rate_limit [OF ok, of True 10] show ?thesis by auto
qed

end
