(* ===== verification/Memory.thy ===== *)
theory Memory
  imports Slots Sockaddr
begin

text \<open>
  The helpers of \<open>src/memory.rs\<close> that reinterpret memory. An object is the list of its bytes, with
  a padding byte as an empty slot, whose reading is undefined; a reference into an array is the
  part of the array it covers.
\<close>

section \<open>Operations\<close>

text \<open>The closure of \<open>array_chunks_exact\<close>: the captured index \<open>i\<close>, the slice and its length. The
  chunk is read without a bounds check.\<close>

definition array_at :: "'a list \<Rightarrow> nat \<Rightarrow> nat \<Rightarrow> 'a list outcome" where
  "array_at a start n = (if start + n \<le> length a then Returns (get_region start n a) else Undefined)"

definition chunks_next :: "bool \<Rightarrow> nat \<Rightarrow> 'a list \<Rightarrow> nat \<Rightarrow> ('a list option \<times> nat) outcome" where
  "chunks_next debug S a i =
     obind (usize_add debug i S) (\<lambda>j.
       if j \<le> length a then obind (array_at a i S) (\<lambda>next. Returns (Some next, j))
       else Returns (None, i))"

text \<open>All chunks that the iterator yields; \<open>None\<close> if it never ends.\<close>

partial_function (option) chunks_collect :: "bool \<Rightarrow> nat \<Rightarrow> 'a list \<Rightarrow> nat \<Rightarrow> 'a list list outcome option" where
  "chunks_collect debug S a i =
     (case chunks_next debug S a i of
        Returns (None, i') \<Rightarrow> Some (Returns [])
      | Returns (Some c, i') \<Rightarrow>
          Option.bind (chunks_collect debug S a i') (\<lambda>r. Some (obind r (\<lambda>cs. Returns (c # cs))))
      | Panics \<Rightarrow> Some Panics
      | Undefined \<Rightarrow> Some Undefined)"

definition array_chunks_exact :: "bool \<Rightarrow> nat \<Rightarrow> 'a list \<Rightarrow> 'a list list outcome option" where
  "array_chunks_exact debug S a = chunks_collect debug S a 0"

text \<open>\<open>array_range\<close> of an array of \<open>S\<close> elements.\<close>

definition array_range :: "bool \<Rightarrow> nat \<Rightarrow> nat \<Rightarrow> 'a list \<Rightarrow> 'a list outcome" where
  "array_range debug START LEN a =
     obind (usize_add debug START LEN) (\<lambda>e.
     obind (assert_that (e \<le> length a)) (\<lambda>_. array_at a START LEN))"

type_synonym object = "u8 slots"

definition as_byte_array :: "nat \<Rightarrow> object \<Rightarrow> u8 list outcome" where
  "as_byte_array S obj = obind (assert_that (S \<le> length obj)) (\<lambda>_. slots_view obj S)"

text \<open>Writing through \<open>as_byte_array_mut\<close>: the first \<open>S\<close> bytes of the object are replaced.\<close>

definition as_byte_array_mut :: "nat \<Rightarrow> u8 list \<Rightarrow> object \<Rightarrow> object outcome" where
  "as_byte_array_mut S new obj =
     obind (assert_that (S \<le> length obj)) (\<lambda>_. Returns (put_region 0 (map Some (take S new)) obj))"

definition to_byte_array :: "nat \<Rightarrow> bool \<Rightarrow> object \<Rightarrow> u8 list outcome" where
  "to_byte_array S needs_drop obj =
     obind (assert_that (S = length obj)) (\<lambda>_.
     obind (assert_that (\<not> needs_drop)) (\<lambda>_. slots_view obj S))"

text \<open>
  \<open>cast_to_struct\<close> for a struct of \<open>size\<close> bytes; the slice begins at address \<open>addr\<close>. A reference
  that is not aligned is undefined behaviour, which the trait \<open>FlatBuffer\<close> rules out by requiring
  an alignment of one.
\<close>

definition cast_to_struct :: "nat \<Rightarrow> nat \<Rightarrow> bool \<Rightarrow> nat \<Rightarrow> u8 list \<Rightarrow> object outcome" where
  "cast_to_struct size_T align needs_drop addr b =
     obind (assert_that (length b \<ge> size_T)) (\<lambda>_.
     obind (assert_that (\<not> needs_drop)) (\<lambda>_.
       if addr mod align = 0 then Returns (map Some (take size_T b)) else Undefined))"

definition ip_octets_ref :: "ip_addr \<Rightarrow> u8 list" where
  "ip_octets_ref sa = (case sa of Ipv4Addr ip4 \<Rightarrow> ip4 | Ipv6Addr ip6 \<Rightarrow> ip6)"

section \<open>Chunks\<close>

text \<open>The chunks of \<open>n\<close> elements a list consists of.\<close>

fun chunk_list :: "nat \<Rightarrow> nat \<Rightarrow> 'a list \<Rightarrow> 'a list list" where
  "chunk_list 0 n xs = []"
| "chunk_list (Suc k) n xs = take n xs # chunk_list k n (drop n xs)"

lemma chunk_list_spec:
  "k * n \<le> length xs \<Longrightarrow> length (chunk_list k n xs) = k \<and> list_all (\<lambda>c. length c = n) (chunk_list k n xs)
     \<and> concat (chunk_list k n xs) = take (k * n) xs"
  by (induction k n xs rule: chunk_list.induct) (simp_all add: take_add)

lemma chunks_next_in:
  assumes "i + S < 2 ^ 64"
  shows "chunks_next debug S a i =
    Returns (if i + S \<le> length a then (Some (take S (drop i a)), i + S) else (None, i))"
  using assms by (simp add: chunks_next_def usize_add_def array_at_def get_region_def)

lemma chunks_collect_list:
  assumes "0 < S" and "S < 2 ^ 64" and "length a < 2 ^ 63"
  shows "i \<le> length a \<Longrightarrow> i = 0 \<or> S \<le> length a \<Longrightarrow>
    chunks_collect debug S a i = Some (Returns (chunk_list ((length a - i) div S) S (drop i a)))"
proof (induction "length a - i" arbitrary: i rule: less_induct)
  case less
  have "i + S < 2 ^ 64" using less.prems assms by auto
  note nx = chunks_next_in [OF this, of debug a]
  show ?case
  proof (cases "i + S \<le> length a")
    case True
    then have "(length a - i) div S = Suc ((length a - (i + S)) div S)"
      using assms(1) by (simp add: le_div_geq)
    moreover have "chunks_collect debug S a (i + S)
        = Some (Returns (chunk_list ((length a - (i + S)) div S) S (drop (i + S) a)))"
      using True assms(1) by (intro less.hyps) simp_all
    ultimately show ?thesis
      using True nx by (simp add: chunks_collect.simps [of debug S a i] add.commute)
  next
    case False
    then have "(length a - i) div S = 0" using less.prems(1) by (intro div_less) linarith
    then show ?thesis using False nx by (simp add: chunks_collect.simps [of debug S a i])
  qed
qed

lemma chunks_zero:
  assumes "chunks_collect debug S a i = Some r"
  shows "\<not> (S = 0 \<and> i \<le> length a \<and> length a < 2 ^ 64)"
proof (rule chunks_collect.raw_induct [where P = "\<lambda>debug S a i r. \<not> (S = 0 \<and> i \<le> length a \<and> length a < 2 ^ 64)", OF _ assms])
  fix f debug S i r and a :: "'a list"
  assume IH: "\<And>debug S a i r. f debug S a i = Some r \<Longrightarrow> \<not> (S = 0 \<and> i \<le> length (a :: 'a list) \<and> length a < 2 ^ 64)"
    and eq: "(case chunks_next debug S a i of
        Returns (None, i') \<Rightarrow> Some (Returns [])
      | Returns (Some c, i') \<Rightarrow> Option.bind (f debug S a i') (\<lambda>r. Some (obind r (\<lambda>cs. Returns (c # cs))))
      | Panics \<Rightarrow> Some Panics | Undefined \<Rightarrow> Some Undefined) = Some r"
  show "\<not> (S = 0 \<and> i \<le> length a \<and> length a < 2 ^ 64)"
  proof
    assume z: "S = 0 \<and> i \<le> length a \<and> length a < 2 ^ 64"
    then have "chunks_next debug S a i = Returns (Some [], i)" by (simp add: chunks_next_in)
    then show False using eq IH [of debug S a i] z by (auto split: bind_splits)
  qed
qed

text \<open>
  \<open>array_chunks_exact\<close> yields, in order, as many chunks of exactly \<open>S\<close> elements as fit, leaves the
  rest out, stays inside the slice and never panics; with \<open>S = 0\<close> it never ends.
\<close>

theorem array_chunks_spec:
  assumes "length a < 2 ^ 63" and "S < 2 ^ 64"
  shows "if S = 0 then array_chunks_exact debug S a = None
    else \<exists>cs. array_chunks_exact debug S a = Some (Returns cs) \<and> length cs = length a div S
      \<and> list_all (\<lambda>c. length c = S) cs \<and> concat cs @ drop (length a div S * S) a = a"
proof (cases "S = 0")
  case True
  then show ?thesis
    using chunks_zero [of debug 0 a 0] assms by (cases "chunks_collect debug 0 a 0") (auto simp: array_chunks_exact_def)
next
  case False
  have "length a div S * S \<le> length a" by simp
  then show ?thesis
    using False chunks_collect_list [of S a 0 debug] assms chunk_list_spec [of "length a div S" S a]
    by (simp add: array_chunks_exact_def)
qed

theorem array_chunks_spec_witness:
  "array_chunks_exact True 0 [1 :: nat, 2, 3] = None
   \<and> (\<exists>cs. array_chunks_exact False 2 [1 :: nat, 2, 3, 4, 5] = Some (Returns cs) \<and> length cs = 2)"
  using array_chunks_spec [of "[1 :: nat, 2, 3]" 0 True] array_chunks_spec [of "[1 :: nat, 2, 3, 4, 5]" 2 False]
  by auto

section \<open>Ranges and casts\<close>

lemma array_range_spec:
  assumes "length a < 2 ^ 64"
  shows "array_range debug START LEN a =
    (if START + LEN \<le> length a then Returns (get_region START LEN a)
     else if START + LEN < 2 ^ 64 \<or> debug then Panics
     else if (START + LEN) mod 2 ^ 64 \<le> length a then Undefined else Panics)"
  using assms by (simp add: array_range_def usize_add_def array_at_def)

text \<open>The bytes of an object without padding are a view of it, whatever their number, and a byte
  slice cast to a struct and back is the front of the slice.\<close>

lemma view_map_Some: "n \<le> length bs \<Longrightarrow> slots_view (map Some bs) n = Returns (take n bs)"
  using filled_view [of "map Some bs" "take n bs"] by (simp add: filled_def take_map)

text \<open>
  The casts check sizes before they reinterpret anything: a byte view of at most the object's size
  is its front, a longer one panics; casting bytes to a struct and back gives the front of the
  bytes, and a slice that is too short panics. An alignment other than one is needed for anything
  undefined to happen.
\<close>

theorem byte_casts:
  "as_byte_array S (map Some bs) = (if S \<le> length bs then Returns (take S bs) else Panics)
   \<and> to_byte_array S False (map Some bs) = (if S = length bs then Returns bs else Panics)
   \<and> obind (cast_to_struct size_T 1 needs_drop addr b) (as_byte_array size_T)
     = (if size_T \<le> length b then (if needs_drop then Panics else Returns (take size_T b)) else Panics)
   \<and> (if S \<le> length bs
      then obind (as_byte_array_mut S (take S new) (map Some bs)) (as_byte_array (length bs))
         = Returns (take S new @ drop (length (take S new)) bs)
      else as_byte_array_mut S (take S new) (map Some bs) = Panics)"
proof -
  have "slots_view (map Some (take S new) @ drop (length (take S new)) (map Some bs)) (length bs)
      = Returns (take S new @ drop (length (take S new)) bs)" if "S \<le> length bs"
    using view_map_Some [of "length bs" "take S new @ drop (length (take S new)) bs"] that by (simp add: drop_map)
  then show ?thesis
    by (simp add: as_byte_array_def to_byte_array_def cast_to_struct_def as_byte_array_mut_def view_map_Some
        put_region_def assert_that_def)
qed

end
