(* ===== verification/Runtime.thy ===== *)
theory Runtime
  imports Slots Gate
begin

text \<open>
  The functions of \<open>src/lib.rs\<close> that keep no state: the system clock, allocation of arrays, the
  helpers for serialization and the wait for a signal. The clock, the allocator and the signals
  are parameters.
\<close>

section \<open>Sequential functions\<close>

text \<open>\<open>ms_since_epoch\<close>, for a system clock that shows \<open>now\<close> nanoseconds since the epoch, which is
  negative before 1970; the 128 bit number of milliseconds is truncated to \<open>i64\<close>.\<close>

definition ms_since_epoch :: "int \<Rightarrow> i64 outcome" where
  "ms_since_epoch now = (if now < 0 then Panics else Returns (word_of_int (now div 1000000)))"

definition slice_is_empty :: "'a list \<Rightarrow> bool" where
  "slice_is_empty s = (s = [])"

definition is_default :: "'v \<Rightarrow> ('v \<Rightarrow> 'v \<Rightarrow> bool) \<Rightarrow> 'v \<Rightarrow> bool" where
  "is_default default_value eq v = eq default_value v"

text \<open>
  \<open>alloc_array\<close> and \<open>alloc_array_with\<close> for an element type of \<open>size_T\<close> bytes. \<open>alloc\<close> may
  return null; to call it for a layout of no bytes is undefined. The generator has a state and may
  panic.
\<close>

fun init_loop :: "('s \<Rightarrow> nat \<Rightarrow> ('a \<times> 's) outcome) \<Rightarrow> 's \<Rightarrow> nat \<Rightarrow> nat \<Rightarrow> 'a slots \<Rightarrow> ('a slots \<times> 's) outcome" where
  "init_loop f st i 0 mem = Returns (mem, st)"
| "init_loop f st i (Suc n) mem =
     obind (f st i) (\<lambda>(x, st'). obind (slot_write mem i x) (\<lambda>mem'. init_loop f st' (i + 1) n mem'))"

definition alloc_array_with ::
  "bool \<Rightarrow> nat \<Rightarrow> nat \<Rightarrow> ('s \<Rightarrow> nat \<Rightarrow> ('a \<times> 's) outcome) \<Rightarrow> 's \<Rightarrow> 'a list option outcome" where
  "alloc_array_with alloc_ok size_T N f st =
     (if size_T * N = 0 then Undefined
      else if \<not> alloc_ok then Returns None
      else obind (init_loop f st 0 N (replicate N None)) (\<lambda>(mem, st').
           obind (slots_view mem N) (\<lambda>xs. Returns (Some xs))))"

fun fill_loop :: "'a \<Rightarrow> nat \<Rightarrow> nat \<Rightarrow> 'a slots \<Rightarrow> 'a slots outcome" where
  "fill_loop x i 0 mem = Returns mem"
| "fill_loop x i (Suc n) mem = obind (slot_write mem i x) (\<lambda>mem'. fill_loop x (i + 1) n mem')"

definition alloc_array :: "bool \<Rightarrow> nat \<Rightarrow> nat \<Rightarrow> 'a \<Rightarrow> 'a list option outcome" where
  "alloc_array alloc_ok size_T N initial_value =
     (if size_T * N = 0 then Undefined
      else if \<not> alloc_ok then Returns None
      else obind (fill_loop initial_value 0 N (replicate N None)) (\<lambda>mem.
           obind (slots_view mem N) (\<lambda>xs. Returns (Some xs))))"

text \<open>The values of a generator, and the panic of one of its calls.\<close>

fun gen_list :: "('s \<Rightarrow> nat \<Rightarrow> ('a \<times> 's) outcome) \<Rightarrow> 's \<Rightarrow> nat \<Rightarrow> nat \<Rightarrow> 'a list outcome" where
  "gen_list f st i 0 = Returns []"
| "gen_list f st i (Suc n) =
     obind (f st i) (\<lambda>(x, st'). obind (gen_list f st' (i + 1) n) (\<lambda>xs. Returns (x # xs)))"

lemma init_loop_gen:
  "filled mem ys \<Longrightarrow> length ys = i \<Longrightarrow> length mem = i + n \<Longrightarrow>
   obind (init_loop f st i n mem) (\<lambda>(mem, st'). slots_view mem (i + n))
   = obind (gen_list f st i n) (\<lambda>xs. Returns (ys @ xs))"
proof (induction n arbitrary: mem ys i st)
  case 0
  then show ?case using filled_view [of mem ys] by simp
next
  case (Suc n)
  show ?case
  proof (cases "f st i")
    case (Returns r)
    obtain x st' where r: "r = (x, st')" by (cases r)
    have "filled (mem[i := Some x]) (ys @ [x])" using filled_snoc [of mem ys x] Suc.prems by simp
    from Suc.IH [OF this, of "i + 1" st'] show ?thesis
      using Suc.prems by (simp add: Returns r slot_write_def obind_assoc)
  qed simp_all
qed

lemma fill_loop_init: "fill_loop x i n mem = obind (init_loop (\<lambda>_ _. Returns (x, ())) () i n mem) (\<lambda>(mem, st). Returns mem)"
proof (induction n arbitrary: i mem)
  case (Suc n)
  then show ?case by (cases "slot_write mem i x") simp_all
qed simp

lemma gen_list_const: "gen_list (\<lambda>_ _. Returns (x, ())) () i n = Returns (replicate n x)"
  by (induction n arbitrary: i) simp_all

lemma init_view:
  "obind (init_loop f st 0 N (replicate N None)) (\<lambda>(mem, st'). obind (slots_view mem N) k) = obind (gen_list f st 0 N) k"
proof -
  have "obind (init_loop f st 0 N (replicate N None)) (\<lambda>(mem, st'). obind (slots_view mem N) k)
      = obind (obind (init_loop f st 0 N (replicate N None)) (\<lambda>(mem, st'). slots_view mem N)) k"
    by (cases "init_loop f st 0 N (replicate N None)") auto
  then show ?thesis
    using init_loop_gen [of "replicate N None" "[]" 0 N f st] by (cases "gen_list f st 0 N") simp_all
qed

lemma fill_view:
  "obind (fill_loop x 0 N (replicate N None)) (\<lambda>mem. obind (slots_view mem N) k) = k (replicate N x)"
  using init_view [of "\<lambda>_ _. Returns (x, ())" "()" N k]
  by (cases "init_loop (\<lambda>_ _. Returns (x, ())) () 0 N (replicate N None)") (auto simp: fill_loop_init gen_list_const)

text \<open>
  Both functions initialise every element before the box is built: \<open>alloc_array_with\<close> returns what
  the generator produces for \<open>0\<close> to \<open>N - 1\<close> in this order, and \<open>alloc_array\<close> is the constant case.
  They return \<open>None\<close> if the allocation fails; for an array of no bytes the call of the allocator
  is undefined.
\<close>

theorem alloc_array_gen:
  "alloc_array_with alloc_ok size_T N f st =
     (if size_T * N = 0 then Undefined else if alloc_ok then obind (gen_list f st 0 N) (\<lambda>xs. Returns (Some xs)) else Returns None)
   \<and> alloc_array alloc_ok size_T N x =
     (if size_T * N = 0 then Undefined else if alloc_ok then Returns (Some (replicate N x)) else Returns None)"
  by (simp add: alloc_array_with_def alloc_array_def init_view fill_view gen_list_const)

section \<open>Waiting for a signal\<close>

definition SIGINT :: int where "SIGINT = 2"
definition SIGQUIT :: int where "SIGQUIT = 3"
definition SIGTERM :: int where "SIGTERM = 15"

text \<open>The inner loop over the signals that one \<open>wait\<close> returned: does it leave the outer loop?\<close>

fun batch_exits :: "int list \<Rightarrow> bool" where
  "batch_exits [] = False"
| "batch_exits (s # ss) = (if s = SIGINT \<or> s = SIGTERM \<or> s = SIGQUIT then True else batch_exits ss)"

text \<open>
  The outer loop; \<open>wait i\<close> is what call number \<open>i\<close> of \<open>Signals::wait\<close> returns. The result is the
  number of pauses of 100 ms; \<open>None\<close> means that the loop never ends.
\<close>

partial_function (option) wait_for_exit :: "(nat \<Rightarrow> int list) \<Rightarrow> nat \<Rightarrow> nat option" where
  "wait_for_exit wait i = (if batch_exits (wait i) then Some i else wait_for_exit wait (i + 1))"

definition wait_for_process_abort :: "bool \<Rightarrow> (nat \<Rightarrow> int list) \<Rightarrow> nat outcome option" where
  "wait_for_process_abort registered wait =
     (if registered then map_option Returns (wait_for_exit wait 0) else Some Panics)"

lemma batch_exits_iff: "batch_exits ss \<longleftrightarrow> set ss \<inter> {SIGINT, SIGTERM, SIGQUIT} \<noteq> {}"
  by (induction ss) auto

lemma wait_for_exit_some:
  "batch_exits (wait (i + n)) \<Longrightarrow> (\<forall>k < n. \<not> batch_exits (wait (i + k))) \<Longrightarrow> wait_for_exit wait i = Some (i + n)"
proof (induction n arbitrary: i)
  case (Suc n)
  have "\<not> batch_exits (wait i)" using Suc.prems(2) by (metis add_0_right zero_less_Suc)
  moreover have "wait_for_exit wait (i + 1) = Some (i + 1 + n)"
    using Suc.prems by (intro Suc.IH) auto
  ultimately show ?case by (subst wait_for_exit.simps) simp
qed (simp add: wait_for_exit.simps)

lemma wait_for_exit_none:
  assumes "wait_for_exit wait i = Some n"
  shows "\<exists>k. batch_exits (wait k)"
proof (rule wait_for_exit.raw_induct [where P = "\<lambda>wait i n. \<exists>k. batch_exits (wait k)", OF _ assms])
  fix f i n and wait :: "nat \<Rightarrow> int list"
  assume "\<And>wait i n. f wait i = Some n \<Longrightarrow> \<exists>k. batch_exits (wait k)"
    and "(if batch_exits (wait i) then Some i else f wait (i + 1)) = Some n"
  then show "\<exists>k. batch_exits (wait k)" by (auto split: if_splits)
qed

text \<open>
  Once listening, \<open>wait_for_process_abort\<close> returns exactly if one of the three signals ever
  arrives, right after the first \<open>wait\<close> that delivers one, however many others came before; if
  none arrives it never returns, and if the signals cannot be registered it panics.
\<close>

theorem wait_abort_spec:
  "wait_for_process_abort registered wait =
     (if \<not> registered then Some Panics
      else if \<exists>i. set (wait i) \<inter> {SIGINT, SIGTERM, SIGQUIT} \<noteq> {}
      then Some (Returns (LEAST i. set (wait i) \<inter> {SIGINT, SIGTERM, SIGQUIT} \<noteq> {}))
      else None)"
proof (cases "\<exists>i. batch_exits (wait i)")
  case True
  let ?n = "LEAST i. batch_exits (wait i)"
  have "batch_exits (wait (0 + ?n))" using True by (auto intro: LeastI_ex)
  moreover have "\<forall>k < ?n. \<not> batch_exits (wait (0 + k))" using not_less_Least by auto
  ultimately have "wait_for_exit wait 0 = Some (0 + ?n)" by (rule wait_for_exit_some)
  then show ?thesis using True by (simp add: wait_for_process_abort_def batch_exits_iff)
next
  case False
  then have "wait_for_exit wait 0 = None" using wait_for_exit_none [of wait 0] by (cases "wait_for_exit wait 0") auto
  then show ?thesis using False by (simp add: wait_for_process_abort_def batch_exits_iff)
qed

end
