(* ===== verification/Statics.thy ===== *)
theory Statics
  imports Prelude Threads
begin

text \<open>
  The two functions of \<open>src/lib.rs\<close> that keep a static variable, \<open>ms_monotonic\<close> and
  \<open>parallelism\<close>. All threads share the variable, so each function is a step of one thread on the
  shared state and the program counters of all threads, and the runs are all interleavings.
\<close>

section \<open>The monotonic clock\<close>

text \<open>
  The clock counts nanoseconds. \<open>startup\<close> is what the lock protects, \<open>holder\<close> the thread that
  holds the write lock; a read guard lives for one statement only, which copies the value. The
  history lists the times at which calls returned, and what they returned.
\<close>

datatype ms_pc =
    Start
  | HasRead "nat option"
  | Writing
  | WritingAt nat
  | WritingSet nat
  | Finished i64

record mono_state =
  clock :: nat
  startup :: "nat option"
  holder :: "nat option"
  pcs :: "ms_pc list"
  history :: "(nat \<times> i64) list"

text \<open>\<open>elapsed().as_millis() as i64\<close>; the difference of instants saturates at zero.\<close>

definition elapsed_ms :: "nat \<Rightarrow> nat \<Rightarrow> i64" where
  "elapsed_ms now si = of_nat ((now - si) div 1000000)"

definition ms_return :: "nat \<Rightarrow> nat \<Rightarrow> mono_state \<Rightarrow> mono_state" where
  "ms_return t si s =
     (let r = elapsed_ms (clock s) si in
      s\<lparr>pcs := (pcs s)[t := Finished r], history := history s @ [(clock s, r)]\<rparr>)"

text \<open>One step of thread \<open>t\<close>; \<open>None\<close> where it has to wait for the lock or has returned.\<close>

definition ms_thread_step :: "nat \<Rightarrow> mono_state \<Rightarrow> mono_state option" where
  "ms_thread_step t s =
     (case pcs s ! t of
        Start \<Rightarrow> if holder s = None then Some (s\<lparr>pcs := (pcs s)[t := HasRead (startup s)]\<rparr>) else None
      | HasRead (Some si) \<Rightarrow> Some (ms_return t si s)
      | HasRead None \<Rightarrow>
          if holder s = None then Some (s\<lparr>holder := Some t, pcs := (pcs s)[t := Writing]\<rparr>) else None
      | Writing \<Rightarrow> Some (s\<lparr>pcs := (pcs s)[t := WritingAt (clock s)]\<rparr>)
      | WritingAt now \<Rightarrow>
          (let si = (case startup s of None \<Rightarrow> now | Some si \<Rightarrow> si) in
           Some (s\<lparr>startup := Some si, pcs := (pcs s)[t := WritingSet si]\<rparr>))
      | WritingSet si \<Rightarrow> Some ((ms_return t si s)\<lparr>holder := None\<rparr>)
      | Finished _ \<Rightarrow> None)"

text \<open>Time passes, a thread makes a step, or a thread that has returned calls again.\<close>

inductive ms_step :: "mono_state \<Rightarrow> mono_state \<Rightarrow> bool" where
  tick: "clock s \<le> c \<Longrightarrow> ms_step s (s\<lparr>clock := c\<rparr>)"
| run: "t < length (pcs s) \<Longrightarrow> ms_thread_step t s = Some s' \<Longrightarrow> ms_step s s'"
| again: "t < length (pcs s) \<Longrightarrow> pcs s ! t = Finished r \<Longrightarrow> ms_step s (s\<lparr>pcs := (pcs s)[t := Start]\<rparr>)"

definition ms_init :: "nat \<Rightarrow> nat \<Rightarrow> mono_state" where
  "ms_init n now = \<lparr>clock = now, startup = None, holder = None, pcs = replicate n Start, history = []\<rparr>"

definition ms_reachable :: "nat \<Rightarrow> nat \<Rightarrow> mono_state \<Rightarrow> bool" where
  "ms_reachable n now s \<longleftrightarrow> ms_step\<^sup>*\<^sup>* (ms_init n now) s"

subsection \<open>The invariant\<close>

fun writing :: "ms_pc \<Rightarrow> bool" where
  "writing Writing = True"
| "writing (WritingAt now) = True"
| "writing (WritingSet si) = True"
| "writing _ = False"

text \<open>What the program counter of a thread says about the shared state.\<close>

fun pc_ok :: "nat \<Rightarrow> nat option \<Rightarrow> ms_pc \<Rightarrow> bool" where
  "pc_ok now start (HasRead (Some si)) = (start = Some si)"
| "pc_ok now start (WritingAt w) = (w \<le> now)"
| "pc_ok now start (WritingSet si) = (start = Some si)"
| "pc_ok now start _ = True"

definition history_ok :: "nat \<Rightarrow> nat option \<Rightarrow> (nat \<times> i64) list \<Rightarrow> bool" where
  "history_ok now start h \<longleftrightarrow> sorted (map fst h)
     \<and> (\<forall>(c, r) \<in> set h. c \<le> now \<and> (\<exists>si. start = Some si \<and> si \<le> c \<and> r = elapsed_ms c si))"

definition ms_inv :: "mono_state \<Rightarrow> bool" where
  "ms_inv s \<longleftrightarrow>
     (\<forall>t < length (pcs s). pc_ok (clock s) (startup s) (pcs s ! t) \<and> (writing (pcs s ! t) \<longleftrightarrow> holder s = Some t))
     \<and> (\<forall>t. holder s = Some t \<longrightarrow> t < length (pcs s))
     \<and> (\<forall>si. startup s = Some si \<longrightarrow> si \<le> clock s)
     \<and> history_ok (clock s) (startup s) (history s)"

lemma history_ok_mono: "history_ok now start h \<Longrightarrow> now \<le> now' \<Longrightarrow> history_ok now' start h"
  by (fastforce simp: history_ok_def)

lemma history_ok_snoc:
  "history_ok now (Some si) h \<Longrightarrow> si \<le> now \<Longrightarrow> history_ok now (Some si) (h @ [(now, elapsed_ms now si)])"
  by (auto simp: history_ok_def sorted_append)

lemma pc_ok_mono: "pc_ok now start pc \<Longrightarrow> now \<le> now' \<Longrightarrow> pc_ok now' start pc"
  by (cases "(now, start, pc)" rule: pc_ok.cases) auto

text \<open>What a step of a thread changes: its own program counter, and the rest as the cases say.\<close>

lemma ms_inv_update:
  assumes "ms_inv s" and "t < length (pcs s)"
    and "pcs s' = (pcs s)[t := pc]" and "clock s' = clock s"
    and "\<And>si. startup s = Some si \<Longrightarrow> startup s' = Some si"
    and "\<And>si. startup s' = Some si \<Longrightarrow> si \<le> clock s"
    and "pc_ok (clock s) (startup s') pc"
    and "writing pc \<longleftrightarrow> holder s' = Some t"
    and "holder s' = holder s \<or> holder s = None \<and> holder s' = Some t \<or> holder s = Some t \<and> holder s' = None"
    and "history_ok (clock s) (startup s') (history s')"
  shows "ms_inv s'"
proof -
  have keep: "pc_ok (clock s) (startup s') (pcs s ! u)" if "u < length (pcs s)" for u
    using assms(1,5) that by (cases "(clock s, startup s, pcs s ! u)" rule: pc_ok.cases) (auto simp: ms_inv_def)
  have "writing (pcs s ! u) \<longleftrightarrow> holder s' = Some u" if "u < length (pcs s)" "u \<noteq> t" for u
    using assms(1,9) that by (auto simp: ms_inv_def)
  then show ?thesis
    using assms keep by (auto simp: ms_inv_def nth_list_update)
qed

lemma ms_thread_step_inv:
  assumes "ms_inv s" and "t < length (pcs s)" and "ms_thread_step t s = Some s'"
  shows "ms_inv s'"
proof -
  have pc: "pc_ok (clock s) (startup s) (pcs s ! t)" "writing (pcs s ! t) \<longleftrightarrow> holder s = Some t"
    and st: "\<And>si. startup s = Some si \<Longrightarrow> si \<le> clock s" and h: "history_ok (clock s) (startup s) (history s)"
    using assms(1,2) by (auto simp: ms_inv_def)
  note upd = ms_inv_update [OF assms(1,2)]
  show ?thesis
  proof (cases "pcs s ! t")
    case Start
    then have s': "holder s = None" "s' = s\<lparr>pcs := (pcs s)[t := HasRead (startup s)]\<rparr>"
      using assms(3) by (auto simp: ms_thread_step_def split: if_splits)
    show ?thesis using s' st h by (intro upd [of _ "HasRead (startup s)"]) (cases "startup s"; simp)+
  next
    case (HasRead v)
    show ?thesis
    proof (cases v)
      case None
      then have s': "holder s = None" "s' = s\<lparr>holder := Some t, pcs := (pcs s)[t := Writing]\<rparr>"
        using assms(3) HasRead by (auto simp: ms_thread_step_def split: if_splits)
      show ?thesis using s' st h by (intro upd [of _ Writing]) simp_all
    next
      case (Some si)
      then have s': "startup s = Some si" "holder s \<noteq> Some t" "s' = ms_return t si s"
        using assms(3) HasRead pc by (auto simp: ms_thread_step_def)
      show ?thesis
        using s' st h history_ok_snoc [of "clock s" si "history s"]
        by (intro upd [of _ "Finished (elapsed_ms (clock s) si)"]) (simp_all add: ms_return_def Let_def)
    qed
  next
    case Writing
    then have s': "holder s = Some t" "s' = s\<lparr>pcs := (pcs s)[t := WritingAt (clock s)]\<rparr>"
      using assms(3) pc by (auto simp: ms_thread_step_def)
    show ?thesis using s' st h by (intro upd [of _ "WritingAt (clock s)"]) simp_all
  next
    case (WritingAt w)
    define si where "si = (case startup s of None \<Rightarrow> w | Some si \<Rightarrow> si)"
    have s': "holder s = Some t" "s' = s\<lparr>startup := Some si, pcs := (pcs s)[t := WritingSet si]\<rparr>"
      using assms(3) pc WritingAt by (auto simp: ms_thread_step_def si_def Let_def)
    have "si \<le> clock s" using pc WritingAt st by (auto simp: si_def split: option.split)
    moreover have "history_ok (clock s) (Some si) (history s)"
      using h by (cases "startup s") (auto simp: history_ok_def si_def)
    ultimately show ?thesis
      using s' by (intro upd [of _ "WritingSet si"]) (simp_all add: si_def)
  next
    case (WritingSet si)
    then have s': "startup s = Some si" "holder s = Some t" "s' = (ms_return t si s)\<lparr>holder := None\<rparr>"
      using assms(3) pc by (auto simp: ms_thread_step_def)
    show ?thesis
      using s' st h history_ok_snoc [of "clock s" si "history s"]
      by (intro upd [of _ "Finished (elapsed_ms (clock s) si)"]) (simp_all add: ms_return_def Let_def)
  qed (use assms(3) in \<open>simp add: ms_thread_step_def\<close>)
qed

lemma ms_invD:
  assumes "ms_inv s"
  shows "t < length (pcs s) \<Longrightarrow> pc_ok (clock s) (startup s) (pcs s ! t)"
    and "t < length (pcs s) \<Longrightarrow> writing (pcs s ! t) \<longleftrightarrow> holder s = Some t"
    and "holder s = Some t \<Longrightarrow> t < length (pcs s)"
    and "startup s = Some si \<Longrightarrow> si \<le> clock s"
    and "history_ok (clock s) (startup s) (history s)"
  using assms unfolding ms_inv_def by blast+

lemma ms_step_inv: "ms_step s s' \<Longrightarrow> ms_inv s \<Longrightarrow> ms_inv s'"
proof (induction rule: ms_step.induct)
  case (tick s c)
  note inv = ms_invD [OF tick(2)]
  have "pc_ok c (startup s) (pcs s ! t)" if "t < length (pcs s)" for t
    by (rule pc_ok_mono [OF inv(1) [OF that] tick(1)])
  moreover have "history_ok c (startup s) (history s)" by (rule history_ok_mono [OF inv(5) tick(1)])
  moreover have "si \<le> c" if "startup s = Some si" for si
    using inv(4) [OF that] tick(1) by (rule le_trans)
  moreover have "\<forall>t. holder s = Some t \<longrightarrow> t < length (pcs s)" using inv(3) by blast
  ultimately show ?case using inv(2) unfolding ms_inv_def by simp
next
  case (run t s s')
  then show ?case by (blast intro: ms_thread_step_inv)
next
  case (again t s r)
  note inv = ms_invD [OF again(3)]
  have "writing (pcs s ! t) = False" using again(2) by simp
  then have "holder s \<noteq> Some t" using inv(2) [OF again(1)] by simp
  then show ?case using inv(4,5) by (intro ms_inv_update [OF again(3,1), of _ Start]) simp_all
qed

lemma ms_reachable_inv: "ms_reachable n now s \<Longrightarrow> ms_inv s"
  unfolding ms_reachable_def
proof (induction rule: rtranclp_induct)
  case base
  then show ?case by (simp add: ms_inv_def ms_init_def history_ok_def)
qed (rule ms_step_inv)

lemma elapsed_ms_sint:
  assumes "c < 2 ^ 63 * 1000000"
  shows "sint (elapsed_ms c si) = int ((c - si) div 1000000)"
proof -
  have "(c - si) div 1000000 < 2 ^ 63" using assms by (intro less_mult_imp_div_less) (simp add: less_imp_diff_less)
  then have "int ((c - si) div 1000000) < int (2 ^ 63)" by (simp only: of_nat_less_iff)
  then show ?thesis
    by (simp add: elapsed_ms_def signed_of_nat signed_take_bit_int_eq_self del: of_nat_div)
qed

text \<open>All calls measure from one instant.\<close>

lemma ms_history:
  assumes "ms_reachable n now s" and "clock s < 2 ^ 63 * 1000000"
  shows "\<exists>si. \<forall>(c, r) \<in> set (history s). si \<le> c \<and> c \<le> clock s \<and> sint r = int ((c - si) div 1000000)"
proof -
  have h: "history_ok (clock s) (startup s) (history s)" using ms_reachable_inv [OF assms(1)] by (simp add: ms_inv_def)
  obtain si where "\<forall>(c, r) \<in> set (history s). si \<le> c \<and> c \<le> clock s \<and> r = elapsed_ms c si"
  proof (cases "startup s")
    case None
    then show thesis using h that by (auto simp: history_ok_def)
  next
    case (Some si)
    then show thesis using h that [of si] by (auto simp: history_ok_def)
  qed
  then show ?thesis using assms(2) elapsed_ms_sint [of _ si] by (intro exI [of _ si]) fastforce
qed


subsection \<open>Runs and progress\<close>

text \<open>The clock advances by some nanoseconds.\<close>

definition ms_tick :: "nat \<Rightarrow> mono_state \<Rightarrow> mono_state" where
  "ms_tick d s = s\<lparr>clock := clock s + d\<rparr>"

definition ms_run :: "(nat + nat) list \<Rightarrow> mono_state \<Rightarrow> mono_state option" where
  "ms_run = run_schedule (\<lambda>s. length (pcs s)) ms_thread_step ms_tick"

lemma ms_run_steps: "ms_run es s = Some s' \<Longrightarrow> ms_step\<^sup>*\<^sup>* s s'"
proof (induction es arbitrary: s)
  case (Cons e es)
  show ?case
  proof (cases e)
    case (Inl d)
    have "ms_step s (ms_tick d s)" using tick [of s "clock s + d"] by (simp add: ms_tick_def)
    moreover have "ms_step\<^sup>*\<^sup>* (ms_tick d s) s'" using Cons Inl by (simp add: ms_run_def)
    ultimately show ?thesis by (rule converse_rtranclp_into_rtranclp)
  next
    case (Inr t)
    then obtain s1 where s1: "t < length (pcs s)" "ms_thread_step t s = Some s1" "ms_run es s1 = Some s'"
      using Cons.prems by (auto simp: ms_run_def split: if_splits bind_splits)
    then have "ms_step s s1" by (blast intro: run)
    then show ?thesis using Cons.IH [OF s1(3)] by (rule converse_rtranclp_into_rtranclp)
  qed
qed (simp add: ms_run_def)


fun remaining :: "ms_pc \<Rightarrow> nat" where
  "remaining Start = 5"
| "remaining (HasRead v) = 4"
| "remaining Writing = 3"
| "remaining (WritingAt w) = 2"
| "remaining (WritingSet si) = 1"
| "remaining (Finished r) = 0"

definition work :: "mono_state \<Rightarrow> nat" where
  "work s = sum_list (map remaining (pcs s))"

lemma ms_thread_step_work:
  assumes "t < length (pcs s)" and "ms_thread_step t s = Some s'"
  shows "work s' < work s \<and> length (pcs s') = length (pcs s)"
proof -
  obtain pc where pc: "pcs s' = (pcs s)[t := pc]" "remaining pc < remaining (pcs s ! t)"
    using assms(2) by (cases "pcs s ! t")
      (auto simp: ms_thread_step_def ms_return_def Let_def split: option.splits if_splits)
  then show ?thesis using sum_list_smaller [of t "pcs s" remaining pc] assms(1) by (simp add: work_def)
qed

lemma ms_not_stuck:
  assumes "ms_inv s" and "t < length (pcs s)" and "remaining (pcs s ! t) \<noteq> 0"
  shows "\<exists>u < length (pcs s). ms_thread_step u s \<noteq> None"
proof (cases "holder s")
  case None
  then have "ms_thread_step t s \<noteq> None"
    using assms(3) by (cases "pcs s ! t") (auto simp: ms_thread_step_def Let_def split: option.split)
  then show ?thesis using assms(2) by blast
next
  case (Some u)
  note inv = ms_invD [OF assms(1)]
  have u: "u < length (pcs s)" "writing (pcs s ! u)" using inv(3) [OF Some] inv(2) Some by auto
  then have "ms_thread_step u s \<noteq> None" by (cases "pcs s ! u") (auto simp: ms_thread_step_def Let_def)
  then show ?thesis using u by blast
qed

interpretation ms: thread_system "\<lambda>s. length (pcs s)" ms_thread_step ms_tick ms_inv work
  "\<lambda>t s. remaining (pcs s ! t) = 0"
proof unfold_locales
  show "ms_inv s \<Longrightarrow> ms_inv (ms_tick d s)" for d s
    using tick [of s "clock s + d"] ms_step_inv [of s "ms_tick d s"] by (simp add: ms_tick_def)
qed (use ms_thread_step_inv ms_thread_step_work ms_not_stuck in \<open>auto simp: ms_tick_def work_def\<close>)

lemma remaining_0: "remaining pc = 0 \<longleftrightarrow> (\<exists>r. pc = Finished r)"
  by (cases pc) auto

lemma ms_step_length: "ms_step s s' \<Longrightarrow> length (pcs s') = length (pcs s)"
  by (induction rule: ms_step.induct) (auto dest: ms_thread_step_work)

lemma ms_reachable_length: "ms_reachable n now s \<Longrightarrow> length (pcs s) = n"
  unfolding ms_reachable_def
  by (induction rule: rtranclp_induct) (auto simp: ms_init_def dest: ms_step_length)

lemma work_bound: "work s \<le> 5 * length (pcs s)"
proof -
  have "remaining pc \<le> 5" for pc by (cases pc) auto
  then have "sum_list (map remaining pcs) \<le> 5 * length pcs" for pcs
    by (induction pcs) (auto intro: add_mono)
  then show ?thesis by (simp add: work_def)
qed

text \<open>
  C19: There is no deadlock and no call waits for ever: from any reachable state, a schedule of the
  threads has at most five steps for each of them, and where none of them can make a step any more
  all calls have returned.
\<close>

theorem ms_calls_return:
  assumes "ms_reachable n now s" and "ms_run es s = Some s'"
  shows "thread_steps es \<le> 5 * n
    \<and> ((\<forall>t < n. ms_thread_step t s' = None) \<longrightarrow> (\<forall>t < n. \<exists>r. pcs s' ! t = Finished r))"
  using ms.run_returns [OF ms_reachable_inv [OF assms(1)] assms(2) [unfolded ms_run_def]]
    work_bound [of s] ms_reachable_length [OF assms(1)]
  by (simp add: remaining_0)

theorem ms_calls_return_witness:
  "\<exists>s. ms_run (map Inr [1, 0, 1, 1, 1, 1, 0, 0, 0, 0]) (ms_init 2 7) = Some s \<and> (\<forall>t < 2. \<exists>r. pcs s ! t = Finished r)"
proof -
  let ?es = "map Inr [1, 0, 1, 1, 1, 1, 0, 0, 0, 0]"
  obtain s where s: "ms_run ?es (ms_init 2 7) = Some s" "pcs s = [Finished 0, Finished 0]"
    by (simp add: ms_run_def ms_tick_def ms_init_def ms_thread_step_def ms_return_def elapsed_ms_def numeral_2_eq_2 Let_def)
  have "ms_reachable 2 7 (ms_init 2 7)" by (simp add: ms_reachable_def)
  moreover have "\<forall>t < 2. ms_thread_step t s = None"
    using s(2) by (auto simp: ms_thread_step_def less_Suc_eq numeral_2_eq_2)
  ultimately show ?thesis using ms_calls_return [OF _ s(1), of 2 7] s(1) by blast
qed

section \<open>The number of processors\<close>

text \<open>
  \<open>parallelism\<close> reads the static variable, asks the system where it finds zero, and writes the
  answer back. The accesses are not synchronised: by the rules of the language a read and a write
  at the same time are a data race. \<open>par_racing\<close> says that such accesses are possible next; the
  steps are what happens where every access is a single load or store, as on the machines.

  \<open>answers t\<close> is what \<open>available_parallelism\<close> reports to thread \<open>t\<close>, \<open>None\<close> if it fails.
\<close>

datatype par_pc = ParStart | ParRead nat | ParAsked nat | ParDone nat

record par_state =
  PARALLELISM :: nat
  par_pcs :: "par_pc list"

definition par_answer :: "(nat \<Rightarrow> nat option) \<Rightarrow> nat \<Rightarrow> nat" where
  "par_answer answers t = (case answers t of Some p \<Rightarrow> p | None \<Rightarrow> 1)"

definition par_thread_step :: "(nat \<Rightarrow> nat option) \<Rightarrow> nat \<Rightarrow> par_state \<Rightarrow> par_state option" where
  "par_thread_step answers t s =
     (case par_pcs s ! t of
        ParStart \<Rightarrow> Some (s\<lparr>par_pcs := (par_pcs s)[t := ParRead (PARALLELISM s)]\<rparr>)
      | ParRead p \<Rightarrow>
          (if p = 0 then Some (s\<lparr>par_pcs := (par_pcs s)[t := ParAsked (par_answer answers t)]\<rparr>)
           else Some (s\<lparr>par_pcs := (par_pcs s)[t := ParDone p]\<rparr>))
      | ParAsked p \<Rightarrow> Some (s\<lparr>PARALLELISM := p, par_pcs := (par_pcs s)[t := ParDone p]\<rparr>)
      | ParDone p \<Rightarrow> None)"

definition par_racing :: "par_state \<Rightarrow> bool" where
  "par_racing s \<longleftrightarrow> (\<exists>t < length (par_pcs s). \<exists>u < length (par_pcs s). t \<noteq> u
     \<and> (\<exists>p. par_pcs s ! t = ParAsked p) \<and> (par_pcs s ! u = ParStart \<or> (\<exists>p. par_pcs s ! u = ParAsked p)))"

inductive par_step :: "(nat \<Rightarrow> nat option) \<Rightarrow> par_state \<Rightarrow> par_state \<Rightarrow> bool" for answers where
  par_run: "t < length (par_pcs s) \<Longrightarrow> par_thread_step answers t s = Some s' \<Longrightarrow> par_step answers s s'"
| par_again: "t < length (par_pcs s) \<Longrightarrow> par_pcs s ! t = ParDone p
    \<Longrightarrow> par_step answers s (s\<lparr>par_pcs := (par_pcs s)[t := ParStart]\<rparr>)"

definition par_init :: "nat \<Rightarrow> par_state" where
  "par_init n = \<lparr>PARALLELISM = 0, par_pcs = replicate n ParStart\<rparr>"

fun par_pc_ok :: "nat \<Rightarrow> par_pc \<Rightarrow> bool" where
  "par_pc_ok k ParStart = True"
| "par_pc_ok k (ParRead p) = (p = 0 \<or> p = k)"
| "par_pc_ok k (ParAsked p) = (p = k)"
| "par_pc_ok k (ParDone p) = (p = k)"

definition par_inv :: "nat \<Rightarrow> par_state \<Rightarrow> bool" where
  "par_inv k s \<longleftrightarrow> (PARALLELISM s = 0 \<or> PARALLELISM s = k) \<and> list_all (par_pc_ok k) (par_pcs s)"

lemma list_all_update: "list_all P xs \<Longrightarrow> P y \<Longrightarrow> list_all P (xs[i := y])"
  by (auto simp: list_all_iff dest: set_update_subset_insert [THEN subsetD])

lemma par_thread_step_inv:
  assumes "par_thread_step answers t s = Some s'" and "par_inv k s" and "t < length (par_pcs s)"
    and "\<forall>t. par_answer answers t = k"
  shows "par_inv k s'"
proof -
  have "par_pc_ok k (par_pcs s ! t)" using assms(2,3) by (simp add: par_inv_def list_all_length)
  then show ?thesis
    using assms
    by (cases "par_pcs s ! t") (auto simp: par_thread_step_def par_inv_def intro!: list_all_update split: if_splits)
qed

lemma par_step_inv:
  assumes "par_step answers s s'" and "par_inv k s" and "\<forall>t. par_answer answers t = k"
  shows "par_inv k s'"
  using assms(1)
proof cases
  case (par_run t)
  then show ?thesis using par_thread_step_inv assms(2,3) by blast
qed (use assms(2) in \<open>auto simp: par_inv_def intro!: list_all_update\<close>)

lemma par_reachable_inv:
  "(par_step answers)\<^sup>*\<^sup>* (par_init n) s \<Longrightarrow> \<forall>t. par_answer answers t = k \<Longrightarrow> par_inv k s \<and> length (par_pcs s) = n"
proof (induction rule: rtranclp_induct)
  case base
  then show ?case by (simp add: par_inv_def par_init_def list_all_length)
next
  case (step s s')
  have "length (par_pcs s') = length (par_pcs s)"
    using step(2) by cases (auto simp: par_thread_step_def split: par_pc.splits if_splits)
  then show ?case using step par_step_inv by auto
qed

fun par_remaining :: "par_pc \<Rightarrow> nat" where
  "par_remaining ParStart = 3"
| "par_remaining (ParRead p) = 2"
| "par_remaining (ParAsked p) = 1"
| "par_remaining (ParDone p) = 0"

definition par_work :: "par_state \<Rightarrow> nat" where
  "par_work s = sum_list (map par_remaining (par_pcs s))"

lemma par_thread_step_work:
  assumes "t < length (par_pcs s)" and "par_thread_step answers t s = Some s'"
  shows "par_work s' < par_work s \<and> length (par_pcs s') = length (par_pcs s)"
proof -
  obtain pc where pc: "par_pcs s' = (par_pcs s)[t := pc]" "par_remaining pc < par_remaining (par_pcs s ! t)"
    using assms(2) by (cases "par_pcs s ! t") (auto simp: par_thread_step_def split: if_splits)
  then show ?thesis using sum_list_smaller [of t "par_pcs s" par_remaining pc] assms(1) by (simp add: par_work_def)
qed

interpretation par: thread_system "\<lambda>s. length (par_pcs s)" "par_thread_step (\<lambda>t. answers)" "\<lambda>(e :: unit) s. s"
  "par_inv (par_answer (\<lambda>t. answers) 0)" par_work "\<lambda>t s. par_remaining (par_pcs s ! t) = 0" for answers
proof unfold_locales
  fix s :: par_state and t
  assume "t < length (par_pcs s)" "par_remaining (par_pcs s ! t) \<noteq> 0"
  then have "par_thread_step (\<lambda>t. answers) t s \<noteq> None" by (cases "par_pcs s ! t") (auto simp: par_thread_step_def)
  then show "\<exists>u<length (par_pcs s). par_thread_step (\<lambda>t. answers) u s \<noteq> None" using \<open>t < length (par_pcs s)\<close> by blast
qed (use par_thread_step_work in \<open>auto simp: par_answer_def intro: par_thread_step_inv\<close>)

text \<open>
  While the system gives all threads one answer, every call returns it (1 for no answer), however
  the calls overlap and whether or not they find the cached value, and no call takes more than
  three steps.
\<close>

theorem parallelism_agrees:
  assumes "(par_step (\<lambda>t. answer))\<^sup>*\<^sup>* (par_init n) s"
    and "run_schedule (\<lambda>s. length (par_pcs s)) (par_thread_step (\<lambda>t. answer)) (\<lambda>(e :: unit) s. s) es s = Some s'"
  shows "thread_steps es \<le> 3 * n
    \<and> (\<forall>t < n. \<forall>p. par_pcs s' ! t = ParDone p \<longrightarrow> p = (case answer of Some k \<Rightarrow> k | None \<Rightarrow> 1))
    \<and> ((\<forall>t < n. par_thread_step (\<lambda>t. answer) t s' = None) \<longrightarrow> (\<forall>t < n. \<exists>p. par_pcs s' ! t = ParDone p))"
proof -
  let ?k = "par_answer (\<lambda>t. answer) 0"
  have k: "?k = (case answer of Some k \<Rightarrow> k | None \<Rightarrow> 1)" "\<forall>t. par_answer (\<lambda>t. answer) t = ?k"
    by (simp_all add: par_answer_def)
  have inv: "par_inv ?k s" "length (par_pcs s) = n" using par_reachable_inv [OF assms(1) k(2)] by simp_all
  have "par_inv ?k s'" using par.run_inv [OF assms(2) inv(1)] .
  note ret = par.run_returns [OF inv(1) assms(2)]
  have "par_remaining pc \<le> 3" for pc by (cases pc) auto
  then have "sum_list (map par_remaining pcs) \<le> 3 * length pcs" for pcs by (induction pcs) (auto intro: add_mono)
  then have "par_work s \<le> 3 * n" using inv(2) by (metis par_work_def)
  moreover have "par_remaining pc = 0 \<longleftrightarrow> (\<exists>p. pc = ParDone p)" for pc by (cases pc) auto
  ultimately show ?thesis
    using ret inv(2) \<open>par_inv ?k s'\<close> k(1) by (fastforce simp: par_inv_def list_all_length)
qed

theorem parallelism_agrees_witness:
  "\<exists>s. run_schedule (\<lambda>s. length (par_pcs s)) (par_thread_step (\<lambda>t. Some 8)) (\<lambda>(e :: unit) s. s)
      (map Inr [0, 1, 1, 0, 0, 1]) (par_init 2) = Some s
    \<and> (\<forall>t < 2. \<forall>p. par_pcs s ! t = ParDone p \<longrightarrow> p = 8) \<and> (\<forall>t < 2. \<exists>p. par_pcs s ! t = ParDone p)"
proof -
  let ?es = "map Inr [0, 1, 1, 0, 0, 1] :: (unit + nat) list"
  let ?run = "run_schedule (\<lambda>s. length (par_pcs s)) (par_thread_step (\<lambda>t. Some 8)) (\<lambda>(e :: unit) s. s)"
  obtain s where s: "?run ?es (par_init 2) = Some s" "par_pcs s = [ParDone 8, ParDone 8]"
    by (simp add: par_init_def par_thread_step_def par_answer_def numeral_2_eq_2)
  have "(par_step (\<lambda>t. Some 8))\<^sup>*\<^sup>* (par_init 2) (par_init 2)" by simp
  from parallelism_agrees [OF this s(1)] have "\<forall>t < 2. \<forall>p. par_pcs s ! t = ParDone p \<longrightarrow> p = 8" by simp
  moreover have "\<forall>t < 2. \<exists>p. par_pcs s ! t = ParDone p" using s(2) by (auto simp: less_Suc_eq numeral_2_eq_2)
  ultimately show ?thesis using s(1) by blast
qed

text \<open>Two first calls at the same time can race: a write may meet another thread's access.\<close>

lemma parallelism_race:
  "\<exists>s. (par_step (\<lambda>_. Some 8))\<^sup>*\<^sup>* (par_init 2) s \<and> par_racing s"
proof -
  let ?a = "\<lambda>_ :: nat. Some (8 :: nat)"
  let ?s = "\<lparr>PARALLELISM = 0, par_pcs = [ParAsked 8, ParStart]\<rparr>"
  have "par_step ?a (par_init 2) \<lparr>PARALLELISM = 0, par_pcs = [ParRead 0, ParStart]\<rparr>"
    "par_step ?a \<lparr>PARALLELISM = 0, par_pcs = [ParRead 0, ParStart]\<rparr> ?s"
    by (rule par_run [where t = 0]; simp add: par_thread_step_def par_init_def par_answer_def numeral_2_eq_2)+
  then have "(par_step ?a)\<^sup>*\<^sup>* (par_init 2) ?s" by (meson converse_rtranclp_into_rtranclp rtranclp.rtrancl_refl)
  moreover have "par_racing ?s"
    unfolding par_racing_def by (rule exI [of _ 0], simp, rule exI [of _ 1], simp)
  ultimately show ?thesis by blast
qed

end
