(* ===== verification/Sync.thy ===== *)
theory Sync
  imports Prelude
begin

text \<open>
  The guards of \<open>src/sync.rs\<close>: a \<open>MappedReadGuard\<close> owns the read guard of a lock and points to a
  place inside the value that the lock protects. A place is the function that reads it from the
  value. The lock is that of the standard library: readers share it, a writer waits until there is
  no reader.
\<close>

section \<open>The guard\<close>

text \<open>The pointer of the guard, and whether it has been set.\<close>

record ('s, 'a) mapped_guard =
  mg_r :: "('s \<Rightarrow> 'a) option"

text \<open>
  Both constructors begin with a pointer that is not initialised. By the rules of the language this
  is undefined in itself; \<open>uninit_ok\<close> says whether the compiler lets it pass, as compilers do.
  \<open>value\<close> is what the read guard gives access to. The guard of \<open>maybe_map\<close> that is not returned is
  dropped, and the read guard with it.
\<close>

definition mapped_map :: "bool \<Rightarrow> 's \<Rightarrow> ('s \<Rightarrow> ('s \<Rightarrow> 'a)) \<Rightarrow> ('s, 'a) mapped_guard outcome" where
  "mapped_map uninit_ok val f =
     (if uninit_ok then let m = \<lparr>mg_r = None\<rparr> in Returns (m\<lparr>mg_r := Some (f val)\<rparr>) else Undefined)"

definition mapped_maybe_map ::
  "bool \<Rightarrow> 's \<Rightarrow> ('s \<Rightarrow> ('s \<Rightarrow> 'a) option) \<Rightarrow> ('s, 'a) mapped_guard option outcome" where
  "mapped_maybe_map uninit_ok val f =
     (if uninit_ok
      then let m = \<lparr>mg_r = None\<rparr> in
           Returns (case f val of Some ptr \<Rightarrow> Some (m\<lparr>mg_r := Some ptr\<rparr>) | None \<Rightarrow> None)
      else Undefined)"

definition mapped_deref :: "'s \<Rightarrow> ('s, 'a) mapped_guard \<Rightarrow> 'a outcome" where
  "mapped_deref val g = (case mg_r g of Some ptr \<Rightarrow> Returns (ptr val) | None \<Rightarrow> Undefined)"

section \<open>The lock and its users\<close>

text \<open>
  The value, the reader count of the lock, the number of plain read guards in use, and the mapped
  guards in use, each with what it gave access to when it was made.
\<close>

record ('s, 'a) lock_state =
  lk_value :: 's
  lk_readers :: nat
  lk_plain :: nat
  lk_mapped :: "(('s, 'a) mapped_guard \<times> 'a) list"

datatype ('s, 'a) lock_action =
    ReadLock
  | DropRead
  | MapGuard "'s \<Rightarrow> ('s \<Rightarrow> 'a)"
  | MaybeMapGuard "'s \<Rightarrow> ('s \<Rightarrow> 'a) option"
  | DropMapped nat
  | WriteValue 's

definition keep_guard :: "('s, 'a) mapped_guard \<Rightarrow> ('s, 'a) lock_state \<Rightarrow> ('s, 'a) lock_state option" where
  "keep_guard g s =
     (case mapped_deref (lk_value s) g of
        Returns x \<Rightarrow> Some (s\<lparr>lk_plain := lk_plain s - 1, lk_mapped := (g, x) # lk_mapped s\<rparr>)
      | _ \<Rightarrow> None)"

text \<open>One action; \<open>None\<close> where it has to wait, has no guard to work on, or is undefined.\<close>

fun lock_act :: "bool \<Rightarrow> ('s, 'a) lock_action \<Rightarrow> ('s, 'a) lock_state \<Rightarrow> ('s, 'a) lock_state option" where
  "lock_act ok ReadLock s = Some (s\<lparr>lk_readers := lk_readers s + 1, lk_plain := lk_plain s + 1\<rparr>)"
| "lock_act ok DropRead s =
     (if lk_plain s = 0 then None
      else Some (s\<lparr>lk_readers := lk_readers s - 1, lk_plain := lk_plain s - 1\<rparr>))"
| "lock_act ok (MapGuard f) s =
     (if lk_plain s = 0 then None
      else case mapped_map ok (lk_value s) f of Returns g \<Rightarrow> keep_guard g s | _ \<Rightarrow> None)"
| "lock_act ok (MaybeMapGuard f) s =
     (if lk_plain s = 0 then None
      else case mapped_maybe_map ok (lk_value s) f of
             Returns (Some g) \<Rightarrow> keep_guard g s
           | Returns None \<Rightarrow> Some (s\<lparr>lk_readers := lk_readers s - 1, lk_plain := lk_plain s - 1\<rparr>)
           | _ \<Rightarrow> None)"
| "lock_act ok (DropMapped i) s =
     (if i < length (lk_mapped s)
      then Some (s\<lparr>lk_readers := lk_readers s - 1, lk_mapped := take i (lk_mapped s) @ drop (i + 1) (lk_mapped s)\<rparr>)
      else None)"
| "lock_act ok (WriteValue v) s = (if lk_readers s = 0 then Some (s\<lparr>lk_value := v\<rparr>) else None)"

fun lock_run :: "bool \<Rightarrow> ('s, 'a) lock_action list \<Rightarrow> ('s, 'a) lock_state \<Rightarrow> ('s, 'a) lock_state option" where
  "lock_run ok [] s = Some s"
| "lock_run ok (a # as) s = Option.bind (lock_act ok a s) (lock_run ok as)"

definition lock_init :: "'s \<Rightarrow> ('s, 'a) lock_state" where
  "lock_init v = \<lparr>lk_value = v, lk_readers = 0, lk_plain = 0, lk_mapped = []\<rparr>"

section \<open>Safety\<close>

definition lock_inv :: "('s, 'a) lock_state \<Rightarrow> bool" where
  "lock_inv s \<longleftrightarrow> lk_readers s = lk_plain s + length (lk_mapped s)
     \<and> list_all (\<lambda>(g, x). mapped_deref (lk_value s) g = Returns x) (lk_mapped s)"

lemma lock_act_inv: "lock_act ok a s = Some s' \<Longrightarrow> lock_inv s \<Longrightarrow> lock_inv s'"
proof (induction ok a s rule: lock_act.induct)
  case (5 ok i s)
  let ?m = "lk_mapped s"
  have i: "i < length ?m" and s': "s' = s\<lparr>lk_readers := lk_readers s - 1, lk_mapped := take i ?m @ drop (i + 1) ?m\<rparr>"
    using 5(1) by (simp_all split: if_splits)
  have "list_all (\<lambda>(g, x). mapped_deref (lk_value s) g = Returns x) ?m" using 5(2) by (simp add: lock_inv_def)
  then have "list_all (\<lambda>(g, x). mapped_deref (lk_value s) g = Returns x) (take i ?m @ drop (i + 1) ?m)"
    by (auto simp: list_all_iff dest: in_set_takeD in_set_dropD)
  then show ?case using 5(2) i s' by (simp add: lock_inv_def)
qed (auto simp: lock_inv_def keep_guard_def split: if_splits outcome.splits option.splits)

lemma lock_run_inv: "lock_run ok as s = Some s' \<Longrightarrow> lock_inv s \<Longrightarrow> lock_inv s'"
  by (induction as arbitrary: s) (auto split: Option.bind_splits dest: lock_act_inv)



end
