(* ===== verification/Small_Modules.thy ===== *)
theory Small_Modules
  imports Stream Utf8
begin

text \<open>
  The small modules: the casts of \<open>src/cast.rs\<close>, the container of \<open>src/immortal.rs\<close>, the exit codes of
  \<open>src/exitcode.rs\<close>, and \<open>fs_restrict_permissions\<close> of \<open>src/io.rs\<close>.
\<close>

section \<open>Casts\<close>

text \<open>A type is known by its \<open>TypeId\<close> and its size. A reference is the address it holds.\<close>

record rust_type =
  type_id :: nat
  size_of :: nat

definition same_type :: "rust_type \<Rightarrow> rust_type \<Rightarrow> bool" where
  "same_type U V = (type_id U = type_id V \<and> size_of U = size_of V)"

definition cast_ref :: "rust_type \<Rightarrow> rust_type \<Rightarrow> 'r \<Rightarrow> 'r option" where
  "cast_ref U V u = (if same_type U V then Some u else None)"

definition cast_mut :: "rust_type \<Rightarrow> rust_type \<Rightarrow> 'r \<Rightarrow> 'r option" where
  "cast_mut U V u = (if same_type U V then Some u else None)"

text \<open>Where a \<open>TypeId\<close> belongs to one type, a cast succeeds exactly between equal types.\<close>

lemma cast_ref_iff:
  assumes "inj_on type_id T" and "U \<in> T" and "V \<in> T"
  shows "cast_ref U V u = (if U = V then Some u else None)"
  using assms by (auto simp: cast_ref_def same_type_def dest: inj_onD)

section \<open>Immortal objects\<close>

text \<open>The boxes that were leaked; a box is known by its position and never freed.\<close>

definition immortal_new :: "'a \<Rightarrow> 'a list \<Rightarrow> nat \<times> 'a list" where
  "immortal_new obj heap = (length heap, heap @ [obj])"

definition immortal_as_ref :: "'a list \<Rightarrow> nat \<Rightarrow> 'a outcome" where
  "immortal_as_ref heap self = (if self < length heap then Returns (heap ! self) else Undefined)"

definition immortal_deref :: "'a list \<Rightarrow> nat \<Rightarrow> 'a outcome" where
  "immortal_deref heap self = immortal_as_ref heap self"

definition immortal_clone :: "nat \<Rightarrow> nat" where
  "immortal_clone self = self"

text \<open>An object stays readable through the container and its clones, whatever is made after it.\<close>

lemma immortal_lives:
  assumes "immortal_new obj heap = (p, heap')"
  shows "immortal_deref (heap' @ later) (immortal_clone p) = Returns obj"
  using assms by (auto simp: immortal_new_def immortal_deref_def immortal_as_ref_def immortal_clone_def nth_append)

section \<open>Exit codes\<close>

type_synonym i32 = "32 word"

definition EXIT_OK :: i32 where "EXIT_OK = 0"
definition ERR_USAGE :: i32 where "ERR_USAGE = 64"
definition ERR_DATA_FORMAT :: i32 where "ERR_DATA_FORMAT = 65"
definition ERR_NO_INPUT :: i32 where "ERR_NO_INPUT = 66"
definition ERR_SERVICE_UNAVAILABLE :: i32 where "ERR_SERVICE_UNAVAILABLE = 69"
definition ERR_INTERNAL :: i32 where "ERR_INTERNAL = 70"
definition ERR_OSERR :: i32 where "ERR_OSERR = 71"
definition ERR_OSFILE :: i32 where "ERR_OSFILE = 72"
definition ERR_IOERR :: i32 where "ERR_IOERR = 74"
definition ERR_NOPERM :: i32 where "ERR_NOPERM = 77"
definition ERR_CONFIG :: i32 where "ERR_CONFIG = 78"

lemmas exit_codes = EXIT_OK_def ERR_USAGE_def ERR_DATA_FORMAT_def ERR_NO_INPUT_def
  ERR_SERVICE_UNAVAILABLE_def ERR_INTERNAL_def ERR_OSERR_def ERR_OSFILE_def ERR_IOERR_def
  ERR_NOPERM_def ERR_CONFIG_def

lemma exit_codes_distinct:
  "distinct [EXIT_OK, ERR_USAGE, ERR_DATA_FORMAT, ERR_NO_INPUT, ERR_SERVICE_UNAVAILABLE, ERR_INTERNAL,
    ERR_OSERR, ERR_OSFILE, ERR_IOERR, ERR_NOPERM, ERR_CONFIG]"
  by (simp add: exit_codes)

section \<open>File permissions\<close>

text \<open>The path as bytes; \<open>chmod\<close> is the system call, \<open>is_dir\<close> what the file system says. A path
  that is not UTF-8 or holds a zero byte panics.\<close>

definition fs_restrict_permissions :: "(u8 list \<Rightarrow> nat \<Rightarrow> int) \<Rightarrow> (u8 list \<Rightarrow> bool) \<Rightarrow> u8 list \<Rightarrow> bool outcome" where
  "fs_restrict_permissions chmod is_dir path =
     (if \<not> utf8_valid path then Panics
      else if 0 \<in> set path then Panics
      else Returns (chmod path (if is_dir path then 448 else 384) = 0))"

text \<open>The mode never gives anything to the group or to others.\<close>

lemma restrict_mode:
  assumes "fs_restrict_permissions chmod is_dir path = Returns r"
  shows "\<exists>mode. r = (chmod path mode = 0) \<and> mode mod 64 = 0"
proof -
  have "r = (chmod path (if is_dir path then 448 else 384) = 0)"
    using assms by (auto simp: fs_restrict_permissions_def split: if_splits)
  then show ?thesis by (intro exI [of _ "if is_dir path then 448 else 384"]) simp
qed

end
