(* ===== verification/Unit_Tests.thy ===== *)
theory Unit_Tests
  imports ArrayVec RingBuffer Varint Escape Gate Statics Small_Modules
begin

text \<open>
  The unit tests of the repository, run on the models: each test is a definition that makes the
  calls of the test in its order and returns normally exactly if all its assertions hold. That they
  all pass checks the definitions of the development against what the authors of the code expect
  of it. This theory has the tests of \<open>arrayvec.rs\<close>, \<open>ringbuffer.rs\<close>, \<open>varint.rs\<close>, \<open>hex.rs\<close>, \<open>str.rs\<close>,
  \<open>lib.rs\<close> and \<open>immortal.rs\<close>.
\<close>

section \<open>Loops and text\<close>

fun for_loop :: "('s \<Rightarrow> 'a \<Rightarrow> 's outcome) \<Rightarrow> 'a list \<Rightarrow> 's \<Rightarrow> 's outcome" where
  "for_loop f [] s = Returns s"
| "for_loop f (x # xs) s = obind (f s x) (for_loop f xs)"

text \<open>ASCII literals as bytes.\<close>

definition ascii :: "string \<Rightarrow> u8 list" where
  "ascii s = map of_char s"

section \<open>The fixed capacity vector\<close>

text \<open>The vector of 128 elements that every test of \<open>arrayvec.rs\<close> begins with.\<close>

definition av_filled :: "nat arrayvec outcome" where
  "av_filled =
     obind (for_loop av_push [0..<128] (av_new 128)) (\<lambda>v.
     obind (assert_that (av_len v = 128)) (\<lambda>_. Returns v))"

definition test_av_popability :: "unit outcome" where
  "test_av_popability =
     obind av_filled (\<lambda>v.
     obind (for_loop (\<lambda>v _. obind (av_pop v) (\<lambda>(r, v). obind (assert_that (r \<noteq> None)) (\<lambda>_. Returns v))) [0..<128] v) (\<lambda>v.
     obind (av_pop v) (\<lambda>(r, v). assert_that (r = None))))"

definition test_av_bounds :: "unit outcome" where
  "test_av_bounds =
     obind av_filled (\<lambda>v.
     obind (av_try_push v 1000) (\<lambda>(r, v).
     obind (assert_that (r \<noteq> Inr ())) (\<lambda>_.
     assert_that (av_len v = 128))))"

definition test_av_clear :: "unit outcome" where
  "test_av_clear =
     obind av_filled (\<lambda>v.
     obind (av_clear False v) (\<lambda>(_, v).
     obind (av_pop v) (\<lambda>(r, v). assert_that (r = None))))"

definition test_av_order :: "unit outcome" where
  "test_av_order =
     obind av_filled (\<lambda>v.
     obind (av_first v) (\<lambda>r.
     obind (assert_that (r = Some 0)) (\<lambda>_.
     obind (av_last v) (\<lambda>r.
     obind (assert_that (r = Some 127)) (\<lambda>_.
     obind (for_loop (\<lambda>v i. obind (av_pop v) (\<lambda>(r, v).
        obind (assert_that (r \<noteq> None)) (\<lambda>_.
        obind (assert_that (r = Some (128 - 1 - i))) (\<lambda>_. Returns v)))) [0..<128] v) (\<lambda>v. Returns ()))))))"

lemma av_push_loop:
  "av_rep nd v xs \<Longrightarrow> length xs + length ys \<le> av_C v \<Longrightarrow>
   \<exists>v'. for_loop av_push ys v = Returns v' \<and> av_rep nd v' (xs @ ys) \<and> av_C v' = av_C v"
proof (induction ys arbitrary: v xs)
  case (Cons y ys)
  then obtain v1 where v1: "av_push v y = Returns v1" "av_rep nd v1 (xs @ [y])" "av_C v1 = av_C v"
    using av_push_room [of nd v xs y] by auto
  show ?case using Cons.IH [OF v1(2)] Cons.prems v1 by simp
qed simp

lemma av_filled_spec: "\<exists>v. av_filled = Returns v \<and> av_rep False v [0..<128] \<and> av_C v = 128"
proof -
  obtain v where v: "for_loop av_push [0..<128] (av_new 128) = Returns v" "av_rep False v [0..<128]" "av_C v = 128"
    using av_push_loop [of False "av_new 128" "[]" "[0..<128]"] av_rep_new [of False 128] by auto
  have "av_len v = 128" using v(2) by (simp add: av_len_def av_rep_def)
  then show ?thesis using v by (simp add: av_filled_def)
qed

text \<open>Popping in a loop takes the elements from the back.\<close>

lemma av_pop_loop:
  assumes "av_rep False v xs" and "length ks = length xs"
    and "\<And>i x v. (i, x) \<in> set (zip ks (rev xs)) \<Longrightarrow> body i (Some x) v = Returns v"
  shows "\<exists>v'. for_loop (\<lambda>v i. obind (av_pop v) (\<lambda>(r, v). body i r v)) ks v = Returns v' \<and> av_rep False v' []"
  using assms
proof (induction ks arbitrary: v xs)
  case (Cons k ks)
  then obtain ys y where xs: "xs = ys @ [y]" by (cases xs rule: rev_cases) auto
  then obtain v1 where v1: "av_pop v = Returns (Some y, v1)" "av_rep False v1 ys"
    using av_pop_spec [OF Cons.prems(1)] by auto
  have "body k (Some y) v1 = Returns v1" using Cons.prems(3) by (simp add: xs)
  then show ?case using Cons.IH [OF v1(2)] Cons.prems(2,3) v1(1) by (simp add: xs)
qed simp

lemma zip_rev_upt: "(i, x) \<in> set (zip [0..<n] (rev [0..<n])) \<Longrightarrow> i < n \<and> x = n - 1 - i"
  by (auto simp: in_set_zip rev_nth)

lemma arrayvec_tests:
  "test_av_popability = Returns ()" "test_av_bounds = Returns ()"
  "test_av_clear = Returns ()" "test_av_order = Returns ()"
proof -
  obtain v where v: "av_filled = Returns v" "av_rep False v [0..<128]" "av_C v = 128" using av_filled_spec by blast
  have empty: "av_pop w = Returns (None, w)" if "av_rep False w []" for w using av_pop_spec [OF that] by simp
  note loop = av_pop_loop [OF v(2), of "[0..<128]"]
  obtain w where "for_loop (\<lambda>v i. obind (av_pop v) (\<lambda>(r, v). obind (assert_that (r \<noteq> None)) (\<lambda>_. Returns v))) [0..<128] v
      = Returns w" "av_rep False w []"
    using loop [of "\<lambda>i r v. obind (assert_that (r \<noteq> None)) (\<lambda>_. Returns v)"] by auto
  then show "test_av_popability = Returns ()" using empty [of w] by (simp add: test_av_popability_def v(1))
  show "test_av_bounds = Returns ()"
    using av_try_push_full [OF v(2), of 1000] v(2,3) by (simp add: test_av_bounds_def av_len_def av_rep_def v(1))
  show "test_av_clear = Returns ()"
    using av_clear_spec [OF v(2)] empty by (force simp: test_av_clear_def v(1))
  have "[0..<128] \<noteq> ([] :: nat list)" "hd [0..<128 :: nat] = 0" "last [0..<128 :: nat] = 127" by simp_all
  then have "av_first v = Returns (Some 0)" "av_last v = Returns (Some 127)"
    using av_first_spec [OF v(2)] av_last_spec [OF v(2)] by simp_all
  moreover have "obind (assert_that (Some x \<noteq> None)) (\<lambda>_. obind (assert_that (Some x = Some (128 - 1 - i))) (\<lambda>_. Returns w)) = Returns w"
    if "(i, x) \<in> set (zip [0..<128] (rev [0..<128]))" for i x and w :: "nat arrayvec"
    using zip_rev_upt [OF that] by simp
  then obtain w where "for_loop (\<lambda>v i. obind (av_pop v) (\<lambda>(r, v). obind (assert_that (r \<noteq> None)) (\<lambda>_.
      obind (assert_that (r = Some (128 - 1 - i))) (\<lambda>_. Returns v)))) [0..<128] v = Returns w"
    using loop [of "\<lambda>i r v. obind (assert_that (r \<noteq> None)) (\<lambda>_. obind (assert_that (r = Some (128 - 1 - i))) (\<lambda>_. Returns v))"]
    by auto
  ultimately show "test_av_order = Returns ()" by (simp add: test_av_order_def v(1))
qed

section \<open>The ring buffer\<close>

definition rb_add_all :: "i32 list \<Rightarrow> i32 ringbuffer \<Rightarrow> i32 ringbuffer outcome" where
  "rb_add_all = for_loop (\<lambda>b x. obind (rb_add b x) (\<lambda>(_, b). Returns b))"

text \<open>\<open>while tmp2.len() > 8 { tmp2.remove(0); }\<close>\<close>

fun remove_front :: "nat \<Rightarrow> 'a list \<Rightarrow> 'a list" where
  "remove_front n [] = []"
| "remove_front n (x # xs) = (if n < length (x # xs) then remove_front n xs else x # xs)"

definition rb_agrees :: "i32 ringbuffer \<Rightarrow> i32 list \<Rightarrow> unit outcome" where
  "rb_agrees tmp tmp2 =
     obind (rb_collect 9 tmp (rb_iter tmp)) (\<lambda>xs. assert_that (list_all (\<lambda>(i, j). i = j) (zip xs tmp2)))"

definition test_rb_fifo :: "unit outcome" where
  "test_rb_fifo =
     (let xs = map of_nat [0..<4]; ys = map of_nat [0..<23] in
      obind (rb_add_all xs (rb_new 8)) (\<lambda>tmp.
      obind (rb_agrees tmp xs) (\<lambda>_.
      obind (rb_clear tmp) (\<lambda>(_, tmp).
      obind (rb_add_all ys tmp) (\<lambda>tmp.
      rb_agrees tmp (remove_front 8 ys))))))"

definition test_rb_default :: "unit outcome" where
  "test_rb_default = obind (rb_add (rb_default 8 :: i32 ringbuffer) 42) (\<lambda>_. Returns ())"

lemma rb_add_all_spec:
  "rb_rep b xs \<Longrightarrow> 0 < rb_C b \<Longrightarrow> length xs + length ys < 2 ^ 64 \<Longrightarrow>
   \<exists>b'. rb_add_all ys b = Returns b' \<and> rb_rep b' (xs @ ys) \<and> rb_C b' = rb_C b"
proof (induction ys arbitrary: b xs)
  case (Cons y ys)
  then obtain out b1 where b1: "rb_add b y = Returns (out, b1)" "rb_rep b1 (xs @ [y])" "rb_C b1 = rb_C b"
    using rb_add_spec [of b xs y] by auto
  show ?case using Cons.IH [OF b1(2)] Cons.prems b1 by (simp add: rb_add_all_def)
qed (simp add: rb_add_all_def)

lemma remove_front_drop: "remove_front n xs = drop (length xs - n) xs"
  by (induction xs) (auto simp: Suc_diff_le not_less)

lemma zip_same: "list_all (\<lambda>(i, j). i = j) (zip xs xs)"
  by (induction xs) simp_all

lemma ringbuffer_tests: "test_rb_fifo = Returns ()" "test_rb_default = Returns ()"
proof -
  have new: "rb_rep (rb_new 8 :: i32 ringbuffer) []" "rb_C (rb_new 8 :: i32 ringbuffer) = 8"
    by (rule rb_rep_new) (simp add: rb_new_def)
  have agrees: "rb_agrees b (window 8 xs) = Returns ()" if "rb_rep b xs" "rb_C b = 8" for b xs
    using rb_iter_spec [OF that(1), of 9] that(2) by (simp add: rb_agrees_def zip_same)
  let ?xs = "map of_nat [0..<4] :: i32 list" and ?ys = "map of_nat [0..<23] :: i32 list"
  obtain b where b: "rb_add_all ?xs (rb_new 8) = Returns b" "rb_rep b ?xs" "rb_C b = 8"
    using rb_add_all_spec [OF new(1), of ?xs] new(2) by auto
  obtain out c where c: "rb_clear b = Returns (out, c)" "rb_rep c []" "rb_C c = 8"
    using rb_clear_spec [OF b(2)] b(3) by auto
  obtain d where d: "rb_add_all ?ys c = Returns d" "rb_rep d ?ys" "rb_C d = 8"
    using rb_add_all_spec [OF c(2), of ?ys] c(3) by auto
  have "window 8 ?xs = ?xs" "remove_front 8 ?ys = window 8 ?ys" by (simp_all add: window_def remove_front_drop)
  then show "test_rb_fifo = Returns ()"
    using agrees [OF b(2,3)] agrees [OF d(2,3)] b(1) c(1) d(1) by (simp add: test_rb_fifo_def Let_def)
  show "test_rb_default = Returns ()"
    using rb_add_spec [OF new(1), of 42] new(2) by (auto simp: test_rb_default_def rb_default_def)
qed

section \<open>Numbers of variable length\<close>

definition test_varint :: "unit outcome" where
  "test_varint =
     for_loop (\<lambda>_ i.
       obind (usize_mul True ((2 ^ 64 - 1) div 131072) i) (\<lambda>n.
       let ii = of_nat n :: u64 in
       obind (varint_write True vec_write_all [] ii) (\<lambda>(r, t).
       obind (assert_that (r = Inr ())) (\<lambda>_.
       case varint_read slice_read_exact t of
         Some (Inr (x, _), _) \<Rightarrow>
           obind (assert_that (x = ii)) (\<lambda>_.
           case varint_decode t of
             Some (y, _) \<Rightarrow> assert_that (ii = y)
           | None \<Rightarrow> Panics)
       | _ \<Rightarrow> Panics)))) [0..<131072] ()"

lemma for_loop_const: "(\<And>x. x \<in> set xs \<Longrightarrow> f s x = Returns s) \<Longrightarrow> for_loop f xs s = Returns s"
  by (induction xs) simp_all

lemma varint_tests: "test_varint = Returns ()"
  unfolding test_varint_def
proof (rule for_loop_const)
  fix i :: nat assume "i \<in> set [0..<131072]"
  then have small: "(2 ^ 64 - 1) div 131072 * i < (2 ^ 64 :: nat)" by simp
  have read: "varint_read slice_read_exact (varint_bytes (unat w)) = Some (Inr (w, length (varint_bytes (unat w))), [])" for w
    using slice.read_decode [OF varint_decode_bytes, of w "[]"] by simp
  have decode: "varint_decode (varint_bytes (unat w)) = Some (w, length (varint_bytes (unat w)))" for w
    using varint_decode_bytes [of w "[]"] by simp
  show "obind (usize_mul True ((2 ^ 64 - 1) div 131072) i) (\<lambda>n.
       let ii = of_nat n :: u64 in
       obind (varint_write True vec_write_all [] ii) (\<lambda>(r, t).
       obind (assert_that (r = Inr ())) (\<lambda>_.
       case varint_read slice_read_exact t of
         Some (Inr (x, _), _) \<Rightarrow>
           obind (assert_that (x = ii)) (\<lambda>_.
           case varint_decode t of
             Some (y, _) \<Rightarrow> assert_that (ii = y)
           | None \<Rightarrow> Panics)
       | _ \<Rightarrow> Panics))) = Returns ()"
    unfolding usize_mul_def if_P [OF small] obind.simps Let_def varint_write_eq vec_write_all_def append_Nil
    by (simp only: prod.case obind.simps read decode option.case sum.case assert_that_simps simp_thms)
qed

section \<open>Hexadecimal text\<close>

definition test_hex_to_and_from_string :: "unit outcome" where
  "test_hex_to_and_from_string =
     (let res_str = hex_to_string [1, 2, 3, 4] in
      obind (assert_that (ascii ''01020304'' = res_str)) (\<lambda>_.
      let res_vec = hex_from_string res_str in
      assert_that ([1, 2, 3, 4] = res_vec)))"

definition test_hex_to_and_from_string_u64 :: "unit outcome" where
  "test_hex_to_and_from_string_u64 =
     (let i = - 1; res_str = hex_to_string_u64 i False in
      obind (assert_that (res_str = ascii ''ffffffffffffffff'')) (\<lambda>_.
      let i = 0; res_str = hex_to_string_u64 i False in
      obind (assert_that (res_str = ascii ''0000000000000000'')) (\<lambda>_.
      let res_str = hex_to_string_u64 i True in
      obind (assert_that (res_str = ascii [])) (\<lambda>_.
      let i = 0x400; res_str = hex_to_string_u64 i True in
      obind (assert_that (res_str = ascii ''400'')) (\<lambda>_.
      let i = hex_from_string_u64 (ascii ''0x400'') in
      obind (assert_that (i = 0x400)) (\<lambda>_.
      let i = hex_from_string_u64 (ascii ''0x0'') in
      obind (assert_that (i = 0)) (\<lambda>_.
      let i = hex_from_string_u64 (ascii ''ffffffffffffffff'') in
      obind (assert_that (i = - 1)) (\<lambda>_.
      let i = hex_from_string_u64 (ascii ''ff'') in
      obind (assert_that (i = 255)) (\<lambda>_.
      let res_str = hex_to_string_u64 i True in
      obind (assert_that (i = 255)) (\<lambda>_.
      assert_that (res_str = ascii ''ff'')))))))))))"

definition test_hex_to_vec_u64 :: "unit outcome" where
  "test_hex_to_vec_u64 =
     (let v = hex_to_vec_u64 (- 1) False in
      obind (assert_that ([102, 102, 102, 102, 102, 102, 102, 102, 102, 102, 102, 102, 102, 102, 102, 102] = v)) (\<lambda>_.
      let v = hex_to_vec_u64 1024 True in
      obind (assert_that (v = [52, 48, 48])) (\<lambda>_.
      let v = hex_to_vec_u64 0 False in
      assert_that ([48, 48, 48, 48, 48, 48, 48, 48, 48, 48, 48, 48, 48, 48, 48, 48] = v))))"

definition test_hex_to_hex_bytes :: "unit outcome" where
  "test_hex_to_hex_bytes =
     obind (to_hex_bytes [52, 48, 48] (replicate 6 0)) (\<lambda>(dest, num_hex_bytes).
     obind (assert_that (num_hex_bytes = 6)) (\<lambda>_.
     assert_that (dest = [51, 52, 51, 48, 51, 48])))"

lemma ascii_simps [simp]: "ascii [] = []" "ascii (c # s) = of_char c # ascii s"
  by (simp_all add: ascii_def)

lemma hex_string_evals:
  "hex_to_string [1, 2, 3, 4] = ascii ''01020304''" "hex_from_string (ascii ''01020304'') = [1, 2, 3, 4]"
  by (code_simp)+

lemma hex_u64_evals:
  "hex_to_string_u64 (- 1) False = ascii ''ffffffffffffffff''"
  "hex_to_string_u64 0 False = ascii ''0000000000000000''"
  "hex_to_string_u64 0 True = ascii []"
  "hex_to_string_u64 0x400 True = ascii ''400''"
  "hex_to_string_u64 255 True = ascii ''ff''"
  by (code_simp)+

lemma hex_from_u64_evals:
  "hex_from_string_u64 (ascii ''0x400'') = 0x400"
  "hex_from_string_u64 (ascii ''0x0'') = 0"
  "hex_from_string_u64 (ascii ''ffffffffffffffff'') = - 1"
  "hex_from_string_u64 (ascii ''ff'') = 255"
  by (code_simp)+

lemma hex_tests:
  "test_hex_to_and_from_string = Returns ()" "test_hex_to_and_from_string_u64 = Returns ()"
  "test_hex_to_vec_u64 = Returns ()" "test_hex_to_hex_bytes = Returns ()"
proof -
  show "test_hex_to_and_from_string = Returns ()"
    unfolding test_hex_to_and_from_string_def Let_def hex_string_evals by simp
  show "test_hex_to_and_from_string_u64 = Returns ()"
    unfolding test_hex_to_and_from_string_u64_def Let_def hex_u64_evals hex_from_u64_evals by simp
  have "hex_to_vec_u64 i skip = hex_to_string_u64 i skip" for i skip
    by (simp add: hex_to_vec_u64_def hex_to_string_u64_def)
  moreover have "(1024 :: u64) = 0x400" by simp
  ultimately show "test_hex_to_vec_u64 = Returns ()"
    unfolding test_hex_to_vec_u64_def Let_def by (simp only: hex_u64_evals) simp
  show "test_hex_to_hex_bytes = Returns ()"
    unfolding test_hex_to_hex_bytes_def by code_simp
qed

section \<open>Escapes\<close>

definition test_escape_unescape :: "unit outcome" where
  "test_escape_unescape =
     (let s = ascii [CHR 0x5c, CHR ''0'', CHR ''0'', CHR ''0''];
          unescaped = str_unescape s; escaped = str_escape unescaped in
      obind (assert_that (escaped = ascii [CHR 0x5c, CHR ''0'', CHR ''0'', CHR ''0''])) (\<lambda>_.
      obind (index unescaped 0) (\<lambda>x. obind (assert_that (x = 0)) (\<lambda>_.
      let s = ascii [CHR 0x5c, CHR ''0'', CHR ''0''];
          unescaped = str_unescape s; escaped = str_escape unescaped in
      obind (assert_that (escaped = ascii [CHR 0x5c, CHR ''0'', CHR ''0''])) (\<lambda>_.
      obind (index unescaped 0) (\<lambda>x. obind (assert_that (x = 0)) (\<lambda>_.
      let s = ascii [CHR 0x5c, CHR ''A'', CHR ''0'', CHR ''a''];
          unescaped = str_unescape s; escaped = str_escape unescaped in
      obind (assert_that (escaped = ascii [CHR 0x5c, CHR ''a'', CHR ''0'', CHR ''a''])) (\<lambda>_.
      obind (index unescaped 0) (\<lambda>x. obind (assert_that (x = 160)) (\<lambda>_.
      obind (index unescaped 1) (\<lambda>x. assert_that (x = 97))))))))))))"

lemma escape_evals:
  "str_unescape [92, 48, 48, 48] = [0, 48]" "str_unescape [92, 48, 48] = [0]" "str_unescape [92, 65, 48, 97] = [160, 97]"
  "str_escape [0, 48] = [92, 48, 48, 48]" "str_escape [0] = [92, 48, 48]" "str_escape [160, 97] = [92, 97, 48, 97]"
  by code_simp+

lemma escape_tests: "test_escape_unescape = Returns ()"
  by (simp add: test_escape_unescape_def Let_def escape_evals del: str_unescape.simps str_escape.simps)

section \<open>The clock\<close>

text \<open>
  The first call goes through the slow path, the second reads the instant that the first stored. The
  lists say how much time passes before each step of the two calls, \<open>sleep\<close> for how long the
  thread sleeps between them. The two calls of the test are those of two threads of the model, one
  after the other. The test takes up to \<open>750\<close> milliseconds for granted.
\<close>

definition delayed :: "nat \<Rightarrow> nat list \<Rightarrow> (nat + nat) list" where
  "delayed t ds = concat (map (\<lambda>d. [Inl d, Inr t]) ds)"

definition test_monotonic_clock :: "nat list \<Rightarrow> nat \<Rightarrow> nat list \<Rightarrow> nat \<Rightarrow> unit outcome option" where
  "test_monotonic_clock ds1 sleep ds2 now =
     Option.bind (ms_run (delayed 0 ds1) (ms_init 2 now)) (\<lambda>s.
     case pcs s ! 0 of
       Finished start \<Rightarrow>
         Option.bind (ms_run (Inl sleep # delayed 1 ds2) s) (\<lambda>s.
         case pcs s ! 1 of
           Finished end_ms \<Rightarrow>
             Some (obind (assert_that (0 \<le>s start)) (\<lambda>_.
                   obind (assert_that (500 \<le> \<bar>sint (end_ms - start)\<bar>)) (\<lambda>_.
                   assert_that (\<bar>sint (end_ms - start)\<bar> < 750))))
         | _ \<Rightarrow> None)
     | _ \<Rightarrow> None)"

text \<open>It passes if at most 749 milliseconds pass between the readings of the two calls.\<close>

lemma monotonic_clock_test:
  assumes "length ds1 = 5" and "length ds2 = 2"
    and "500 * 1000000 \<le> sleep" and "sleep + sum_list ds2 \<le> 749 * 1000000"
    and "now + sum_list ds1 < 2 ^ 60"
  shows "test_monotonic_clock ds1 sleep ds2 now = Some (Returns ())"
proof -
  obtain a b c d f x y where ds: "ds1 = [a, b, c, d, f]" "ds2 = [x, y]"
    using assms(1,2) by (auto simp: length_Suc_conv eval_nat_numeral)
  define r1 r2 where "r1 = elapsed_ms (now + a + b + c + d + f) (now + a + b + c)"
    and "r2 = elapsed_ms (now + a + b + c + d + f + sleep + x + y) (now + a + b + c)"
  obtain s where s: "ms_run (delayed 0 ds1) (ms_init 2 now) = Some s" "pcs s = [Finished r1, Start]"
    "holder s = None" "startup s = Some (now + a + b + c)" "clock s = now + a + b + c + d + f"
    by (simp add: ds delayed_def ms_run_def ms_tick_def ms_init_def ms_thread_step_def ms_return_def
        numeral_2_eq_2 Let_def r1_def)
  obtain s' where s': "ms_run (Inl sleep # delayed 1 ds2) s = Some s'" "pcs s' ! 1 = Finished r2"
    using s(2-5) by (simp add: ds delayed_def ms_run_def ms_tick_def ms_thread_step_def ms_return_def
        Let_def r2_def)
  have v1: "sint r1 = int ((d + f) div 1000000)"
    unfolding r1_def using assms(5) elapsed_ms_sint [of "now + a + b + c + d + f" "now + a + b + c"]
    by (simp add: ds add.assoc)
  have v2: "sint r2 = int ((d + f + sleep + x + y) div 1000000)"
    unfolding r2_def using assms(4,5) elapsed_ms_sint [of "now + a + b + c + d + f + sleep + x + y" "now + a + b + c"]
    by (simp add: ds add.assoc)
  have "500 + int ((d + f) div 1000000) \<le> int ((d + f + sleep + x + y) div 1000000)"
    "int ((d + f + sleep + x + y) div 1000000) \<le> 749 + int ((d + f) div 1000000)"
    using assms(3,4) by (simp_all add: ds)
  then have d: "500 \<le> sint r2 - sint r1" "sint r2 - sint r1 \<le> 749" "0 \<le> sint r1"
    by (simp_all add: v1 v2)
  then have "sint (r2 - r1) = sint r2 - sint r1" by (simp add: sint_diff Let_def)
  then show ?thesis
    using s s' d by (simp add: test_monotonic_clock_def word_sle_eq)
qed

section \<open>Immortal objects\<close>

text \<open>Each test makes one object, among whatever was leaked before.\<close>

definition test_immortal_new :: "int list \<Rightarrow> unit outcome" where
  "test_immortal_new heap =
     (let (immortal, heap) = immortal_new 10 heap in
      obind (immortal_as_ref heap immortal) (\<lambda>x. assert_that (x = 10)))"

definition test_immortal_deref :: "int list \<Rightarrow> unit outcome" where
  "test_immortal_deref heap =
     (let (immortal, heap) = immortal_new 10 heap in
      obind (immortal_deref heap immortal) (\<lambda>x. assert_that (x = 10)))"

definition test_immortal_as_ref :: "int list \<Rightarrow> unit outcome" where
  "test_immortal_as_ref heap =
     (let (immortal, heap) = immortal_new 10 heap in
      obind (immortal_as_ref heap immortal) (\<lambda>x. assert_that (x = 10)))"

lemma immortal_tests:
  "test_immortal_new heap = Returns ()" "test_immortal_deref heap = Returns ()" "test_immortal_as_ref heap = Returns ()"
  by (simp_all add: test_immortal_new_def test_immortal_deref_def test_immortal_as_ref_def
      immortal_new_def immortal_deref_def immortal_as_ref_def)

end
