(* ===== verification/Inet_Tests.thy ===== *)
theory Inet_Tests
  imports Unit_Tests InetText
begin

text \<open>
  The unit tests of \<open>inetaddress.rs\<close>, on a host of either byte order. The test of the layout of the
  C structures is left out: the layout is what the model of the addresses starts from. Where a test
  reads an IPv6 address through \<open>get_s6_addr\<close> it takes the memory behind the reference to be intact.
\<close>

section \<open>The tests\<close>

definition unwrap :: "'e + 'a \<Rightarrow> 'a outcome" where
  "unwrap r = (case r of Inl _ \<Rightarrow> Panics | Inr x \<Rightarrow> Returns x)"

definition parse_unwrap :: "endian \<Rightarrow> string \<Rightarrow> inet outcome" where
  "parse_unwrap e s = unwrap (inet_from_str e (ascii s))"

definition test_inet_values :: "unit outcome" where
  "test_inet_values =
     obind (assert_that (AF_INET \<noteq> 0)) (\<lambda>_.
     obind (assert_that (AF_INET6 \<noteq> 0)) (\<lambda>_.
     assert_that (AF_INET \<noteq> AF_INET6)))"

text \<open>\<open>v port\<close> are the random octets that the turn of the loop for \<open>port\<close> draws.\<close>

definition set_get_loop :: "endian \<Rightarrow> (nat \<Rightarrow> u8 list) \<Rightarrow> unit outcome" where
  "set_get_loop e v =
     for_loop (\<lambda>_ port.
       let (family, addr) = inet_set e inet_new (v port) (of_nat port) in
       obind (assert_that (family \<noteq> 0)) (\<lambda>_.
       obind (assert_that (inet_ip_bytes e addr = v port)) (\<lambda>_.
       assert_that (inet_port e addr = of_nat port)))) [0..<65536] ()"

definition test_inet_set_get :: "endian \<Rightarrow> (nat \<Rightarrow> u8 list) \<Rightarrow> (nat \<Rightarrow> u8 list) \<Rightarrow> unit outcome" where
  "test_inet_set_get e v4 v6 = obind (set_get_loop e v4) (\<lambda>_. set_get_loop e v6)"

definition test_inet_eq :: "endian \<Rightarrow> unit outcome" where
  "test_inet_eq e =
     obind (parse_unwrap e ''1.2.3.4/1234'') (\<lambda>ip4_a.
     obind (parse_unwrap e ''2603:6010:6e00:1118:d92a:ab88:4dfb:670a/1234'') (\<lambda>ip6_a.
     obind (parse_unwrap e ''1.2.3.4/1234'') (\<lambda>ip4_b.
     obind (parse_unwrap e ''2603:6010:6e00:1118:d92a:ab88:4dfb:670a/1234'') (\<lambda>ip6_b.
     obind (parse_unwrap e ''1.2.3.5/1234'') (\<lambda>ip4_c.
     obind (parse_unwrap e ''3603:6010:6e00:1118:d92a:ab88:4dfb:670a/1234'') (\<lambda>ip6_c.
     obind (assert_that (\<not> inet_eq e (inet_clone ip4_a) ip6_a)) (\<lambda>_.
     obind (assert_that (inet_eq e ip4_a ip4_b)) (\<lambda>_.
     obind (assert_that (inet_eq e ip6_a ip6_b)) (\<lambda>_.
     obind (assert_that (\<not> inet_eq e ip6_a ip6_c)) (\<lambda>_.
     assert_that (\<not> inet_eq e ip4_a ip4_c)))))))))))"

definition test_inet_try_into :: "endian \<Rightarrow> unit outcome" where
  "test_inet_try_into e =
     obind (parse_unwrap e ''1.2.3.4/1234'') (\<lambda>ip4.
     obind (obind (try_into_ip_addr True e ip4) unwrap) (\<lambda>ipaddr4.
     obind (assert_that (case ipaddr4 of Ipv4Addr _ \<Rightarrow> True | Ipv6Addr _ \<Rightarrow> False)) (\<lambda>_.
     let new_ip4 = inet_from_ip_addr e ipaddr4 in
     obind (assert_that (inet_is_ipv4 e new_ip4)) (\<lambda>_.
     obind (parse_unwrap e ''2603:6010:6e00:1118:d92a:ab88:4dfb:670a/1234'') (\<lambda>ip6.
     obind (obind (try_into_ip_addr True e ip6) unwrap) (\<lambda>ipaddr6.
     obind (assert_that (case ipaddr6 of Ipv4Addr _ \<Rightarrow> False | Ipv6Addr _ \<Rightarrow> True)) (\<lambda>_.
     let new_ip6 = inet_from_ip_addr e ipaddr6 in
     assert_that (inet_is_ipv6 e new_ip6))))))))"

definition test_inet_tofrom_bytes :: "endian \<Rightarrow> unit outcome" where
  "test_inet_tofrom_bytes e =
     obind (parse_unwrap e ''1.2.3.4/1234'') (\<lambda>ip4.
     obind (tfb_to_bytes (\<lambda>v. inet_write_bytes e vec_write_all ip4 v)) (\<lambda>bytes.
     obind (unwrap (tfb_from_bytes (inet_read_bytes e slice_read_exact) bytes)) (\<lambda>ip4_from_bytes.
     assert_that (inet_eq e ip4 ip4_from_bytes))))"

definition test_inet_ipv6_string :: "endian \<Rightarrow> unit outcome" where
  "test_inet_ipv6_string e =
     obind (parse_unwrap e ''2603:6010:6e00:1118:d92a:ab88:4dfb:670a/1234'') (\<lambda>ip.
     obind (assert_that (ascii ''2603:6010:6e00:1118:d92a:ab88:4dfb:670a/1234'' = inet_to_string e ip)) (\<lambda>_.
     obind (parse_unwrap e ''fd80::1/1234'') (\<lambda>ip.
     assert_that (ascii ''fd80::1/1234'' = inet_to_string e ip))))"

definition test_inet_ipv4_string :: "endian \<Rightarrow> unit outcome" where
  "test_inet_ipv4_string e =
     obind (parse_unwrap e ''1.2.3.4/1234'') (\<lambda>ip. assert_that (ascii ''1.2.3.4/1234'' = inet_to_string e ip))"

definition test_inet_invalid_string :: "endian \<Rightarrow> unit outcome" where
  "test_inet_invalid_string e =
     (let ip4 = inet_from_str e (ascii ''-1.-2.-3.-4/1234'') in
      obind (assert_that (isl ip4)) (\<lambda>_.
      let ip6 = inet_from_str e (ascii ''-2603:6010:6e00:1118:d92a:ab88:4dfb:670a/1234'') in
      assert_that (isl ip6)))"

definition test_inet_zero :: "endian \<Rightarrow> unit outcome" where
  "test_inet_zero e =
     obind (parse_unwrap e ''1.2.3.4/1234'') (\<lambda>ip4.
     let ip4 = inet_zero ip4 in
     obind (assert_that (inet_is_nil e ip4)) (\<lambda>_.
     obind (parse_unwrap e ''2603:6010:6e00:1118:d92a:ab88:4dfb:670a/1234'') (\<lambda>ip6.
     let ip6 = inet_zero ip6 in
     assert_that (inet_is_nil e ip6))))"

section \<open>The addresses of the tests\<close>

definition TEST_IP6 :: "u8 list" where
  "TEST_IP6 = [0x26, 0x03, 0x60, 0x10, 0x6e, 0x00, 0x11, 0x18, 0xd9, 0x2a, 0xab, 0x88, 0x4d, 0xfb, 0x67, 0x0a]"

lemma parse_text:
  assumes "length ip = 4 \<or> length ip = 16"
    and "ascii s = (if length ip = 4 then ipv4_display ip else ipv6_display ip) @ 47 # show_radix 10 (unat p)"
  shows "parse_unwrap e s = Returns (inet_from_ip_port e ip p)"
    and "inet_to_string e (inet_from_ip_port e ip p) = ascii s"
proof -
  obtain f where f: "inet_view e (inet_from_ip_port e ip p) = Endpoint f ip p"
    "f = (if length ip = 4 then AF_INET else AF_INET6)"
    using from_ip_port_view assms(1) by auto
  then show s: "inet_to_string e (inet_from_ip_port e ip p) = ascii s"
    using inet_to_string_view [OF f(1)] assms(2) by (auto split: if_splits)
  show "parse_unwrap e s = Returns (inet_from_ip_port e ip p)"
    using inet_text_ip [OF from_ip_port_view(1) f(1), of e] f(2) s by (auto simp: parse_unwrap_def unwrap_def split: if_splits)
qed

lemma show_step:
  "n < radix \<Longrightarrow> show_radix radix n = [digit_char n]"
  "2 \<le> radix \<Longrightarrow> radix \<le> n \<Longrightarrow> show_radix radix n = show_radix radix (n div radix) @ [digit_char (n mod radix)]"
  by (simp_all add: show_radix.simps [of radix n])

definition TEST_FD80 :: "u8 list" where
  "TEST_FD80 = [0xfd, 0x80, 0, 0, 0, 0, 0, 0, 0, 0, 0, 0, 0, 0, 0, 1]"

lemma display_evals:
  "ascii ''1.2.3.4/1234'' = ipv4_display [1, 2, 3, 4] @ 47 # show_radix 10 1234"
  "ascii ''1.2.3.5/1234'' = ipv4_display [1, 2, 3, 5] @ 47 # show_radix 10 1234"
  "ascii ''2603:6010:6e00:1118:d92a:ab88:4dfb:670a/1234'' = ipv6_display TEST_IP6 @ 47 # show_radix 10 1234"
  "ascii ''3603:6010:6e00:1118:d92a:ab88:4dfb:670a/1234'' = ipv6_display (TEST_IP6[0 := 0x36]) @ 47 # show_radix 10 1234"
  "ascii ''fd80::1/1234'' = ipv6_display TEST_FD80 @ 47 # show_radix 10 1234"
  by (simp_all add: ipv4_display_def ipv6_display_def TEST_IP6_def TEST_FD80_def show_step digit_char_def)

lemma test_lengths [simp]: "length TEST_IP6 = 16" "length TEST_FD80 = 16"
  by (simp_all add: TEST_IP6_def TEST_FD80_def)

lemma test_parses [simp]:
  "parse_unwrap e (''1.2.3.4/1234'') = Returns (inet_from_ip_port e [1, 2, 3, 4] 1234)"
  "parse_unwrap e ''1.2.3.5/1234'' = Returns (inet_from_ip_port e [1, 2, 3, 5] 1234)"
  "parse_unwrap e ''2603:6010:6e00:1118:d92a:ab88:4dfb:670a/1234'' = Returns (inet_from_ip_port e TEST_IP6 1234)"
  "parse_unwrap e ''3603:6010:6e00:1118:d92a:ab88:4dfb:670a/1234'' = Returns (inet_from_ip_port e (TEST_IP6[0 := 0x36]) 1234)"
  "parse_unwrap e ''fd80::1/1234'' = Returns (inet_from_ip_port e TEST_FD80 1234)"
  by (rule parse_text(1); simp add: display_evals del: ascii_simps)+

lemma test_prints:
  "inet_to_string e (inet_from_ip_port e [1, 2, 3, 4] 1234) = ascii ''1.2.3.4/1234''"
  "inet_to_string e (inet_from_ip_port e TEST_IP6 1234) = ascii ''2603:6010:6e00:1118:d92a:ab88:4dfb:670a/1234''"
  "inet_to_string e (inet_from_ip_port e TEST_FD80 1234) = ascii ''fd80::1/1234''"
  by (rule parse_text(2); simp add: display_evals del: ascii_simps)+

lemma from_ip_port_fields:
  "length ip = 4 \<Longrightarrow> sa_family e (inet_from_ip_port e ip p) = AF_INET"
  "length ip = 16 \<Longrightarrow> sa_family e (inet_from_ip_port e ip p) = AF_INET6"
  using view_fields(1) [OF from_ip_port_view(2)] view_fields(1) [OF from_ip_port_view(3)] by simp_all

section \<open>The tests pass\<close>

lemma set_get_loop_ok:
  assumes "\<And>port. length (v port) = n" and "n = 4 \<or> n = 16"
  shows "set_get_loop e v = Returns ()"
proof -
  have "let (family, addr) = inet_set e inet_new (v port) p in
      family \<noteq> 0 \<and> inet_ip_bytes e addr = v port \<and> inet_port e addr = p" for port and p :: u16
  proof -
    have len: "length (v port) = 4 \<or> length (v port) = 16" using assms by simp
    then have "inet_ip_bytes e (inet_from_ip_port e (v port) p) = v port \<and> inet_port e (inet_from_ip_port e (v port) p) = p"
      using view_fields(2,3) [OF from_ip_port_view(2)] view_fields(2,3) [OF from_ip_port_view(3)] by blast
    moreover have "fst (inet_set e inet_new (v port) p) \<noteq> 0" using len by (auto simp: inet_set_eq)
    ultimately show ?thesis by (cases "inet_set e inet_new (v port) p") (simp add: inet_from_ip_port_def)
  qed
  then have "(let (family, addr) = inet_set e inet_new (v port) p in
       obind (assert_that (family \<noteq> 0)) (\<lambda>_.
       obind (assert_that (inet_ip_bytes e addr = v port)) (\<lambda>_.
       assert_that (inet_port e addr = p)))) = Returns ()" for port and p :: u16
    by (simp add: split_def Let_def)
  then have "for_loop (\<lambda>_ port. let (family, addr) = inet_set e inet_new (v port) (of_nat port) in
       obind (assert_that (family \<noteq> 0)) (\<lambda>_.
       obind (assert_that (inet_ip_bytes e addr = v port)) (\<lambda>_.
       assert_that (inet_port e addr = of_nat port)))) ports () = Returns ()" for ports
    by (induction ports) simp_all
  then show ?thesis by (simp only: set_get_loop_def)
qed

lemma sin6_length: "length (sin6_addr (inet_from_ip_port e ip p)) = 16"
  using from_ip_port_view(1) [of e ip p] by (simp add: sin6_addr_def inet_inv_def layout_defs)

lemma minus_no_address: "ip_from_str (45 # s) = None"
  by (rule ip_from_str_none) (simp_all add: no_digit_def to_digit_def)

lemma inet_tests:
  "test_inet_values = Returns ()" "test_inet_eq e = Returns ()" "test_inet_try_into e = Returns ()"
  "test_inet_tofrom_bytes e = Returns ()" "test_inet_ipv6_string e = Returns ()"
  "test_inet_ipv4_string e = Returns ()" "test_inet_invalid_string e = Returns ()"
  "test_inet_zero e = Returns ()"
proof -
  show "test_inet_values = Returns ()" by (simp add: test_inet_values_def AF_INET_def AF_INET6_def)
  show "test_inet_eq e = Returns ()"
    by (simp add: test_inet_eq_def inet_eq_view from_ip_port_view inet_clone_def TEST_IP6_def)
  show "test_inet_try_into e = Returns ()"
    by (simp add: test_inet_try_into_def s_addr_octets_def sin6_length try_into_ip_addr_def from_ip_port_fields get_s6_addr_def unwrap_def Let_def
        inet_from_ip_addr_def inet_from_ipv4_def inet_from_ipv6_def inet_is_ipv4_def inet_is_ipv6_def)
  have "inet_eq e ip4 (endpoint_inet e (inet_view e ip4))" if "ip4 = inet_from_ip_port e [1, 2, 3, 4] 1234" for ip4
  proof -
    have "inet_inv ip4" "inet_view e ip4 = Endpoint AF_INET [1, 2, 3, 4] 1234" by (simp_all add: that from_ip_port_view)
    then show ?thesis using endpoint_inet_view [OF view_ok, of ip4 e e] by (simp add: inet_eq_view)
  qed
  then show "test_inet_tofrom_bytes e = Returns ()"
    using inet_bytes.to_bytes_enc [where e = e, OF from_ip_port_view(1)]
      inet_bytes.rd_enc [where e = e and rest = "[]", OF from_ip_port_view(1)]
    by (simp add: test_inet_tofrom_bytes_def unwrap_def tfb_from_bytes_def)
  show "test_inet_ipv6_string e = Returns ()" "test_inet_ipv4_string e = Returns ()"
    by (simp_all add: test_inet_ipv6_string_def test_inet_ipv4_string_def test_prints del: ascii_simps)
  show "test_inet_zero e = Returns ()"
    using inet_new_view(2) [of e]
    by (simp add: test_inet_zero_def inet_zero_def inet_new_def inet_view_def inet_family_def inet_is_nil_def)
  have "inet_from_str e (ascii ''-1.-2.-3.-4/1234'') = Inl (InvalidParameterError ''invalid IP/CIDR'')"
    "inet_from_str e (ascii ''-2603:6010:6e00:1118:d92a:ab88:4dfb:670a/1234'') = Inl (InvalidParameterError ''invalid IP/CIDR'')"
    by (simp_all add: inet_from_str_def str_trim_id split_port_def minus_no_address)
  then show "test_inet_invalid_string e = Returns ()"
    by (simp add: test_inet_invalid_string_def del: ascii_simps)
qed

end
