(* ===== verification/Pool_Tests.thy ===== *)
theory Pool_Tests
  imports Unit_Tests Pool
begin

text \<open>
  The unit test of \<open>buf.rs\<close>: it takes buffers from a pool of 1024, more than there are, fills them,
  drops them, and counts what is left in the pool after each round.
\<close>

section \<open>The test\<close>

text \<open>
  The pool and the vector of buffers of the test; \<open>push\<close> adds at the end. The test ends where its
  last assertion does: the drop of the empty vector and of the pool is not part of it.
\<close>

definition push_get :: "sys \<Rightarrow> sys outcome" where
  "push_get s = obind (pool_get (sy_pool s)) (\<lambda>(h, p). Returns (s\<lparr>sy_pool := p, sy_live := sy_live s @ [h]\<rparr>))"

definition push_new :: "nat \<Rightarrow> sys \<Rightarrow> sys outcome" where
  "push_new c s = obind (buf_new c) (\<lambda>b. Returns (s\<lparr>sy_live := sy_live s @ [Single b]\<rparr>))"

fun append_each :: "u8 list \<Rightarrow> pool \<Rightarrow> handle list \<Rightarrow> (handle list \<times> pool) outcome" where
  "append_each bs p [] = Returns ([], p)"
| "append_each bs p (h # hs) =
     (case handle_buf p h of
        None \<Rightarrow> Undefined
      | Some b \<Rightarrow>
          obind (buf_append b bs) (\<lambda>(ok, b').
          obind (assert_that ok) (\<lambda>_.
          case handle_update p h b' of (h', p) \<Rightarrow>
            obind (append_each bs p hs) (\<lambda>(hs', p). Returns (h' # hs', p)))))"

definition append_buffers :: "u8 list \<Rightarrow> sys \<Rightarrow> sys outcome" where
  "append_buffers bs s =
     obind (append_each bs (sy_pool s) (sy_live s)) (\<lambda>(hs, p). Returns (s\<lparr>sy_pool := p, sy_live := hs\<rparr>))"

definition clear_buffers :: "sys \<Rightarrow> sys outcome" where
  "clear_buffers s =
     for_loop (\<lambda>s h. obind (handle_drop (sy_pool s) h) (\<lambda>p. Returns (s\<lparr>sy_pool := p, sy_live := tl (sy_live s)\<rparr>)))
       (sy_live s) s"

definition test_pool_alloc_free :: "bool \<Rightarrow> nat \<Rightarrow> nat \<Rightarrow> unit outcome" where
  "test_pool_alloc_free debug base inner =
     obind (pool_new debug base inner 1024 1024) (\<lambda>p.
     obind (assert_that (pool_remaining p = 1024)) (\<lambda>_.
     obind (for_loop (\<lambda>s _. push_get s) [0..<512] \<lparr>sy_pool = p, sy_owner = True, sy_live = []\<rparr>) (\<lambda>s.
     obind (assert_that (pool_remaining (sy_pool s) = 512)) (\<lambda>_.
     obind (for_loop (\<lambda>s _. push_new 1024 s) [0..<512] s) (\<lambda>s.
     obind (append_buffers (replicate 1024 1) s) (\<lambda>s.
     obind (assert_that (pool_remaining (sy_pool s) = 512)) (\<lambda>_.
     obind (clear_buffers s) (\<lambda>s.
     obind (assert_that (pool_remaining (sy_pool s) = 1024)) (\<lambda>_.
     obind (for_loop (\<lambda>s _. push_get s) [0..<2048] s) (\<lambda>s.
     obind (assert_that (pool_remaining (sy_pool s) = 0)) (\<lambda>_.
     obind (append_buffers (replicate 1024 1) s) (\<lambda>s.
     obind (clear_buffers s) (\<lambda>s.
     assert_that (pool_remaining (sy_pool s) = 1024))))))))))))))"

section \<open>It passes\<close>

definition fresh :: "pool \<Rightarrow> nat \<Rightarrow> handle \<Rightarrow> bool" where
  "fresh p cap h \<longleftrightarrow> (\<exists>b. handle_buf p h = Some b \<and> buf_inv b \<and> buf_capacity b = cap \<and> buf_list b = [])"

definition all_fresh :: "nat \<Rightarrow> nat \<Rightarrow> sys \<Rightarrow> bool" where
  "all_fresh cap n s \<longleftrightarrow> sys_inv cap n s \<and> sy_owner s \<and> list_all (fresh (sy_pool s) cap) (sy_live s)"

lemma sys_inv_rotate: "sys_inv cap n (s\<lparr>sy_live := h # hs\<rparr>) \<longleftrightarrow> sys_inv cap n (s\<lparr>sy_live := hs @ [h]\<rparr>)"
  by (cases h) (auto simp: sys_inv_def Let_def)

lemma sys_inv_remaining:
  "sys_inv cap n s \<Longrightarrow> pool_remaining (sy_pool s) + length (pooled (sy_live s)) = n \<and> pool_remaining (sy_pool s) \<le> n"
  by (simp add: sys_inv_def Let_def pool_remaining_def)

lemma push_get_ok:
  assumes "all_fresh cap n s"
  shows "\<exists>s'. push_get s = Returns s' \<and> all_fresh cap n s' \<and> length (sy_live s') = Suc (length (sy_live s))
    \<and> pool_remaining (sy_pool s') = pool_remaining (sy_pool s) - 1"
proof -
  have inv: "sys_inv cap n s" "sy_owner s" and fr: "list_all (fresh (sy_pool s) cap) (sy_live s)"
    using assms by (simp_all add: all_fresh_def)
  obtain h p where g: "pool_get (sy_pool s) = Returns (h, p)" using get_returns [OF inv] by blast
  have same: "pl_mem p = pl_mem (sy_pool s)" "pl_freed p = pl_freed (sy_pool s)"
    "pl_cursor p = pl_cursor (sy_pool s) - 1"
    using g by (auto simp: pool_get_def outcome_simps Let_def split: if_splits)
  then have "handle_buf p = handle_buf (sy_pool s)" by (intro ext) (simp add: handle_buf_def split: handle.split)
  then have "list_all (fresh p cap) (sy_live s @ [h])"
    using fr get_inv(2) [OF inv g] by (simp add: fresh_def [abs_def])
  moreover have "sys_inv cap n (s\<lparr>sy_pool := p, sy_live := sy_live s @ [h]\<rparr>)"
    using get_inv(1) [OF inv g] sys_inv_rotate [where s = "s\<lparr>sy_pool := p\<rparr>"] by simp
  ultimately show ?thesis
    using g same(3) inv(2) by (simp add: push_get_def all_fresh_def pool_remaining_def)
qed

lemma push_gets_ok:
  "all_fresh cap n s \<Longrightarrow>
   \<exists>s'. for_loop (\<lambda>s _. push_get s) xs s = Returns s' \<and> all_fresh cap n s'
     \<and> pool_remaining (sy_pool s') = pool_remaining (sy_pool s) - length xs"
proof (induction xs arbitrary: s)
  case (Cons x xs)
  obtain s1 where s1: "push_get s = Returns s1" "all_fresh cap n s1"
    "pool_remaining (sy_pool s1) = pool_remaining (sy_pool s) - 1"
    using push_get_ok [OF Cons.prems] by blast
  show ?case using Cons.IH [OF s1(2)] s1 by simp
qed simp

lemma push_new_ok:
  assumes "all_fresh cap n s"
  shows "\<exists>s'. push_new cap s = Returns s' \<and> all_fresh cap n s' \<and> sy_pool s' = sy_pool s"
proof -
  have inv: "sys_inv cap n s" using assms by (simp add: all_fresh_def)
  then have v: "valid_capacity cap" by (simp add: sys_inv_def Let_def)
  obtain b where b: "buf_new cap = Returns b" using buf_new_spec [of cap] v by auto
  have "sys_inv cap n (s\<lparr>sy_live := sy_live s @ [Single b]\<rparr>)"
    using single_inv [OF inv] new_single_ok [OF b] sys_inv_rotate by blast
  moreover have "fresh (sy_pool s) cap (Single b)"
    using new_single_ok [OF b] by (simp add: fresh_def handle_buf_def single_buf_ok_def)
  ultimately show ?thesis using assms b by (simp add: push_new_def all_fresh_def)
qed

lemma push_news_ok:
  "all_fresh cap n s \<Longrightarrow>
   \<exists>s'. for_loop (\<lambda>s _. push_new cap s) xs s = Returns s' \<and> all_fresh cap n s' \<and> sy_pool s' = sy_pool s"
proof (induction xs arbitrary: s)
  case (Cons x xs)
  obtain s1 where "push_new cap s = Returns s1" "all_fresh cap n s1" "sy_pool s1 = sy_pool s"
    using push_new_ok [OF Cons.prems] by blast
  then show ?case using Cons.IH [of s1] by simp
qed simp

lemma append_each_ok:
  assumes "sys_inv cap n (s\<lparr>sy_live := l @ hs\<rparr>)" and "list_all (fresh (sy_pool s) cap) hs" and "length bs \<le> cap"
  shows "\<exists>hs' p. append_each bs (sy_pool s) hs = Returns (hs', p)
    \<and> sys_inv cap n (s\<lparr>sy_pool := p, sy_live := l @ hs'\<rparr>) \<and> pooled hs' = pooled hs"
  using assms(1,2)
proof (induction hs arbitrary: s l)
  case Nil
  then show ?case by simp
next
  case (Cons h hs)
  obtain b where b: "handle_buf (sy_pool s) h = Some b" "buf_inv b" "buf_capacity b = cap" "buf_list b = []"
    using Cons.prems(2) by (auto simp: fresh_def)
  obtain b' where b': "buf_append b bs = Returns (True, b')"
    using buf_append_spec [OF buf_rep_inv [OF b(2)], of bs] b(3,4) assms(3) by auto
  obtain h' p where u: "handle_update (sy_pool s) h b' = (h', p)" by fastforce
  have inv: "sys_inv cap n (s\<lparr>sy_pool := p, sy_live := (l @ [h']) @ hs\<rparr>)"
    using use_inv [OF Cons.prems(1), of l h hs b False "[BAppend bs]" "[True]" b' h' p] b(1) b' u by simp
  have "handle_buf p x = handle_buf (sy_pool s) x" if "x \<in> set hs" for x
  proof -
    have "a \<noteq> a'" if "h = Pooled a" "x = Pooled a'" for a a'
    proof -
      have "a' \<in> set (pooled hs)" using \<open>x \<in> set hs\<close> that(2) by (induction hs rule: pooled.induct) auto
      moreover have "distinct (pooled (l @ h # hs))" using Cons.prems(1) by (simp add: sys_inv_def Let_def)
      ultimately show ?thesis using that(1) by auto
    qed
    then show ?thesis using u by (auto simp: handle_update_def handle_buf_def split: handle.splits)
  qed
  then have "list_all (fresh p cap) hs" using Cons.prems(2) by (auto simp: list_all_iff fresh_def)
  then obtain hs' q where "append_each bs p hs = Returns (hs', q)"
    "sys_inv cap n (s\<lparr>sy_pool := q, sy_live := (l @ [h']) @ hs'\<rparr>)" "pooled hs' = pooled hs"
    using Cons.IH [of "l @ [h']" "s\<lparr>sy_pool := p\<rparr>"] inv by auto
  moreover have "pooled (h' # xs) = pooled [h] @ pooled xs" for xs
    using u by (auto simp: handle_update_def split: handle.splits)
  ultimately show ?case using b(1) b' u pooled_Cons [of h hs] by simp
qed

lemma append_buffers_ok:
  assumes "all_fresh cap n s" and "length bs \<le> cap"
  shows "\<exists>s'. append_buffers bs s = Returns s' \<and> sys_inv cap n s' \<and> sy_owner s'
    \<and> pool_remaining (sy_pool s') = pool_remaining (sy_pool s)"
proof -
  have inv: "sys_inv cap n (s\<lparr>sy_live := [] @ sy_live s\<rparr>)" "sy_owner s" "list_all (fresh (sy_pool s) cap) (sy_live s)"
    using assms(1) by (simp_all add: all_fresh_def)
  obtain hs p where e: "append_each bs (sy_pool s) (sy_live s) = Returns (hs, p)"
    "sys_inv cap n (s\<lparr>sy_pool := p, sy_live := hs\<rparr>)" "pooled hs = pooled (sy_live s)"
    using append_each_ok [OF inv(1,3) assms(2)] by auto
  then show ?thesis
    using sys_inv_remaining [OF e(2)] sys_inv_remaining [of cap n s] inv(1,2) by (auto simp: append_buffers_def)
qed

lemma clear_buffers_ok:
  assumes "sys_inv cap n s" and "sy_owner s"
  shows "\<exists>s'. clear_buffers s = Returns s' \<and> all_fresh cap n s' \<and> pool_remaining (sy_pool s') = n"
proof -
  have "\<exists>s'. for_loop (\<lambda>s h. obind (handle_drop (sy_pool s) h) (\<lambda>p. Returns (s\<lparr>sy_pool := p, sy_live := tl (sy_live s)\<rparr>)))
      hs s = Returns s' \<and> sys_inv cap n s' \<and> sy_owner s' \<and> sy_live s' = []"
    if "sys_inv cap n s" "sy_owner s" "sy_live s = hs" for s hs
    using that
  proof (induction hs arbitrary: s)
    case (Cons h hs)
    then obtain p where "handle_drop (sy_pool s) h = Returns p" "sys_inv cap n (s\<lparr>sy_pool := p, sy_live := hs\<rparr>)"
      using drop_inv [of cap n s "[]" h hs] by auto
    then show ?case using Cons.IH [of "s\<lparr>sy_pool := p, sy_live := hs\<rparr>"] Cons.prems by simp
  qed simp
  then obtain s' where "clear_buffers s = Returns s'" "sys_inv cap n s'" "sy_owner s'" "sy_live s' = []"
    using assms by (force simp: clear_buffers_def)
  then show ?thesis using sys_inv_remaining [of cap n s'] by (auto simp: all_fresh_def)
qed

text \<open>\<open>inner\<close> is the size of \<open>PoolInner\<close>.\<close>

lemma pool_test:
  assumes "inner < 2 ^ 32"
  shows "test_pool_alloc_free debug base inner = Returns ()"
proof -
  have v: "valid_capacity 1024" by (simp add: valid_capacity_def MAX_CAPACITY_def)
  have fits: "pool_size inner 1024 1024 \<le> LAYOUT_MAX"
    using assms by (simp add: pool_size_def size_of_each_buf_def LAYOUT_MAX_def PTR_SIZE_def BUFFER_HEADER_SIZE_def)
  obtain p where p: "pool_new debug base inner 1024 1024 = Returns p" "pool_remaining p = 1024"
    using v fits pool_new_eq [of debug base inner 1024 1024] by (simp add: pool_remaining_def)
  have "all_fresh 1024 1024 \<lparr>sy_pool = p, sy_owner = True, sy_live = []\<rparr>"
    using pool_new_inv [OF p(1)] by (simp add: all_fresh_def)
  from push_gets_ok [OF this, of "[0..<512]"] p(2)
  obtain s1 where s1: "for_loop (\<lambda>s _. push_get s) [0..<512] \<lparr>sy_pool = p, sy_owner = True, sy_live = []\<rparr> = Returns s1"
    "all_fresh 1024 1024 s1" "pool_remaining (sy_pool s1) = 512" by auto
  obtain s2 where s2: "for_loop (\<lambda>s _. push_new 1024 s) [0..<512] s1 = Returns s2" "all_fresh 1024 1024 s2"
    "pool_remaining (sy_pool s2) = 512" using push_news_ok [OF s1(2), of "[0..<512]"] s1(3) by auto
  have len: "length (replicate 1024 (1 :: u8)) \<le> 1024" by simp
  obtain s3 where s3: "append_buffers (replicate 1024 1) s2 = Returns s3" "sys_inv 1024 1024 s3" "sy_owner s3"
    "pool_remaining (sy_pool s3) = 512" using append_buffers_ok [OF s2(2) len] s2(3) by auto
  obtain s4 where s4: "clear_buffers s3 = Returns s4" "all_fresh 1024 1024 s4" "pool_remaining (sy_pool s4) = 1024"
    using clear_buffers_ok [OF s3(2,3)] by auto
  obtain s5 where s5: "for_loop (\<lambda>s _. push_get s) [0..<2048] s4 = Returns s5" "all_fresh 1024 1024 s5"
    "pool_remaining (sy_pool s5) = 0" using push_gets_ok [OF s4(2), of "[0..<2048]"] s4(3) by auto
  obtain s6 where s6: "append_buffers (replicate 1024 1) s5 = Returns s6" "sys_inv 1024 1024 s6" "sy_owner s6"
    using append_buffers_ok [OF s5(2) len] by auto
  obtain s7 where s7: "clear_buffers s6 = Returns s7" "pool_remaining (sy_pool s7) = 1024"
    using clear_buffers_ok [OF s6(2,3)] by auto
  show ?thesis
    unfolding test_pool_alloc_free_def p s1 s2 s3 s4 s5 s6 s7 obind.simps assert_that_simps by simp
qed

end
