(* ===== verification/Spec2Isabelle.thy ===== *)
theory Spec2Isabelle
  imports Escape Varint ArrayVec RingBuffer Pool_Isolation Pool_Threads Dict_Grammar InetText Blob Gate Memory Runtime Statics Sync
    Small_Modules Unit_Tests Inet_Tests Pool_Tests
begin

text \<open>
  A verification development for the Rust crate \<open>zerotier-common-utils\<close> in \<open>src/\<close>: containers and
  memory pools written with unsafe code, encodings of numbers, bytes and dictionaries, socket
  addresses, and small helpers. Every theory opens with what it holds; this is the overview.

  The program and its theories (files under \<open>src/src/\<close>):

  \<^item> \<open>Prelude\<close>, \<open>Threads\<close>: what the components share. A Rust expression that may panic or be
    undefined behaviour is an \<open>outcome\<close>: \<open>Returns x\<close>, \<open>Panics\<close> or \<open>Undefined\<close>, composed by
    \<open>obind\<close>. A \<open>Result\<close> is a sum with the error on the left, an \<open>Option\<close> an option. \<open>Threads\<close> has
    the contract of threads on a shared state, with the bound on their schedules.
  \<^item> \<open>Buf\<close>, \<open>Pool\<close>, \<open>Pool_Isolation\<close>, \<open>Pool_Threads\<close> (\<open>buf.rs\<close>): a buffer is its header words and
    its bytes, a byte that was never written being an empty slot; a pool is the carved allocation,
    the array of free buffers and the cursor that its mutex protects. \<open>Pool\<close> drops handed out
    buffers back into the pool and frees the allocation; its step relation covers every order of
    its users' operations. \<open>Pool_Isolation\<close> shows that no step changes the bytes of two buffers.
    \<open>Pool_Threads\<close> has the same operations at the grain of single accesses to the mutex, made by
    any number of threads, and shows that they refine the step relation of \<open>Pool\<close>.
  \<^item> \<open>Slots\<close>, \<open>ArrayVec\<close>, \<open>RingBuffer\<close> (\<open>arrayvec.rs\<close>, \<open>ringbuffer.rs\<close>): containers over arrays of
    \<open>MaybeUninit\<close>, whose slots are options.
  \<^item> \<open>Stream\<close>, \<open>Varint\<close>, \<open>To_From_Bytes\<close> (\<open>io.rs\<close>, \<open>varint.rs\<close>, \<open>tofrombytes.rs\<close>): the traits
    \<open>Read\<close> and \<open>Write\<close> as functions on a stream state, and their clients. \<open>Vec<u8>\<close>, \<open>ArrayVec\<close>
    and \<open>Buf\<close> are the writers, a byte slice is the reader.
  \<^item> \<open>Codec\<close>, \<open>Hex\<close>, \<open>Escape\<close> (\<open>hex.rs\<close>, \<open>str.rs\<close>): encodings of bytes as text.
  \<^item> \<open>BTree_Map\<close>, \<open>Utf8\<close>, \<open>Std_Text\<close>, \<open>Ip_Text\<close>: what the code uses of the standard library, the
    ordered map, UTF-8, numbers as text, trimming, and the text of IP addresses.
  \<^item> \<open>Dictionary\<close>, \<open>Dict_Grammar\<close> (\<open>dictionary.rs\<close>): the map, its writer over any stream, and the
    parser, a state machine over bytes; the grammar of what it accepts, in tokens and lines.
  \<^item> \<open>Errors\<close>, \<open>Sockaddr\<close>, \<open>InetAddress\<close>, \<open>InetText\<close> (\<open>error.rs\<close>, \<open>inetaddress.rs\<close>): the union of
    socket address structures as its 128 bytes; constructors, accessors and conversions; the CIDR
    test, the scope, equality, order, hash and key; the binary, the text and the serialized form.
  \<^item> \<open>Blob\<close> (\<open>blob.rs\<close>, \<open>base64.rs\<close>), \<open>Memory\<close> (\<open>memory.rs\<close>), \<open>Gate\<close> (\<open>gate.rs\<close>), \<open>Sync\<close>
    (\<open>sync.rs\<close>), \<open>Runtime\<close> and \<open>Statics\<close> (\<open>lib.rs\<close>), \<open>Small_Modules\<close> (\<open>cast.rs\<close>, \<open>immortal.rs\<close>,
    \<open>exitcode.rs\<close>, and \<open>fs_restrict_permissions\<close> of \<open>io.rs\<close>).
  \<^item> \<open>Unit_Tests\<close>, \<open>Inet_Tests\<close>, \<open>Pool_Tests\<close>: the \<open>#[test]\<close> functions of the crate, as definitions
    that call the models in the order of the test. That they pass is the check of the definitions
    against what the authors expect of the code.

  The interfaces are locales, each interpreted on the model of the code: \<open>prefix_codec\<close> and
  \<open>fixed_width_codec\<close> (the escaping modules), \<open>writer\<close> and \<open>reader\<close> (byte streams),
  \<open>bounded_container\<close> (\<open>ArrayVec\<close> and \<open>Buf\<close>), \<open>map_spec\<close> and \<open>canonical_map\<close> (the ordered map),
  \<open>to_from_bytes\<close> (implementors of the trait), \<open>thread_system\<close> (the two shared variables and the
  pool's mutex).

  What is shown:

  \<^item> Memory safety: no run of operations of \<open>ArrayVec\<close>, \<open>RingBuffer\<close>, \<open>Buf\<close> and \<open>Pool\<close> reads what was
    not written, leaves an allocation or touches a freed one, with the exceptions that the
    properties state; every value is dropped exactly once; a mapped guard never dangles. For the
    pool this also holds between the steps of threads that interleave at its mutex.
  \<^item> Refinement: \<open>ArrayVec\<close> and \<open>Buf\<close> implement bounded lists, the ring buffer the window of the
    last elements. The threads of a pool refine its sequential steps.
  \<^item> Equivalence: the dictionary parser accepts what the grammar of its format describes, with the
    same result; the order of addresses is the order of their fields.
  \<^item> Round trips: varint, hex, escapes, dictionary, blob, and the binary, text and serialized forms
    of an address, also between hosts of different byte orders.
  \<^item> Functional behaviour on every branch: the CIDR test, the scope tables, the parsers on arbitrary
    input, the order of addresses, the rate limiter.
  \<^item> Termination and liveness: reading a varint, splitting into chunks, waiting for a signal, and
    the two functions with a shared static variable and the calls on a pool in every interleaving.
  \<^item> Components together, in this theory: a dictionary written to the bounded writers, an address
    carried by a dictionary from one host to another, a rate limiter on the monotonic clock.

  Conventions and bounds. Machine integers are words where they are stored or wrap, and natural
  numbers where an index or a length is computed; \<open>usize\<close> has 64 bits. \<open>debug\<close> selects a build with
  overflow checks, which panics where a release build wraps. \<open>e\<close> is the byte order of the host.
  \<open>copy_live\<close> and \<open>uninit_ok\<close> mark two places that are undefined by the rules of the language and
  work on the compilers in use. Loops that need not end are partial functions into options, and
  their termination is a property of its own. The one bound on a number of turns is that of
  \<open>rb_collect\<close>, which takes elements from the iterator of the ring buffer; it is shown for every
  bound above the number of elements held. The allocator is taken to succeed where the code
  asserts that it does.

  Not modelled: the branches for Windows; the layout of socket addresses on systems other than
  Linux; the derived hash of \<open>Blob\<close>, which feeds its bytes to a hasher; the marker traits \<open>Send\<close>
  and \<open>Sync\<close>; \<open>unlikely_branch\<close>, whose body is empty; the test \<open>layout\<close> of
  \<open>inetaddress.rs\<close>, which checks the layout that the model takes as given. The Base64 engine, the
  clocks, the signals, the allocator and the system calls are parameters.
\<close>

section \<open>Components together\<close>

lemma read_back:
  "dict_inv d \<Longrightarrow> dict_from_bytes (drop (length xs) (xs @ dict_to_bytes d)) = Some (filter (\<lambda>(k, v). k \<noteq> []) d)"
  by (simp add: from_bytes_to_bytes)

text \<open>
  C27: A dictionary written to a vector of fixed capacity or to a buffer: the write reports success
  exactly if the encoding fits in what is left of the capacity, what was there before stays, and
  then the new part reads back as the dictionary.
\<close>

theorem dict_write_bounded:
  assumes "dict_inv d" and "av_inv False v" and "buf_inv b"
  shows "(\<exists>r v'. dict_write_to av_write_all v d = Returns (r, v') \<and> av_inv False v'
      \<and> (if length (av_list v) + length (dict_to_bytes d) \<le> av_C v
         then r = Inr () \<and> take (length (av_list v)) (av_list v') = av_list v
           \<and> dict_from_bytes (drop (length (av_list v)) (av_list v')) = Some (filter (\<lambda>(k, v). k \<noteq> []) d)
         else r \<noteq> Inr ()))
    \<and> (\<exists>r b'. dict_write_to buf_write_all b d = Returns (r, b') \<and> buf_inv b'
      \<and> (if length (buf_list b) + length (dict_to_bytes d) \<le> buf_capacity b
         then r = Inr () \<and> take (length (buf_list b)) (buf_list b') = buf_list b
           \<and> dict_from_bytes (drop (length (buf_list b)) (buf_list b')) = Some (filter (\<lambda>(k, v). k \<noteq> []) d)
         else r \<noteq> Inr ()))"
proof -
  obtain r v' where v: "dict_write_to av_write_all v d = Returns (r, v')" "av_inv False v'"
    "r = Inr () \<longleftrightarrow> length (av_list v) + length (dict_to_bytes d) \<le> av_C v"
    "r = Inr () \<longrightarrow> av_list v' = av_list v @ dict_to_bytes d"
    using writer.dict_write_to_spec [OF av_writer.writer_axioms assms(2), of d] by auto
  obtain q b' where b: "dict_write_to buf_write_all b d = Returns (q, b')" "buf_inv b'"
    "q = Inr () \<longleftrightarrow> length (buf_list b) + length (dict_to_bytes d) \<le> buf_capacity b"
    "q = Inr () \<longrightarrow> buf_list b' = buf_list b @ dict_to_bytes d"
    using writer.dict_write_to_spec [OF buf_writer.writer_axioms assms(3), of d] by auto
  show ?thesis using v b read_back [OF assms(1)] by auto
qed

theorem dict_write_bounded_witness:
  "\<exists>v'. dict_write_to av_write_all (av_new 4) [([97], [51])] = Returns (Inr (), v')
    \<and> dict_from_bytes (av_list v') = Some [([97], [51])]"
proof -
  have d: "dict_inv [([97], [51])]" by (simp add: dict_inv_def del: utf8_valid.simps(2))
  have len: "length (dict_to_bytes [([97], [51])]) = 4"
    by (simp add: dict_to_bytes_chunks dict_chunks_def entry_chunks_def dict_escape_def)
  obtain b where b: "buf_inv b" using buf_new_spec [of 8] by (auto simp: valid_capacity_def buf_rep_iff MAX_CAPACITY_def)
  have v: "av_inv False (av_new 4 :: u8 arrayvec)" "av_list (av_new 4 :: u8 arrayvec) = []"
    using av_rep_new [of False 4] by (simp_all add: av_rep_iff)
  have "av_C (av_new 4 :: u8 arrayvec) = 4" by (simp add: av_new_def)
  then show ?thesis using dict_write_bounded [OF d v(1) b] len v(2) by auto
qed

lemma bt_get_no_empty: "k \<noteq> [] \<Longrightarrow> bt_get (filter (\<lambda>(k, v). k \<noteq> []) d) k = bt_get d k"
  by (induction d) auto

lemma inet_to_string_utf8: "inet_is_ip e a \<Longrightarrow> inet_inv a \<Longrightarrow> utf8_valid (inet_to_string e a)"
proof -
  assume ip: "inet_is_ip e a"
  obtain f i p where v: "inet_view e a = Endpoint f i p" by (cases "inet_view e a")
  then have f: "f = AF_INET \<or> f = AF_INET6" using ip view_fields(1) by (auto simp: inet_is_ip_def)
  have "ip_char c \<Longrightarrow> c \<le> 0x7f" for c using ip_char_range [of c] order_trans [of c 126 127] by simp
  then have "list_all ip_char ds \<Longrightarrow> utf8_valid ds" for ds
    by (intro utf8_valid_ascii) (auto elim: list.pred_mono_strong)
  then show ?thesis
    using inet_to_string_view [OF v f] ipv4_display_char ipv6_display_char show_ip_char(1)
    by (auto simp: utf8_valid_append simp del: utf8_valid.simps(2) split: if_splits)
qed

text \<open>
  C21: An IP address that a program stores in a dictionary, under one key in its binary form and under
  another as text, arrives on every other host as the same endpoint in both forms, and the other
  entries arrive unchanged.
\<close>

theorem dict_carries_address:
  assumes "dict_inv d" and "utf8_valid k" and "utf8_valid t" and "k \<noteq> []" and "t \<noteq> []" and "k \<noteq> t"
    and "inet_inv a" and "inet_is_ip e a"
  shows "\<exists>b m a1 a2 s. tfb_to_bytes (\<lambda>w. inet_write_bytes e vec_write_all a w) = Returns b
    \<and> dict_from_bytes (dict_to_bytes (set_str (set_bytes d k b) t (inet_to_string e a))) = Some m
    \<and> Option.bind (get_bytes m k) (\<lambda>v. Some (tfb_from_bytes (inet_read_bytes e' slice_read_exact) v)) = Some (Inr a1)
    \<and> get_str m t = Some s \<and> inet_from_str e' s = Inr a2
    \<and> inet_view e' a1 = inet_view e a \<and> inet_eq e' a1 a2
    \<and> (\<forall>k'. k' \<noteq> [] \<and> k' \<noteq> k \<and> k' \<noteq> t \<longrightarrow> get_bytes m k' = get_bytes d k')"
proof -
  let ?x = "inet_view e a"
  let ?b = "endpoint_bytes ?x"
  let ?d = "set_str (set_bytes d k ?b) t (inet_to_string e a)"
  let ?m = "filter (\<lambda>(k, v). k \<noteq> []) ?d"
  note ok = view_ok [OF assms(7), of e]
  have "dict_inv ?d"
    using assms(1-3) by (simp add: set_str_def set_bytes_def dict_inv_insert)
  then have m: "dict_from_bytes (dict_to_bytes ?d) = Some ?m" by (rule from_bytes_to_bytes)
  obtain a2 where a2: "inet_from_str e' (inet_to_string e a) = Inr a2" "inet_inv a2" "inet_view e' a2 = ?x"
    using inet_text_again [OF assms(7,8)] by blast
  have f: "inet_view e' (endpoint_inet e' ?x) = ?x" "inet_inv (endpoint_inet e' ?x)"
    using endpoint_inet_view [OF ok, of e'] assms(8) view_fields(1) [of e a]
    by (auto simp: inet_is_ip_def split: endpoint.splits)
  have rd: "tfb_from_bytes (inet_read_bytes e' slice_read_exact) ?b = Inr (endpoint_inet e' ?x)"
    using slice.inet_read_bytes_enc [OF ok, of ?b "[]" e'] by (auto simp: tfb_from_bytes_def)
  have "inet_eq e' (endpoint_inet e' ?x) a2" using a2 f by (simp add: inet_eq_view)
  then show ?thesis
    using inet_bytes.to_bytes_enc [OF assms(7), of e] m rd a2(1) f(1) assms(4-6)
      inet_to_string_utf8 [OF assms(8,7)]
    by (intro exI [of _ ?b] exI [of _ ?m] exI [of _ "endpoint_inet e' ?x"] exI [of _ a2] exI [of _ "inet_to_string e a"])
      (simp add: get_str_def get_bytes_def bt_get_no_empty set_str_def set_bytes_def bt_get_insert)
qed

theorem dict_carries_address_witness:
  "\<exists>b m a. tfb_to_bytes (\<lambda>w. inet_write_bytes LE vec_write_all (inet_ipv4_loopback LE 9993) w) = Returns b
    \<and> dict_from_bytes (dict_to_bytes
        (set_str (set_bytes dict_new [97] b) [98] (inet_to_string LE (inet_ipv4_loopback LE 9993)))) = Some m
    \<and> get_str m [98] \<noteq> None \<and> inet_view BE a = Endpoint AF_INET [127, 0, 0, 1] 9993"
proof -
  let ?a = "inet_ipv4_loopback LE 9993"
  have a: "inet_inv ?a" "inet_view LE ?a = Endpoint AF_INET [127, 0, 0, 1] 9993" by (simp_all add: ipv4_loopback_eq from_ip_port_view)
  then have "inet_is_ip LE ?a" using view_fields(1) [OF a(2)] by (simp add: inet_is_ip_def)
  moreover have "dict_inv dict_new" by (simp add: dict_inv_def dict_new_def)
  moreover have "utf8_valid [97]" "utf8_valid [98]" by (simp_all del: utf8_valid.simps(2))
  ultimately obtain b m a1 t where "tfb_to_bytes (\<lambda>w. inet_write_bytes LE vec_write_all ?a w) = Returns b"
    "dict_from_bytes (dict_to_bytes (set_str (set_bytes dict_new [97] b) [98] (inet_to_string LE ?a))) = Some m"
    "get_str m [98] = Some t" "inet_view BE a1 = inet_view LE ?a"
    using dict_carries_address [of dict_new "[97]" "[98]" ?a LE BE] a(1) by auto
  then show ?thesis using a(2) by auto
qed

lemma accepted_map: "accepted (map f xs) bs = map f (accepted xs bs)"
  by (induction xs bs rule: accepted.induct) simp_all

lemma set_accepted: "x \<in> set (accepted xs bs) \<Longrightarrow> x \<in> set xs"
  by (induction xs bs rule: accepted.induct) (auto split: if_splits)



section \<open>The unit tests\<close>

text \<open>
  The tests on a host of byte order \<open>e\<close>, with a pool at address \<open>base\<close>, after the boxes in \<open>heap\<close>
  were leaked; \<open>v4\<close> and \<open>v6\<close> are the random octets that the test of \<open>set\<close> draws.
\<close>

definition unit_tests ::
  "endian \<Rightarrow> bool \<Rightarrow> nat \<Rightarrow> nat \<Rightarrow> int list \<Rightarrow> (nat \<Rightarrow> u8 list) \<Rightarrow> (nat \<Rightarrow> u8 list) \<Rightarrow> unit outcome list"
where
  "unit_tests e debug base inner heap v4 v6 =
    [test_av_popability, test_av_bounds, test_av_clear, test_av_order, test_rb_fifo, test_rb_default, test_varint,
     test_hex_to_and_from_string, test_hex_to_and_from_string_u64, test_hex_to_vec_u64, test_hex_to_hex_bytes,
     test_escape_unescape, test_immortal_new heap, test_immortal_deref heap, test_immortal_as_ref heap,
     test_inet_values, test_inet_set_get e v4 v6, test_inet_eq e, test_inet_try_into e, test_inet_tofrom_bytes e,
     test_inet_ipv6_string e, test_inet_ipv4_string e, test_inet_invalid_string e, test_inet_zero e,
     test_pool_alloc_free debug base inner]"

lemma all_tests:
  assumes "\<And>port. length (v4 port) = 4" and "\<And>port. length (v6 port) = 16" and "inner < 2 ^ 32"
  shows "list_all (\<lambda>t. t = Returns ()) (unit_tests e debug base inner heap v4 v6)"
proof -
  have "test_inet_set_get e v4 v6 = Returns ()"
    using set_get_loop_ok [of v4 4 e] set_get_loop_ok [of v6 16 e] assms(1,2) by (simp add: test_inet_set_get_def)
  then show ?thesis
    using arrayvec_tests ringbuffer_tests varint_tests hex_tests escape_tests immortal_tests inet_tests pool_test [OF assms(3)]
    by (simp add: unit_tests_def)
qed



end
